theory Spec2Isabelle
  imports Complex_Main "HOL-Library.Multiset" "HOL-Library.Word" "HOL-Library.Product_Lexorder"
begin

section \<open>The attribute table (src/table/table.cc)\<close>

text \<open>
  \<open>Table::Add\<close> checks the field count and the key, then inserts the key into
  \<open>item_to_docid\<close>, encodes the fields into one fixed-width record, appends the record to
  the storage manager and sets \<open>last_docid\<close>.

  The storage manager, \<open>utils::StringToInt64\<close> and the reinterpretation of the first
  eight key bytes as a \<open>long\<close> are not part of the sources at hand; they are taken as
  parameters (\<open>table_env\<close>), over an arbitrary storage state \<open>'sm\<close>.
  Member names are the source's without the trailing underscore (\<open>last_docid\<close> is
  \<open>last_docid_\<close>).
  The record buffer \<open>doc_value\<close> is modelled by its cells, one per field, in field order:
  the byte offsets \<open>idx_attr_offset\<close> only say where a cell lies in the buffer.
\<close>

datatype DataType = INT_type | LONG | FLOAT | DOUBLE | STRING

record Field =
  name :: string
  "value" :: string
  data_type :: DataType

datatype cell =
  Fixed string
| StrRef nat nat nat

record 'sm table_env =
  StringToInt64 :: "string \<Rightarrow> int"
  bytes_to_long :: "string \<Rightarrow> int"
  AddString :: "string \<Rightarrow> nat \<Rightarrow> 'sm \<Rightarrow> (nat \<times> nat) \<times> 'sm"
  storage_Add :: "cell list \<Rightarrow> 'sm \<Rightarrow> 'sm"

record 'sm Table =
  item_length :: nat
  field_num :: nat
  id_type :: nat
  attr_idx_map :: "(string \<times> nat) list"
  str_field_id :: "(nat \<times> nat) list"
  idx_attr_offset :: "nat list"
  attrs :: "DataType list"
  item_to_docid :: "int \<rightharpoonup> int"
  storage_mgr :: 'sm
  last_docid :: int

text \<open>\<open>Table::FTypeSize\<close>; the string cell is two 32-bit numbers and a length of
  \<open>sizeof(str_len_t)\<close> bytes, a type declared outside the sources at hand.\<close>

definition FTypeSize :: "nat \<Rightarrow> DataType \<Rightarrow> nat" where
  "FTypeSize sizeof_str_len fType =
     (case fType of INT_type \<Rightarrow> 4 | LONG \<Rightarrow> 8 | FLOAT \<Rightarrow> 4 | DOUBLE \<Rightarrow> 8
      | STRING \<Rightarrow> 4 + 4 + sizeof_str_len)"

text \<open>\<open>item_to_docid_.insert(k, docid)\<close> on the concurrent hash map: a key that is already
  present keeps its value.\<close>

definition map_insert :: "'k \<Rightarrow> 'v \<Rightarrow> ('k \<rightharpoonup> 'v) \<Rightarrow> ('k \<rightharpoonup> 'v)" where
  "map_insert k v m = (case m k of None \<Rightarrow> m(k \<mapsto> v) | Some _ \<Rightarrow> m)"

text \<open>\<open>std::map::operator[]\<close>: a missing key is inserted with the value \<open>0\<close>.\<close>

definition map_index :: "'k \<Rightarrow> ('k \<times> nat) list \<Rightarrow> nat \<times> ('k \<times> nat) list" where
  "map_index k m = (case map_of m k of Some v \<Rightarrow> (v, m) | None \<Rightarrow> (0, m @ [(k, 0)]))"

text \<open>\<open>memcpy(doc_value + offset, field_value.value.c_str(), type_size)\<close>: the first
  \<open>type_size\<close> bytes of the value; a shorter value is followed by its terminator, and
  what lies after it is written as zero bytes here.\<close>

definition fixed_bytes :: "nat \<Rightarrow> string \<Rightarrow> string" where
  "fixed_bytes n v = take n (v @ replicate n (CHR 0x00))"

text \<open>One iteration of the loop over the fields of \<open>Table::Add\<close>: field \<open>i\<close> with its schema
  type \<open>attrs_[i]\<close>. The state is the table and the record built so far. The source reads
  \<open>attr_idx_map_[name]\<close> and \<open>str_field_id_[...]\<close> with \<open>operator[]\<close>, which inserts a
  missing key. (\<open>INT_type\<close> is \<open>DataType::INT\<close>.)\<close>

definition add_field_value ::
  "'sm table_env \<Rightarrow> nat \<Rightarrow> (Field \<times> DataType) \<Rightarrow> 'sm Table \<times> cell list \<Rightarrow> 'sm Table \<times> cell list" where
  "add_field_value env sizeof_str_len fa s =
     (case fa of (field_value, attr) \<Rightarrow>
      case s of (t, doc_value) \<Rightarrow>
        if attr \<noteq> STRING then
          (t, doc_value @ [Fixed (fixed_bytes (FTypeSize sizeof_str_len attr) (value field_value))])
        else
          (let len = length (value field_value);
               (fid, aim) = map_index (name field_value) (attr_idx_map t);
               (str_field_id, sfi) = map_index fid (str_field_id t);
               ((block_id, in_block_pos), sm) = AddString env (value field_value) len (storage_mgr t)
           in (t\<lparr>attr_idx_map := aim, str_field_id := sfi, storage_mgr := sm\<rparr>,
               doc_value @ [StrRef block_id in_block_pos len])))"

text \<open>\<open>Table::Add\<close>: the return code and the table afterwards.\<close>

definition Table_Add ::
  "'sm table_env \<Rightarrow> nat \<Rightarrow> string \<Rightarrow> Field list \<Rightarrow> int \<Rightarrow> 'sm Table \<Rightarrow> int \<times> 'sm Table" where
  "Table_Add env sizeof_str_len key flds docid t =
     (if length flds \<noteq> length (attr_idx_map t) then (- 2, t)
      else if length key = 0 then (- 3, t)
      else
        (let k = (if id_type t = 0 then StringToInt64 env key else bytes_to_long env key);
             t1 = t\<lparr>item_to_docid := map_insert k docid (item_to_docid t)\<rparr>;
             (t2, doc_value) = fold (add_field_value env sizeof_str_len) (zip flds (attrs t1)) (t1, []);
             t3 = t2\<lparr>storage_mgr := storage_Add env doc_value (storage_mgr t2)\<rparr>
         in (0, t3\<lparr>last_docid := docid\<rparr>)))"

section \<open>The IVF-PQ engine: training and the ingestion tick (src/index/gamma_index_ivfpq.cc)\<close>

text \<open>
  Floats are modelled by \<open>real\<close>: the properties below compare and copy them, and never
  depend on rounding. A raw vector is a list of components, a PQ code a list of bytes.

  The coarse quantizer, the PQ codec (\<open>train\<close>, \<open>assign\<close>, \<open>compute_residual\<close>,
  \<open>compute_codes\<close>) and the realtime inverted index (\<open>AddKeys\<close>, \<open>Update\<close>,
  \<open>CompactBucket\<close>, \<open>Compactable\<close>) are not part of the sources at hand. They are taken as
  parameters (\<open>collaborators\<close>) over an arbitrary codebook state \<open>'cb\<close> and an arbitrary state
  \<open>'ix\<close> of the inverted index, so that every statement holds for each implementation of them.
  Member names are the source's without the trailing underscore; \<open>idx_d\<close> is the index
  dimension \<open>d\<close> (\<open>d_\<close>).
\<close>

type_synonym vec = "real list"
type_synonym code = "8 word list"

datatype error = AssertionFailed | OutOfBounds

text \<open>The raw vector store. It is filled by other threads while the engine runs, so
  \<open>GetVectorNum raw k\<close> is what the \<open>k\<close>-th call of \<open>GetVectorNum()\<close> within the operation at hand
  returns (\<open>k = 0\<close> for the first call).\<close>

record RawVector =
  GetVectorNum :: "nat \<Rightarrow> int"
  GetDimension :: nat
  vectors :: "int \<Rightarrow> vec"
  updated_vids :: "int list"

record ('ix, 'cb) collaborators =
  train :: "vec list \<Rightarrow> 'cb \<Rightarrow> 'cb"
  assign :: "'cb \<Rightarrow> vec \<Rightarrow> int"
  compute_residual :: "'cb \<Rightarrow> vec \<Rightarrow> int \<Rightarrow> vec"
  compute_codes :: "'cb \<Rightarrow> vec \<Rightarrow> code"
  AddKeys :: "(int \<rightharpoonup> int list) \<Rightarrow> (int \<rightharpoonup> code) \<Rightarrow> 'ix \<Rightarrow> bool \<times> 'ix"
  Update :: "int \<Rightarrow> int \<Rightarrow> code \<Rightarrow> 'ix \<Rightarrow> 'ix"
  CompactBucket :: "nat \<Rightarrow> 'ix \<Rightarrow> int \<times> 'ix"
  Compactable :: "int \<Rightarrow> 'ix \<Rightarrow> bool"

record ('ix, 'cb) GammaIVFPQIndex =
  is_trained :: bool
  codebooks :: 'cb
  idx_d :: nat
  nlist :: nat
  by_residual :: bool
  indexed_vec_count :: int
  compaction :: bool
  compact_bucket_no :: nat
  compacted_num :: int
  updated_num :: int
  rt_invert_index :: 'ix
  max_docid :: int
  delete_num :: int

text \<open>\<open>ConvertVectorDim\<close>: each vector keeps its \<open>raw_d\<close> components and is filled with zeros
  up to dimension \<open>d\<close>.\<close>

definition ConvertVectorDim :: "nat \<Rightarrow> nat \<Rightarrow> vec list \<Rightarrow> vec list" where
  "ConvertVectorDim raw_d d raw_vec = map (\<lambda>v. take raw_d v @ replicate (d - raw_d) 0) raw_vec"

text \<open>\<open>GetVectorHeader(start, end, header)\<close>: the stored vectors of the vids in \<open>[start, end)\<close>.\<close>

definition GetVectorHeader :: "RawVector \<Rightarrow> int \<Rightarrow> int \<Rightarrow> vec list" where
  "GetVectorHeader raw start_vid end_vid = map (vectors raw) [start_vid..end_vid - 1]"

text \<open>\<open>GammaIVFPQIndex::Indexing\<close>: the return code and the engine afterwards. \<open>train\<close> is the
  library's training routine; it leaves the index trained.\<close>

definition Indexing ::
  "('ix, 'cb) collaborators \<Rightarrow> RawVector \<Rightarrow> ('ix, 'cb) GammaIVFPQIndex
   \<Rightarrow> int \<times> ('ix, 'cb) GammaIVFPQIndex" where
  "Indexing c raw e =
     (if is_trained e then (0, e)
      else
        (let vectors_count = GetVectorNum raw 0 in
         if vectors_count < 8192 then (- 1, e)
         else
           (let num = (if vectors_count > 100000 then 100000 else vectors_count);
                header = GetVectorHeader raw 0 num;
                raw_d = GetDimension raw;
                train_vec = (if idx_d e > raw_d then ConvertVectorDim raw_d (idx_d e) header
                             else header)
            in (0, e\<lparr>is_trained := True, codebooks := train c train_vec (codebooks e)\<rparr>))))"

text \<open>\<open>compute_residuals\<close>: a vector assigned to no list (\<open>list_no < 0\<close>) gets the zero
  residual.\<close>

definition compute_residuals ::
  "('ix, 'cb) collaborators \<Rightarrow> 'cb \<Rightarrow> nat \<Rightarrow> vec list \<Rightarrow> int list \<Rightarrow> vec list" where
  "compute_residuals c cb d x list_nos =
     map (\<lambda>(xi, list_no). if list_no < 0 then replicate d 0 else compute_residual c cb xi list_no)
       (zip x list_nos)"

text \<open>\<open>new_keys[key].push_back(...)\<close> on a \<open>std::map\<close> of vectors: a missing key starts from
  the empty vector.\<close>

definition push_back_at :: "int \<Rightarrow> 'a list \<Rightarrow> (int \<rightharpoonup> 'a list) \<Rightarrow> (int \<rightharpoonup> 'a list)" where
  "push_back_at key xs m = m(key \<mapsto> (case m key of None \<Rightarrow> [] | Some ys \<Rightarrow> ys) @ xs)"

text \<open>The grouping loop of \<open>GammaIVFPQIndex::Add\<close> over the inputs \<open>i < n\<close>, each with its list
  number \<open>idx[i]\<close> and its code. The state is
  \<open>(new_keys, new_codes, vid, n_ignore, n_add)\<close>.\<close>

type_synonym add_state = "(int \<rightharpoonup> int list) \<times> (int \<rightharpoonup> code) \<times> int \<times> nat \<times> nat"

fun add_loop :: "nat \<Rightarrow> (int \<times> code) list \<Rightarrow> add_state \<Rightarrow> error + add_state" where
  "add_loop nl [] s = Inr s"
| "add_loop nl ((key, code) # rest) (new_keys, new_codes, vid, n_ignore, n_add) =
     (if \<not> key < int nl then Inl AssertionFailed
      else if key < 0 then add_loop nl rest (new_keys, new_codes, vid, n_ignore + 1, n_add)
      else add_loop nl rest
             (push_back_at key [vid] new_keys, push_back_at key code new_codes,
              vid + 1, n_ignore, n_add + 1))"

text \<open>\<open>GammaIVFPQIndex::Add(n, vec)\<close>, up to the comment \<open>stage 2\<close>: assignment, residuals,
  codes, and the grouping loop, which starts at \<open>vid = indexed_vec_count_\<close>.\<close>

definition Add_stage1 ::
  "('ix, 'cb) collaborators \<Rightarrow> vec list \<Rightarrow> ('ix, 'cb) GammaIVFPQIndex \<Rightarrow> error + add_state" where
  "Add_stage1 c vec e =
     (let cb = codebooks e;
          idx = map (assign c cb) vec;
          to_encode = (if by_residual e then compute_residuals c cb (idx_d e) vec idx else vec);
          xcodes = map (compute_codes c cb) to_encode
      in add_loop (nlist e) (zip idx xcodes) (Map.empty, Map.empty, indexed_vec_count e, 0, 0))"

text \<open>\<open>GammaIVFPQIndex::Add(n, vec)\<close>: \<open>Inl\<close> when the assertion \<open>key < nlist\<close> fails, else
  the boolean it returns and the engine afterwards. When \<open>AddKeys\<close> returns false the function
  returns before \<open>indexed_vec_count_ = vid\<close>.\<close>

definition Add ::
  "('ix, 'cb) collaborators \<Rightarrow> vec list \<Rightarrow> ('ix, 'cb) GammaIVFPQIndex
   \<Rightarrow> error + (bool \<times> ('ix, 'cb) GammaIVFPQIndex)" where
  "Add c vec e =
     (case Add_stage1 c vec e of
        Inl err \<Rightarrow> Inl err
      | Inr (new_keys, new_codes, vid, n_ignore, n_add) \<Rightarrow>
          (case AddKeys c new_keys new_codes (rt_invert_index e) of
             (False, ix) \<Rightarrow> Inr (False, e\<lparr>rt_invert_index := ix\<rparr>)
           | (True, ix) \<Rightarrow> Inr (True, e\<lparr>rt_invert_index := ix, indexed_vec_count := vid\<rparr>)))"

text \<open>One vid of the update drain: fetch the vector, assign it, encode it, and call
  \<open>Update\<close> (whose result the source ignores).\<close>

definition update_one ::
  "('ix, 'cb) collaborators \<Rightarrow> RawVector \<Rightarrow> ('ix, 'cb) GammaIVFPQIndex \<Rightarrow> int \<Rightarrow> 'ix \<Rightarrow> 'ix" where
  "update_one c raw e vid ix =
     (let cb = codebooks e;
          raw_d = GetDimension raw;
          vec = (if idx_d e > raw_d then hd (ConvertVectorDim raw_d (idx_d e) [vectors raw vid])
                 else vectors raw vid);
          idx = assign c cb vec;
          to_encode = (if by_residual e then hd (compute_residuals c cb (idx_d e) [vec] [idx])
                       else vec)
      in Update c idx vid (compute_codes c cb to_encode) ix)"

text \<open>\<open>GammaIVFPQIndex::AddUpdatedVecToIndex\<close>: at most 20000 vids are taken from the queue
  of updated vids. It returns \<open>0\<close> on every path.\<close>

definition AddUpdatedVecToIndex ::
  "('ix, 'cb) collaborators \<Rightarrow> RawVector \<Rightarrow> ('ix, 'cb) GammaIVFPQIndex
   \<Rightarrow> int \<times> RawVector \<times> ('ix, 'cb) GammaIVFPQIndex" where
  "AddUpdatedVecToIndex c raw e =
     (let vids = take 20000 (updated_vids raw);
          raw' = raw\<lparr>updated_vids := drop 20000 (updated_vids raw)\<rparr>
      in if length vids = 0 then (0, raw', e)
         else (0, raw',
               e\<lparr>rt_invert_index := fold (update_one c raw e) vids (rt_invert_index e),
                 updated_num := updated_num e + int (length vids)\<rparr>))"

text \<open>The compaction loop of \<open>AddRTVecsToIndex\<close>:
  \<^verbatim>\<open>for (; compact_bucket_no_ < nlist; compact_bucket_no_++) {
    if (raw_vec_->GetVectorNum() > indexed_vec_count_) break;
    num = rt_invert_index_ptr_->CompactBucket(compact_bucket_no_);
    compacted_num_ += num; }\<close>
  \<open>k\<close> counts the calls of \<open>GetVectorNum()\<close> made so far in the tick.\<close>

function compact_loop ::
  "('ix, 'cb) collaborators \<Rightarrow> RawVector \<Rightarrow> nat \<Rightarrow> ('ix, 'cb) GammaIVFPQIndex
   \<Rightarrow> ('ix, 'cb) GammaIVFPQIndex" where
  "compact_loop c raw k e =
     (if compact_bucket_no e < nlist e then
        (if GetVectorNum raw k > indexed_vec_count e then e
         else
           (let (num, ix) = CompactBucket c (compact_bucket_no e) (rt_invert_index e)
            in compact_loop c raw (k + 1)
                 (e\<lparr>rt_invert_index := ix, compacted_num := compacted_num e + num,
                    compact_bucket_no := compact_bucket_no e + 1\<rparr>)))
      else e)"
  by pat_completeness auto
termination
  by (relation "measure (\<lambda>(c, raw, k, e). nlist e - compact_bucket_no e)") auto

declare compact_loop.simps [simp del]

text \<open>The branch \<open>indexed_vec_count_ == total_stored_vecs\<close> of \<open>AddRTVecsToIndex\<close>.\<close>

definition compaction_tick ::
  "('ix, 'cb) collaborators \<Rightarrow> RawVector \<Rightarrow> ('ix, 'cb) GammaIVFPQIndex
   \<Rightarrow> ('ix, 'cb) GammaIVFPQIndex" where
  "compaction_tick c raw e =
     (let e1 = (if \<not> compaction e \<and> Compactable c (delete_num e) (rt_invert_index e)
                then e\<lparr>compaction := True\<rparr> else e);
          e2 = (if compaction e1 then compact_loop c raw 1 e1 else e1)
      in if compact_bucket_no e2 = nlist e2
         then e2\<lparr>compaction := False, compact_bucket_no := 0\<rparr> else e2)"

text \<open>The branch \<open>indexed_vec_count_ < total_stored_vecs\<close>: the loop over
  \<open>i < index_count\<close>, batches of at most \<open>MAX_NUM_PER_INDEX = 1000\<close> vectors. The state is
  \<open>ret\<close> and the engine; a failed \<open>Add\<close> sets \<open>ret = -2\<close> and the loop goes on.\<close>

fun catch_up_loop ::
  "('ix, 'cb) collaborators \<Rightarrow> RawVector \<Rightarrow> int \<Rightarrow> int \<Rightarrow> int list
   \<Rightarrow> int \<times> ('ix, 'cb) GammaIVFPQIndex \<Rightarrow> error + (int \<times> ('ix, 'cb) GammaIVFPQIndex)" where
  "catch_up_loop c raw total_stored_vecs index_count [] s = Inr s"
| "catch_up_loop c raw total_stored_vecs index_count (i # is) (ret, e) =
     (let start_docid = indexed_vec_count e;
          count_per_index = (if i = index_count - 1 then total_stored_vecs - start_docid
                             else 1000);
          vector_head = GetVectorHeader raw (indexed_vec_count e)
                          (indexed_vec_count e + count_per_index);
          raw_d = GetDimension raw;
          add_vec = (if idx_d e > raw_d then ConvertVectorDim raw_d (idx_d e) vector_head
                     else vector_head)
      in case Add c add_vec e of
           Inl err \<Rightarrow> Inl err
         | Inr (ok, e') \<Rightarrow>
             catch_up_loop c raw total_stored_vecs index_count is
               (if \<not> ok then - 2 else ret, e'))"

text \<open>\<open>GammaIVFPQIndex::AddRTVecsToIndex\<close>: the three branches on
  \<open>indexed_vec_count_\<close> against \<open>total_stored_vecs\<close>, then the update drain, which runs after
  each of them.\<close>

definition AddRTVecsToIndex ::
  "('ix, 'cb) collaborators \<Rightarrow> RawVector \<Rightarrow> ('ix, 'cb) GammaIVFPQIndex
   \<Rightarrow> error + (int \<times> RawVector \<times> ('ix, 'cb) GammaIVFPQIndex)" where
  "AddRTVecsToIndex c raw e =
     (let total_stored_vecs = GetVectorNum raw 0 in
      case (if indexed_vec_count e > total_stored_vecs then Inr (- 1, e)
            else if indexed_vec_count e = total_stored_vecs then Inr (0, compaction_tick c raw e)
            else
              (let index_count = (total_stored_vecs - indexed_vec_count e) div 1000 + 1
               in catch_up_loop c raw total_stored_vecs index_count [0..index_count - 1] (0, e)))
      of Inl err \<Rightarrow> Inl err
       | Inr (ret, e1) \<Rightarrow>
           (case AddUpdatedVecToIndex c raw e1 of
              (r, raw', e2) \<Rightarrow> Inr (if r \<noteq> 0 then - 1 else ret, raw', e2)))"



section \<open>Search (src/index/gamma_index_ivfpq.cc)\<close>

subsection \<open>Result heaps\<close>

text \<open>
  A result heap is the pair of arrays \<open>simi\<close> (distances) and \<open>idxi\<close> (labels) of one query,
  which the source always reads and writes at the same index: it is modelled as one list of
  pairs \<open>(simi[i], idxi[i])\<close>. The heap primitives (\<open>heap_heapify\<close>, \<open>heap_pop\<close>,
  \<open>heap_push\<close>, \<open>heap_addn\<close>, \<open>heap_reorder\<close>) and the comparators \<open>CMin\<close> and \<open>CMax\<close>
  belong to the faiss library, which is not part of the sources at hand; the definitions
  below follow its \<open>Heap.h\<close>: a binary heap in an array, indexed from 1, whose root is the
  entry that the comparator ranks worst.
\<close>

type_synonym heap = "(real \<times> int) list"

datatype MetricType = METRIC_INNER_PRODUCT | METRIC_L2

text \<open>\<open>HeapForIP = CMin\<close> (\<open>cmp(a, b) = a < b\<close>, neutral \<open>-FLT_MAX\<close>) and
  \<open>HeapForL2 = CMax\<close> (\<open>cmp(a, b) = a > b\<close>, neutral \<open>FLT_MAX\<close>).\<close>

definition FLT_MAX :: real where
  "FLT_MAX = 340282346638528859811704183484516925440"

definition cmp :: "MetricType \<Rightarrow> real \<Rightarrow> real \<Rightarrow> bool" where
  "cmp m a b = (case m of METRIC_INNER_PRODUCT \<Rightarrow> a < b | METRIC_L2 \<Rightarrow> a > b)"

definition neutral :: "MetricType \<Rightarrow> real" where
  "neutral m = (case m of METRIC_INNER_PRODUCT \<Rightarrow> - FLT_MAX | METRIC_L2 \<Rightarrow> FLT_MAX)"

text \<open>\<open>init_result(topk, simi, idxi)\<close>, that is \<open>heap_heapify\<close> without initial values: every
  slot holds the neutral distance and the label \<open>-1\<close>.\<close>

definition init_result :: "MetricType \<Rightarrow> nat \<Rightarrow> heap" where
  "init_result m topk = replicate topk (neutral m, - 1)"

text \<open>The loop of \<open>heap_pop\<close>, on the 1-based index \<open>i\<close> of the hole; \<open>bh ! (i - 1)\<close> is the
  source's \<open>bh_val[i]\<close> after \<open>bh_val--\<close>. The loop starts at \<open>i = 1\<close> and \<open>i\<close> only grows; the
  test \<open>i = 0\<close> makes the function total.\<close>

function heap_pop_loop :: "MetricType \<Rightarrow> nat \<Rightarrow> real \<Rightarrow> heap \<Rightarrow> nat \<Rightarrow> heap \<times> nat" where
  "heap_pop_loop m k val bh i =
     (let i1 = 2 * i; i2 = i1 + 1 in
      if i1 > k \<or> i = 0 then (bh, i)
      else if i2 = k + 1 \<or> cmp m (fst (bh ! (i1 - 1))) (fst (bh ! (i2 - 1))) then
        (if cmp m val (fst (bh ! (i1 - 1))) then (bh, i)
         else heap_pop_loop m k val (bh[i - 1 := bh ! (i1 - 1)]) i1)
      else
        (if cmp m val (fst (bh ! (i2 - 1))) then (bh, i)
         else heap_pop_loop m k val (bh[i - 1 := bh ! (i2 - 1)]) i2))"
  by pat_completeness auto
termination
  by (relation "measure (\<lambda>(m, k, val, bh, i). Suc k - i)") auto

declare heap_pop_loop.simps [simp del]

definition heap_pop :: "MetricType \<Rightarrow> nat \<Rightarrow> heap \<Rightarrow> heap" where
  "heap_pop m k bh =
     (let val = fst (bh ! (k - 1));
          (bh', i) = heap_pop_loop m k val bh 1
      in bh'[i - 1 := bh' ! (k - 1)])"

function heap_push_loop :: "MetricType \<Rightarrow> real \<Rightarrow> heap \<Rightarrow> nat \<Rightarrow> heap \<times> nat" where
  "heap_push_loop m val bh i =
     (if i > 1 then
        (let i_father = i div 2 in
         if \<not> cmp m val (fst (bh ! (i_father - 1))) then (bh, i)
         else heap_push_loop m val (bh[i - 1 := bh ! (i_father - 1)]) i_father)
      else (bh, i))"
  by pat_completeness auto
termination
  by (relation "measure (\<lambda>(m, val, bh, i). i)") auto

declare heap_push_loop.simps [simp del]

definition heap_push :: "MetricType \<Rightarrow> nat \<Rightarrow> heap \<Rightarrow> real \<Rightarrow> int \<Rightarrow> heap" where
  "heap_push m k bh val ids =
     (let (bh', i) = heap_push_loop m val bh k in bh'[i - 1 := (val, ids)])"

text \<open>The pattern that the source writes at each candidate, and that \<open>heap_addn\<close> repeats:
  \<^verbatim>\<open>if (C::cmp(simi[0], dis)) { heap_pop<C>(k, simi, idxi); heap_push<C>(k, simi, idxi, dis, id); }\<close>
  With \<open>k = 0\<close> the read of \<open>simi[0]\<close> is outside the slots of the query.\<close>

definition heap_replace_top :: "MetricType \<Rightarrow> nat \<Rightarrow> heap \<Rightarrow> real \<Rightarrow> int \<Rightarrow> error + heap" where
  "heap_replace_top m k simi dis ids =
     (if k = 0 then Inl OutOfBounds
      else if cmp m (fst (simi ! 0)) dis then Inr (heap_push m k (heap_pop m k simi) dis ids)
      else Inr simi)"

fun heap_addn :: "MetricType \<Rightarrow> nat \<Rightarrow> heap \<Rightarrow> heap \<Rightarrow> error + heap" where
  "heap_addn m k bh [] = Inr bh"
| "heap_addn m k bh ((x, ids) # rest) =
     (case heap_replace_top m k bh x ids of
        Inl err \<Rightarrow> Inl err
      | Inr bh' \<Rightarrow> heap_addn m k bh' rest)"

text \<open>\<open>heap_reorder\<close>: the root is popped \<open>k\<close> times and written from the end of the array
  downwards; a popped entry with label \<open>-1\<close> does not advance \<open>ii\<close> and is overwritten. Then
  the \<open>ii\<close> entries are moved to the front and the rest is filled with neutral entries.\<close>

fun heap_reorder_loop :: "MetricType \<Rightarrow> nat \<Rightarrow> nat list \<Rightarrow> heap \<times> nat \<Rightarrow> heap \<times> nat" where
  "heap_reorder_loop m k [] s = s"
| "heap_reorder_loop m k (i # rest) (bh, ii) =
     (let (val, ids) = bh ! 0;
          bh1 = heap_pop m (k - i) bh;
          bh2 = bh1[k - ii - 1 := (val, ids)]
      in heap_reorder_loop m k rest (bh2, if ids \<noteq> - 1 then ii + 1 else ii))"

definition heap_reorder :: "MetricType \<Rightarrow> nat \<Rightarrow> heap \<Rightarrow> heap" where
  "heap_reorder m k bh =
     (let (bh', ii) = heap_reorder_loop m k [0..<k] (bh, 0)
      in take ii (drop (k - ii) bh') @ replicate (k - ii) (neutral m, - 1))"

text \<open>Sorting by label: the source sorts the pairs \<open>(idxi[i], simi[i])\<close> with \<open>std::sort\<close>,
  that is by label and then by distance.\<close>

definition sort_by_docid_pairs :: "heap \<Rightarrow> heap" where
  "sort_by_docid_pairs bh = map (\<lambda>(ids, val). (val, ids)) (sort (map (\<lambda>(val, ids). (ids, val)) bh))"

subsection \<open>The search condition and the two variants of \<open>compute_dis\<close>\<close>

record GammaSearchCondition =
  topn :: nat
  recall_num :: nat
  min_dist :: real
  max_dist :: real
  has_rank :: bool
  sort_by_docid :: bool
  parallel_based_on_query :: bool
  use_direct_search :: bool
  range_query_result :: "(int \<Rightarrow> bool) option"

text \<open>The test that both variants of \<open>compute_dis\<close> apply to a distance.\<close>

definition range_test :: "GammaSearchCondition \<Rightarrow> real \<Rightarrow> bool" where
  "range_test condition dis =
     (((min_dist condition \<ge> 0 \<and> dis \<ge> min_dist condition) \<and>
       (max_dist condition \<ge> 0 \<and> dis \<le> max_dist condition)) \<or>
      (min_dist condition = - 1 \<and> max_dist condition = - 1))"

text \<open>\<open>compute_dis\<close> with \<open>has_rank\<close>: the loop over the recall candidates \<open>j < recall_num\<close>.
  \<open>dis_of vid\<close> is the distance that the metric gives between the query and the raw vector
  of \<open>vid\<close> (\<open>fvec_inner_product\<close> or \<open>fvec_L2sqr\<close>, which are library functions).\<close>

fun rank_loop ::
  "GammaSearchCondition \<Rightarrow> MetricType \<Rightarrow> nat \<Rightarrow> (int \<Rightarrow> real) \<Rightarrow> heap \<Rightarrow> heap \<Rightarrow> error + heap" where
  "rank_loop condition m k dis_of [] simi = Inr simi"
| "rank_loop condition m k dis_of ((recall_simi_j, recall_idxi_j) # rest) simi =
     (if recall_idxi_j = - 1 then rank_loop condition m k dis_of rest simi
      else
        (let dis = dis_of recall_idxi_j in
         if range_test condition dis then
           (case heap_replace_top m k simi dis recall_idxi_j of
              Inl err \<Rightarrow> Inl err
            | Inr simi' \<Rightarrow> rank_loop condition m k dis_of rest simi')
         else rank_loop condition m k dis_of rest simi))"

definition compute_dis_rank ::
  "GammaSearchCondition \<Rightarrow> MetricType \<Rightarrow> nat \<Rightarrow> (int \<Rightarrow> real) \<Rightarrow> heap \<Rightarrow> heap \<Rightarrow> error + heap" where
  "compute_dis_rank condition m k dis_of simi recall =
     (case rank_loop condition m k dis_of recall simi of
        Inl err \<Rightarrow> Inl err
      | Inr simi' \<Rightarrow>
          Inr (if sort_by_docid condition then sort_by_docid_pairs simi'
               else heap_reorder m k simi'))"

text \<open>\<open>compute_dis\<close> without rank: the survivors are written at \<open>simi[i]\<close>, \<open>idxi[i]\<close> for
  \<open>i = 0, 1, ...\<close>; the query owns the \<open>k\<close> slots \<open>simi[0..k-1]\<close>, and a write at \<open>i \<ge> k\<close> is
  outside of them. The state is the array and \<open>i\<close>.\<close>

fun norank_loop ::
  "GammaSearchCondition \<Rightarrow> nat \<Rightarrow> heap \<Rightarrow> heap \<times> nat \<Rightarrow> error + heap \<times> nat" where
  "norank_loop condition k [] s = Inr s"
| "norank_loop condition k ((recall_simi_j, recall_idxi_j) # rest) (simi, i) =
     (if recall_idxi_j = - 1 then norank_loop condition k rest (simi, i)
      else
        (let dis = recall_simi_j in
         if range_test condition dis then
           (if i < k then norank_loop condition k rest (simi[i := (dis, recall_idxi_j)], i + 1)
            else Inl OutOfBounds)
         else norank_loop condition k rest (simi, i)))"

definition compute_dis_norank ::
  "GammaSearchCondition \<Rightarrow> nat \<Rightarrow> heap \<Rightarrow> heap \<Rightarrow> error + heap" where
  "compute_dis_norank condition k simi recall =
     (case norank_loop condition k recall (simi, 0) of
        Inl err \<Rightarrow> Inl err
      | Inr (simi', i) \<Rightarrow> Inr simi')"

definition compute_dis ::
  "GammaSearchCondition \<Rightarrow> MetricType \<Rightarrow> nat \<Rightarrow> (int \<Rightarrow> real) \<Rightarrow> heap \<Rightarrow> heap \<Rightarrow> error + heap" where
  "compute_dis condition m k dis_of simi recall =
     (if has_rank condition then compute_dis_rank condition m k dis_of simi recall
      else compute_dis_norank condition k simi recall)"

subsection \<open>Probing the inverted lists (\<open>search_preassigned\<close>)\<close>

text \<open>
  What a query sees of the index: the inverted lists (\<open>invlists key\<close> is the list of the
  entries \<open>(vid, code)\<close> of list \<open>key\<close>) and the scanner. The scanner
  (\<open>GammaIVFPQScanner\<close>) is declared in a header that is not part of the sources at hand.

  Modelled from the spec: the scanner of section 4.6, \<open>scan_codes\<close>. For each entry of the
  list it decodes the PQ distance between the query and the code (\<open>pq_dis key coarse_dis
  code\<close>, a parameter), skips the entries that the filter rejects (\<open>vec_filter vid\<close>, a
  parameter: the docid is deleted in the bitmap or fails the numeric filter), and pushes
  the others into the heap of size \<open>topk\<close>.
\<close>

record scan_env =
  invlists :: "int \<Rightarrow> (int \<times> code) list"
  pq_dis :: "int \<Rightarrow> real \<Rightarrow> code \<Rightarrow> real"
  vec_filter :: "int \<Rightarrow> bool"

fun scan_codes ::
  "scan_env \<Rightarrow> MetricType \<Rightarrow> int \<Rightarrow> real \<Rightarrow> (int \<times> code) list \<Rightarrow> heap \<Rightarrow> nat \<Rightarrow> error + heap" where
  "scan_codes env m key coarse_dis_i [] simi topk = Inr simi"
| "scan_codes env m key coarse_dis_i ((vid, code) # rest) simi topk =
     (if vec_filter env vid then scan_codes env m key coarse_dis_i rest simi topk
      else
        (case heap_replace_top m topk simi (pq_dis env key coarse_dis_i code) vid of
           Inl err \<Rightarrow> Inl err
         | Inr simi' \<Rightarrow> scan_codes env m key coarse_dis_i rest simi' topk))"

text \<open>The lambda \<open>scan_one_list\<close>: the number of codes of the list (\<open>0\<close> for a key \<open>-1\<close>
  and for an empty list) and the heap after the scan.\<close>

definition scan_one_list ::
  "scan_env \<Rightarrow> MetricType \<Rightarrow> int \<Rightarrow> real \<Rightarrow> heap \<Rightarrow> nat \<Rightarrow> error + nat \<times> heap" where
  "scan_one_list env m key coarse_dis_i simi topk =
     (if key < 0 then Inr (0, simi)
      else
        (let list_size = length (invlists env key) in
         if list_size = 0 then Inr (0, simi)
         else
           (case scan_codes env m key coarse_dis_i (invlists env key) simi topk of
              Inl err \<Rightarrow> Inl err
            | Inr simi' \<Rightarrow> Inr (list_size, simi'))))"

text \<open>The loop over the probes of one query when \<open>parallel_mode == 0\<close>:
  \<^verbatim>\<open>for (int ik = 0; ik < nprobe; ik++) {
    nscan += scan_one_list(keys[i * nprobe + ik], coarse_dis[i * nprobe + ik], ...);
    if (max_codes && nscan >= max_codes) break; }\<close>
  A probe is \<open>(ik, key, coarse_dis)\<close>. The state is \<open>nscan\<close>, the recall heap, and the list of
  the probes \<open>ik\<close> for which \<open>scan_one_list\<close> has been called; this last component is not a
  variable of the source, it records the calls.\<close>

type_synonym probe = "nat \<times> int \<times> real"

fun probe_loop ::
  "scan_env \<Rightarrow> MetricType \<Rightarrow> nat \<Rightarrow> int \<Rightarrow> probe list \<Rightarrow> int \<times> heap \<times> nat list
   \<Rightarrow> error + int \<times> heap \<times> nat list" where
  "probe_loop env m rn max_codes [] s = Inr s"
| "probe_loop env m rn max_codes ((ik, key, coarse_dis_i) # rest) (nscan, recall, visited) =
     (case scan_one_list env m key coarse_dis_i recall rn of
        Inl err \<Rightarrow> Inl err
      | Inr (list_size, recall') \<Rightarrow>
          (let nscan' = nscan + int list_size in
           if max_codes \<noteq> 0 \<and> nscan' \<ge> max_codes then Inr (nscan', recall', visited @ [ik])
           else probe_loop env m rn max_codes rest (nscan', recall', visited @ [ik])))"

text \<open>The probes of one query: \<open>ik < nprobe\<close> with \<open>keys[i * nprobe + ik]\<close> and
  \<open>coarse_dis[i * nprobe + ik]\<close>, here the lists \<open>keys\<close> and \<open>coarse_dis\<close> of the query.\<close>

definition probes_of :: "int list \<Rightarrow> real list \<Rightarrow> probe list" where
  "probes_of keys coarse_dis = zip [0..<length keys] (zip keys coarse_dis)"

text \<open>One query of \<open>search_preassigned\<close> with \<open>parallel_mode == 0\<close>: the heaps are
  initialised, the lists are probed, and \<open>compute_dis\<close> writes the result. The second
  component is the list of probes scanned.\<close>

definition search_query_mode0 ::
  "scan_env \<Rightarrow> GammaSearchCondition \<Rightarrow> MetricType \<Rightarrow> int \<Rightarrow> (int \<Rightarrow> real)
   \<Rightarrow> int list \<Rightarrow> real list \<Rightarrow> error + heap \<times> nat list" where
  "search_query_mode0 env condition m max_codes dis_of keys coarse_dis =
     (let k = topn condition;
          simi = init_result m k;
          recall = init_result m (recall_num condition)
      in case probe_loop env m (recall_num condition) max_codes (probes_of keys coarse_dis)
                (0, recall, []) of
           Inl err \<Rightarrow> Inl err
         | Inr (nscan, recall', visited) \<Rightarrow>
             (case compute_dis condition m k dis_of simi recall' of
                Inl err \<Rightarrow> Inl err
              | Inr res \<Rightarrow> Inr (res, visited)))"

text \<open>When \<open>parallel_mode == 1\<close> the probes of a query are distributed over the threads of
  the team (\<open>#pragma omp for schedule(dynamic)\<close>): each thread scans the probes it receives,
  in the order it receives them, into its own heap \<open>local_dis\<close>, \<open>local_idx\<close>; the loop has
  no test on \<open>max_codes\<close>. A schedule gives, for each thread, the probes it executes.\<close>

fun local_scan ::
  "scan_env \<Rightarrow> MetricType \<Rightarrow> nat \<Rightarrow> probe list \<Rightarrow> heap \<times> nat list \<Rightarrow> error + heap \<times> nat list" where
  "local_scan env m rn [] s = Inr s"
| "local_scan env m rn ((ik, key, coarse_dis_i) # rest) (local, visited) =
     (case scan_one_list env m key coarse_dis_i local rn of
        Inl err \<Rightarrow> Inl err
      | Inr (list_size, local') \<Rightarrow> local_scan env m rn rest (local', visited @ [ik]))"

text \<open>The threads then add their heaps to the recall heap of the query, one at a time
  (\<open>#pragma omp critical\<close>), here in the order of the schedule.\<close>

fun merge_threads ::
  "scan_env \<Rightarrow> MetricType \<Rightarrow> nat \<Rightarrow> probe list list \<Rightarrow> heap \<times> nat list \<Rightarrow> error + heap \<times> nat list" where
  "merge_threads env m rn [] s = Inr s"
| "merge_threads env m rn (thread_probes # rest) (recall, visited) =
     (case local_scan env m rn thread_probes (init_result m rn, visited) of
        Inl err \<Rightarrow> Inl err
      | Inr (local, visited') \<Rightarrow>
          (case heap_addn m rn recall local of
             Inl err \<Rightarrow> Inl err
           | Inr recall' \<Rightarrow> merge_threads env m rn rest (recall', visited')))"

definition search_query_mode1 ::
  "scan_env \<Rightarrow> GammaSearchCondition \<Rightarrow> MetricType \<Rightarrow> (int \<Rightarrow> real)
   \<Rightarrow> probe list list \<Rightarrow> error + heap \<times> nat list" where
  "search_query_mode1 env condition m dis_of schedule =
     (let k = topn condition;
          simi = init_result m k;
          recall = init_result m (recall_num condition)
      in case merge_threads env m (recall_num condition) schedule (recall, []) of
           Inl err \<Rightarrow> Inl err
         | Inr (recall', visited) \<Rightarrow>
             (case compute_dis condition m k dis_of simi recall' of
                Inl err \<Rightarrow> Inl err
              | Inr res \<Rightarrow> Inr (res, visited)))"

text \<open>A schedule of the probes of a query: every probe is executed once, by one thread.\<close>

definition schedule_of :: "probe list list \<Rightarrow> int list \<Rightarrow> real list \<Rightarrow> bool" where
  "schedule_of schedule keys coarse_dis \<longleftrightarrow> mset (concat schedule) = mset (probes_of keys coarse_dis)"

subsection \<open>Direct search (\<open>SearchDirectly\<close>)\<close>

text \<open>The lambda \<open>search_impl\<close>: the loop over the vectors \<open>i < ny\<close> of a range that starts
  at the vid \<open>offset\<close>. The source has one copy of the loop for each metric; they differ in
  the comparator only. \<open>vid2docid\<close> is the table of the raw store, \<open>bitmap_test\<close> the test of
  the bitmap of deleted docids. The state is the heap and the counter \<open>total\<close> (\<open>ntotal\<close>).\<close>

fun search_impl_loop ::
  "GammaSearchCondition \<Rightarrow> MetricType \<Rightarrow> nat \<Rightarrow> (int \<Rightarrow> int) \<Rightarrow> (int \<Rightarrow> bool) \<Rightarrow> (int \<Rightarrow> real)
   \<Rightarrow> int list \<Rightarrow> heap \<times> int \<Rightarrow> error + heap \<times> int" where
  "search_impl_loop condition m k vid2docid bitmap_test dis_of [] s = Inr s"
| "search_impl_loop condition m k vid2docid bitmap_test dis_of (vid # rest) (simi, ntotal) =
     (let docid = vid2docid vid;
          ck_dis = (min_dist condition \<ge> 0 \<and> max_dist condition \<ge> 0) in
      if bitmap_test docid \<or>
         (case range_query_result condition of None \<Rightarrow> False | Some nr \<Rightarrow> \<not> nr docid)
      then search_impl_loop condition m k vid2docid bitmap_test dis_of rest (simi, ntotal)
      else
        (let dis = dis_of vid in
         if ck_dis \<and> (dis < min_dist condition \<or> dis > max_dist condition)
         then search_impl_loop condition m k vid2docid bitmap_test dis_of rest (simi, ntotal)
         else
           (case heap_replace_top m k simi dis vid of
              Inl err \<Rightarrow> Inl err
            | Inr simi' \<Rightarrow>
                search_impl_loop condition m k vid2docid bitmap_test dis_of rest
                  (simi', ntotal + 1))))"

definition search_impl ::
  "GammaSearchCondition \<Rightarrow> MetricType \<Rightarrow> nat \<Rightarrow> (int \<Rightarrow> int) \<Rightarrow> (int \<Rightarrow> bool) \<Rightarrow> (int \<Rightarrow> real)
   \<Rightarrow> nat \<Rightarrow> int \<Rightarrow> heap \<Rightarrow> error + heap \<times> int" where
  "search_impl condition m k vid2docid bitmap_test dis_of ny offset simi =
     search_impl_loop condition m k vid2docid bitmap_test dis_of
       (map (\<lambda>i. offset + int i) [0..<ny]) (simi, 0)"

definition final_order :: "GammaSearchCondition \<Rightarrow> MetricType \<Rightarrow> nat \<Rightarrow> heap \<Rightarrow> heap" where
  "final_order condition m k simi =
     (if sort_by_docid condition then sort_by_docid_pairs simi else heap_reorder m k simi)"

text \<open>One query of \<open>SearchDirectly\<close>, parallel over the queries: one scan of all the
  \<open>num_vectors\<close> vectors.\<close>

definition direct_query_mode0 ::
  "GammaSearchCondition \<Rightarrow> MetricType \<Rightarrow> (int \<Rightarrow> int) \<Rightarrow> (int \<Rightarrow> bool) \<Rightarrow> (int \<Rightarrow> real)
   \<Rightarrow> nat \<Rightarrow> error + heap" where
  "direct_query_mode0 condition m vid2docid bitmap_test dis_of num_vectors =
     (let k = topn condition in
      case search_impl condition m k vid2docid bitmap_test dis_of num_vectors 0 (init_result m k) of
        Inl err \<Rightarrow> Inl err
      | Inr (simi, ntotal) \<Rightarrow> Inr (final_order condition m k simi))"

text \<open>One query of \<open>SearchDirectly\<close>, parallel over the vectors: the vectors are cut into
  \<open>num_threads\<close> ranges of \<open>num_vectors / num_threads\<close> vectors, the last one taking the
  rest; each thread scans the ranges \<open>ik\<close> it receives into its own heap, and the heaps of
  the threads are then added to the heap of the query.\<close>

fun direct_local ::
  "GammaSearchCondition \<Rightarrow> MetricType \<Rightarrow> (int \<Rightarrow> int) \<Rightarrow> (int \<Rightarrow> bool) \<Rightarrow> (int \<Rightarrow> real)
   \<Rightarrow> nat \<Rightarrow> nat \<Rightarrow> nat list \<Rightarrow> heap \<Rightarrow> error + heap" where
  "direct_local condition m vid2docid bitmap_test dis_of num_vectors num_threads [] local = Inr local"
| "direct_local condition m vid2docid bitmap_test dis_of num_vectors num_threads (ik # rest) local =
     (let num_vectors_per_thread = num_vectors div num_threads;
          ny = (if ik = num_threads - 1 then num_vectors_per_thread + num_vectors mod num_threads
                else num_vectors_per_thread);
          offset = int (ik * num_vectors_per_thread)
      in case search_impl condition m (topn condition) vid2docid bitmap_test dis_of ny offset local of
           Inl err \<Rightarrow> Inl err
         | Inr (local', ntotal) \<Rightarrow>
             direct_local condition m vid2docid bitmap_test dis_of num_vectors num_threads rest local')"

fun direct_merge ::
  "GammaSearchCondition \<Rightarrow> MetricType \<Rightarrow> (int \<Rightarrow> int) \<Rightarrow> (int \<Rightarrow> bool) \<Rightarrow> (int \<Rightarrow> real)
   \<Rightarrow> nat \<Rightarrow> nat \<Rightarrow> nat list list \<Rightarrow> heap \<Rightarrow> error + heap" where
  "direct_merge condition m vid2docid bitmap_test dis_of num_vectors num_threads [] simi = Inr simi"
| "direct_merge condition m vid2docid bitmap_test dis_of num_vectors num_threads (ranges # rest) simi =
     (case direct_local condition m vid2docid bitmap_test dis_of num_vectors num_threads ranges
             (init_result m (topn condition)) of
        Inl err \<Rightarrow> Inl err
      | Inr local \<Rightarrow>
          (case heap_addn m (topn condition) simi local of
             Inl err \<Rightarrow> Inl err
           | Inr simi' \<Rightarrow>
               direct_merge condition m vid2docid bitmap_test dis_of num_vectors num_threads rest simi'))"

definition direct_query_mode1 ::
  "GammaSearchCondition \<Rightarrow> MetricType \<Rightarrow> (int \<Rightarrow> int) \<Rightarrow> (int \<Rightarrow> bool) \<Rightarrow> (int \<Rightarrow> real)
   \<Rightarrow> nat \<Rightarrow> nat \<Rightarrow> nat list list \<Rightarrow> error + heap" where
  "direct_query_mode1 condition m vid2docid bitmap_test dis_of num_vectors num_threads schedule =
     (let k = topn condition in
      case direct_merge condition m vid2docid bitmap_test dis_of num_vectors num_threads schedule
             (init_result m k) of
        Inl err \<Rightarrow> Inl err
      | Inr simi \<Rightarrow> Inr (final_order condition m k simi))"

subsection \<open>Result remapping (the end of \<open>Search\<close>)\<close>

text \<open>
  After the search, \<open>Search\<close> walks the \<open>topn\<close> slots of each query. The slots of one
  query are again a list of pairs \<open>(dists[j], docids[j])\<close>, which hold vids (or \<open>-1\<close>) when
  the loop starts; \<open>sources\<close> holds the source of each slot (\<open>None\<close> for the null pointer).
  \<open>vid2docid\<close> is the table \<open>raw_vec_->vid2docid_\<close> and \<open>GetSource\<close> gives the source of a vid,
  or \<open>None\<close> when \<open>raw_vec_->GetSource\<close> returns an error. The loop works in place: it reads
  slot \<open>j\<close> and writes slot \<open>pos\<close>. The state is the slots, the sources, \<open>pos\<close> and the map
  \<open>docid2count\<close>.
\<close>

type_synonym remap_state = "heap \<times> string option list \<times> nat \<times> (int \<rightharpoonup> int)"

fun remap_loop ::
  "(int \<Rightarrow> int) \<Rightarrow> (int \<Rightarrow> string option) \<Rightarrow> nat list \<Rightarrow> remap_state \<Rightarrow> remap_state" where
  "remap_loop vid2docid GetSource [] s = s"
| "remap_loop vid2docid GetSource (j # rest) (slots, sources, pos, docid2count) =
     (if snd (slots ! j) = - 1 then
        remap_loop vid2docid GetSource rest (slots, sources, pos, docid2count)
      else
        (let vector_id = snd (slots ! j);
             real_docid = vid2docid vector_id in
         if docid2count real_docid = None then
           remap_loop vid2docid GetSource rest
             (slots[pos := (fst (slots ! j), real_docid)],
              sources[pos := GetSource vector_id],
              pos + 1, docid2count(real_docid \<mapsto> 1))
         else remap_loop vid2docid GetSource rest (slots, sources, pos, docid2count)))"

text \<open>The loop that fills the slots from \<open>pos\<close> to \<open>topn - 1\<close> with \<open>(-1, -1)\<close>.\<close>

definition pad_tail :: "nat \<Rightarrow> nat \<Rightarrow> heap \<Rightarrow> heap" where
  "pad_tail pos n slots = fold (\<lambda>p s. s[p := (- 1, - 1)]) [pos..<n] slots"

text \<open>The body of the loop over the queries at the end of \<open>Search\<close>, for one query:
  the slots, the sources and \<open>result.idx[i]\<close> afterwards.\<close>

definition remap_query ::
  "(int \<Rightarrow> int) \<Rightarrow> (int \<Rightarrow> string option) \<Rightarrow> nat \<Rightarrow> heap \<times> string option list \<times> int
   \<Rightarrow> heap \<times> string option list \<times> int" where
  "remap_query vid2docid GetSource n r =
     (case r of (slots, sources, idx) \<Rightarrow>
      case remap_loop vid2docid GetSource [0..<n] (slots, sources, 0, Map.empty) of
        (slots', sources', pos, docid2count) \<Rightarrow>
          (pad_tail pos n slots', sources', if pos > 0 then 0 else idx))"


subsection \<open>\<open>Search\<close> for one query on the IVF-PQ path\<close>

text \<open>
  \<open>Search\<close> with \<open>use_direct_search\<close> false, for one query: \<open>SearchIVFPQ\<close> runs
  \<open>search_preassigned\<close> on the keys and the coarse distances of the query, in the parallel
  mode that \<open>parallel_based_on_query\<close> selects (\<open>parallel_mode = 0\<close> when it is set, \<open>1\<close>
  otherwise), and the loop at the end of \<open>Search\<close> then maps the vids in the \<open>topn\<close> slots of
  the query to docids. The result is the slots \<open>(dists[j], docids[j])\<close>, the sources and
  \<open>result.idx[i]\<close>. One definition for each parallel mode; in mode 1 the schedule tells
  which thread executes which probes.
\<close>

definition Search_query_mode0 ::
  "scan_env \<Rightarrow> GammaSearchCondition \<Rightarrow> MetricType \<Rightarrow> int \<Rightarrow> (int \<Rightarrow> real)
   \<Rightarrow> (int \<Rightarrow> int) \<Rightarrow> (int \<Rightarrow> string option) \<Rightarrow> int list \<Rightarrow> real list
   \<Rightarrow> string option list \<Rightarrow> int \<Rightarrow> error + heap \<times> string option list \<times> int" where
  "Search_query_mode0 env condition m max_codes dis_of vid2docid GetSource keys coarse_dis sources idx =
     (case search_query_mode0 env condition m max_codes dis_of keys coarse_dis of
        Inl err \<Rightarrow> Inl err
      | Inr (res, visited) \<Rightarrow>
          Inr (remap_query vid2docid GetSource (topn condition) (res, sources, idx)))"

definition Search_query_mode1 ::
  "scan_env \<Rightarrow> GammaSearchCondition \<Rightarrow> MetricType \<Rightarrow> (int \<Rightarrow> real)
   \<Rightarrow> (int \<Rightarrow> int) \<Rightarrow> (int \<Rightarrow> string option) \<Rightarrow> probe list list
   \<Rightarrow> string option list \<Rightarrow> int \<Rightarrow> error + heap \<times> string option list \<times> int" where
  "Search_query_mode1 env condition m dis_of vid2docid GetSource schedule sources idx =
     (case search_query_mode1 env condition m dis_of schedule of
        Inl err \<Rightarrow> Inl err
      | Inr (res, visited) \<Rightarrow>
          Inr (remap_query vid2docid GetSource (topn condition) (res, sources, idx)))"


section \<open>Reference notions for the statements\<close>

text \<open>
  Two notions that the statements about compaction use. \<open>compact_in_order c bs (tot, ix)\<close>
  calls \<open>CompactBucket\<close> on the buckets \<open>bs\<close> one after the other, from the left, and adds
  up the numbers of removed entries. \<open>buckets_before_arrival raw k indexed n\<close> is the number
  of consecutive calls of \<open>GetVectorNum()\<close>, from the \<open>k\<close>-th on and at most \<open>n\<close>, that report
  no more than \<open>indexed\<close> vectors.
\<close>

definition compact_in_order ::
  "('ix, 'cb) collaborators \<Rightarrow> nat list \<Rightarrow> int \<times> 'ix \<Rightarrow> int \<times> 'ix" where
  "compact_in_order c bs s =
     fold (\<lambda>b (tot, ix). case CompactBucket c b ix of (num, ix') \<Rightarrow> (tot + num, ix')) bs s"

definition buckets_before_arrival :: "RawVector \<Rightarrow> nat \<Rightarrow> int \<Rightarrow> nat \<Rightarrow> nat" where
  "buckets_before_arrival raw k indexed n =
     length (takeWhile (\<lambda>j. GetVectorNum raw (k + j) \<le> indexed) [0..<n])"


text \<open>The child that the loop of \<open>heap_pop\<close> compares with \<open>val\<close> at the hole \<open>i\<close>: the only
  child when \<open>2 * i = k\<close>, else the one that the comparator ranks worse.\<close>

definition pop_child :: "MetricType \<Rightarrow> nat \<Rightarrow> heap \<Rightarrow> nat \<Rightarrow> nat" where
  "pop_child m k bh i =
     (if 2 * i = k \<or> cmp m (fst (bh ! (2 * i - 1))) (fst (bh ! (2 * i))) then 2 * i else 2 * i + 1)"


text \<open>The range test of \<open>search_impl\<close>, as the direct search has it: the distance is compared
  with the bounds only when both bounds are non-negative (\<open>ck_dis\<close>).\<close>

definition direct_range_test :: "GammaSearchCondition \<Rightarrow> real \<Rightarrow> bool" where
  "direct_range_test condition dis =
     (if min_dist condition \<ge> 0 \<and> max_dist condition \<ge> 0
      then min_dist condition \<le> dis \<and> dis \<le> max_dist condition else True)"

text \<open>Deduplication by docid in which the first occurrence wins, on pairs \<open>(dist, docid)\<close>:
  \<open>seen\<close> is the set of the docids met so far.\<close>

fun dedup_first :: "int set \<Rightarrow> heap \<Rightarrow> heap" where
  "dedup_first seen [] = []"
| "dedup_first seen ((dis, docid) # rest) =
     (if docid \<in> seen then dedup_first seen rest
      else (dis, docid) # dedup_first (insert docid seen) rest)"

text \<open>The top-k vids of a query, in slot order, resolved to docids: the slots that hold a
  vid (a label other than \<open>-1\<close>), each with its distance and the docid of its vid.\<close>

definition resolve_vids :: "(int \<Rightarrow> int) \<Rightarrow> heap \<Rightarrow> heap" where
  "resolve_vids vid2docid slots =
     map (\<lambda>(dis, vid). (dis, vid2docid vid)) (filter (\<lambda>(dis, vid). vid \<noteq> - 1) slots)"

text \<open>The number of codes that \<open>scan_one_list\<close> reports for a key, and the number of codes
  scanned by the first \<open>j\<close> probes of a query.\<close>

definition list_codes :: "scan_env \<Rightarrow> int \<Rightarrow> nat" where
  "list_codes env key = (if key < 0 then 0 else length (invlists env key))"

definition scanned_before :: "scan_env \<Rightarrow> int list \<Rightarrow> nat \<Rightarrow> int" where
  "scanned_before env keys j = int (sum_list (map (list_codes env) (take j keys)))"

text \<open>The same count for a list of probes.\<close>

definition probe_codes :: "scan_env \<Rightarrow> probe list \<Rightarrow> int" where
  "probe_codes env probes = int (sum_list (map (\<lambda>(ik, key, cd). list_codes env key) probes))"


text \<open>The heap order of the result heaps. \<open>heap_val bh i\<close> is the source's \<open>bh_val[i]\<close> in the
  1-based indexing of the heap primitives; in a heap of \<open>n\<close> slots no entry is ranked worse
  than its father, so that the root is an entry that the comparator ranks worst.\<close>

definition heap_val :: "heap \<Rightarrow> nat \<Rightarrow> real" where
  "heap_val bh i = fst (bh ! (i - 1))"

definition is_heap :: "MetricType \<Rightarrow> nat \<Rightarrow> heap \<Rightarrow> bool" where
  "is_heap m n bh \<longleftrightarrow> (\<forall>j. 2 \<le> j \<and> j \<le> n \<longrightarrow> \<not> cmp m (heap_val bh j) (heap_val bh (j div 2)))"


text \<open>Selection of the best entries. \<open>A\<close> is the multiset of the entries offered to a heap
  so far (its initial neutral entries included) and \<open>F\<close> the multiset of the entries it
  holds: \<open>top_k m A F\<close> says that \<open>F\<close> is taken from \<open>A\<close> and that no entry of \<open>F\<close> is ranked worse
  than an entry left out.\<close>

definition top_k :: "MetricType \<Rightarrow> (real \<times> int) multiset \<Rightarrow> (real \<times> int) multiset \<Rightarrow> bool" where
  "top_k m A F \<longleftrightarrow> F \<subseteq># A \<and> (\<forall>x \<in># F. \<forall>y \<in># A - F. \<not> cmp m (fst x) (fst y))"


text \<open>A heap of \<open>k\<close> slots that has been offered the entries \<open>X\<close> since \<open>init_result\<close>: it is
  in heap order, it holds a selection of the best entries among its \<open>k\<close> neutral entries
  and \<open>X\<close>, and none of its entries is ranked worse than the neutral one. Then the
  candidates that the scanner offers: those of a list of entries, of an inverted list, and
  of a list of probes.\<close>

definition heap_ok :: "MetricType \<Rightarrow> nat \<Rightarrow> (real \<times> int) multiset \<Rightarrow> heap \<Rightarrow> bool" where
  "heap_ok m k X h \<longleftrightarrow>
     length h = k \<and> is_heap m k h \<and> top_k m (mset (init_result m k) + X) (mset h)
     \<and> (\<forall>x \<in> set h. \<not> cmp m (fst x) (neutral m))"

definition entries_cands :: "scan_env \<Rightarrow> int \<Rightarrow> real \<Rightarrow> (int \<times> code) list \<Rightarrow> (real \<times> int) multiset" where
  "entries_cands env key cd entries =
     mset (map (\<lambda>(vid, code). (pq_dis env key cd code, vid))
            (filter (\<lambda>(vid, code). \<not> vec_filter env vid) entries))"

definition list_cands :: "scan_env \<Rightarrow> int \<Rightarrow> real \<Rightarrow> (real \<times> int) multiset" where
  "list_cands env key cd = (if key < 0 then {#} else entries_cands env key cd (invlists env key))"

definition probes_cands :: "scan_env \<Rightarrow> probe list \<Rightarrow> (real \<times> int) multiset" where
  "probes_cands env probes = sum_list (map (\<lambda>(ik, key, cd). list_cands env key cd) probes)"


text \<open>An entry with a label, and the candidates that the ranked \<open>compute_dis\<close> offers to
  the result heap: the recall entries with a label whose exact distance passes the range
  test, with that distance.\<close>

definition real_entry :: "real \<times> int \<Rightarrow> bool" where
  "real_entry p \<longleftrightarrow> snd p \<noteq> - 1"

definition rank_cands :: "GammaSearchCondition \<Rightarrow> (int \<Rightarrow> real) \<Rightarrow> (real \<times> int) multiset \<Rightarrow> (real \<times> int) multiset" where
  "rank_cands condition dis_of R =
     image_mset (\<lambda>(d, vid). (dis_of vid, vid))
       (filter_mset (\<lambda>(d, vid). vid \<noteq> - 1 \<and> range_test condition (dis_of vid)) R)"


text \<open>Two multisets of pairs (distance, label) that are equal up to tie-breaking among
  equal distances: what one holds and the other lacks is as many entries on both sides, and
  all of these entries are at one distance.\<close>

definition equal_up_to_ties :: "(real \<times> int) multiset \<Rightarrow> (real \<times> int) multiset \<Rightarrow> bool" where
  "equal_up_to_ties F G \<longleftrightarrow>
     size (F - G) = size (G - F) \<and> (\<forall>x \<in># F - G. \<forall>y \<in># G - F. fst x = fst y)"


text \<open>Every entry of a heap is the neutral entry or is ranked strictly better than the
  neutral distance: an entry is pushed only when it beats the root.\<close>

definition heap_strict :: "MetricType \<Rightarrow> heap \<Rightarrow> bool" where
  "heap_strict m h \<longleftrightarrow> (\<forall>x \<in> set h. x = (neutral m, - 1) \<or> cmp m (neutral m) (fst x))"


text \<open>The recall heap of a query after its probes, as \<open>parallel_mode == 0\<close> leaves it when
  \<open>max_codes\<close> is \<open>0\<close>.\<close>

definition recall_mode0 :: "scan_env \<Rightarrow> MetricType \<Rightarrow> nat \<Rightarrow> int list \<Rightarrow> real list \<Rightarrow> heap" where
  "recall_mode0 env m rn keys coarse_dis =
     (case probe_loop env m rn 0 (probes_of keys coarse_dis) (0, init_result m rn, []) of
        Inl err \<Rightarrow> []
      | Inr (nscan, recall, visited) \<Rightarrow> recall)"


section \<open>Concrete instances\<close>

text \<open>A small table, and collaborators of the engine that log the calls they receive: they
  are the inputs at which the statements below are evaluated.\<close>

definition example_table_env :: "nat table_env" where
  "example_table_env =
     \<lparr>StringToInt64 = (\<lambda>s. int (length s)), bytes_to_long = (\<lambda>s. int (length s)),
      AddString = (\<lambda>s len sm. ((0, sm), sm + len)), storage_Add = (\<lambda>r sm. sm + 1)\<rparr>"

definition example_table :: "nat Table" where
  "example_table =
     \<lparr>item_length = 18, field_num = 2, id_type = 0,
      attr_idx_map = [(''_id'', 0), (''age'', 1)], str_field_id = [(0, 0)],
      idx_attr_offset = [0, 10], attrs = [STRING, LONG],
      item_to_docid = Map.empty, storage_mgr = 0, last_docid = - 1\<rparr>"

definition example_fields :: "Field list" where
  "example_fields =
     [\<lparr>name = ''_id'', value = ''k1'', data_type = STRING\<rparr>,
      \<lparr>name = ''age'', value = ''12345678'', data_type = LONG\<rparr>]"


datatype ix_event = Added "int list" | Updated int int | Compacted nat

definition example_collab :: "(ix_event list, unit) collaborators" where
  "example_collab =
     \<lparr>train = (\<lambda>vs cb. cb),
      assign = (\<lambda>cb v. if v = [] then - 1 else if hd v < 0 then 0 else 1),
      compute_residual = (\<lambda>cb v list_no. v),
      compute_codes = (\<lambda>cb v. []),
      AddKeys = (\<lambda>new_keys new_codes ix.
         if length ix < 2
         then (True, ix @ [Added (concat (map (\<lambda>k. case new_keys k of None \<Rightarrow> [] | Some vs \<Rightarrow> vs) [0, 1]))])
         else (False, ix)),
      Update = (\<lambda>idx vid code ix. ix @ [Updated idx vid]),
      CompactBucket = (\<lambda>b ix. (1, ix @ [Compacted b])),
      Compactable = (\<lambda>delete_num ix. delete_num > 0)\<rparr>"

definition example_raw :: RawVector where
  "example_raw =
     \<lparr>GetVectorNum = (\<lambda>k. if k < 2 then 5 else 6), GetDimension = 1,
      vectors = (\<lambda>vid. [real_of_int vid]), updated_vids = [3]\<rparr>"

definition example_engine :: "(ix_event list, unit) GammaIVFPQIndex" where
  "example_engine =
     \<lparr>is_trained = True, codebooks = (), idx_d = 1, nlist = 3, by_residual = False,
      indexed_vec_count = 5, compaction = False, compact_bucket_no = 1, compacted_num = 0,
      updated_num = 0, rt_invert_index = [], max_docid = 10, delete_num = 4\<rparr>"


text \<open>A search condition without rank and with one result slot, and an index of three
  inverted lists whose codes are one byte long: the PQ distance of a code is half its byte.\<close>

definition example_condition :: GammaSearchCondition where
  "example_condition =
     \<lparr>topn = 1, recall_num = 2, min_dist = - 1, max_dist = - 1, has_rank = False,
      sort_by_docid = False, parallel_based_on_query = True, use_direct_search = False,
      range_query_result = None\<rparr>"

definition example_scan_env :: scan_env where
  "example_scan_env =
     \<lparr>invlists = (\<lambda>key. if key = 0 then [(7, [1]), (8, [2])] else if key = 1 then [(9, [0])] else []),
      pq_dis = (\<lambda>key coarse_dis_i code. real (unat (hd code)) / 2),
      vec_filter = (\<lambda>vid. False)\<rparr>"


text \<open>The same condition with rank, two result slots and the range \<open>[0, 5]\<close>.\<close>

definition ranked_condition :: GammaSearchCondition where
  "ranked_condition = example_condition\<lparr>topn := 2, min_dist := 0, max_dist := 5, has_rank := True\<rparr>"


text \<open>Exact distances for the example: a quarter of the vid.\<close>

definition example_dis_of :: "int \<Rightarrow> real" where
  "example_dis_of vid = real_of_int vid / 4"


text \<open>An index with three lists of one vector each, in which the vectors \<open>7\<close> and \<open>9\<close> are
  at the same PQ distance from the query, and a table that gives each vid a docid of its
  own.\<close>

definition tied_scan_env :: scan_env where
  "tied_scan_env =
     \<lparr>invlists = (\<lambda>key. if key = 0 then [(7, [1])] else if key = 1 then [(9, [1])]
                        else if key = 2 then [(5, [3])] else []),
      pq_dis = (\<lambda>key coarse_dis_i code. real (unat (hd code)) / 2),
      vec_filter = (\<lambda>vid. False)\<rparr>"

definition example_vid2docid :: "int \<Rightarrow> int" where
  "example_vid2docid vid = vid + 100"


section \<open>Properties of the attribute table\<close>

text \<open>
  Claim C10. \<open>Table::Add\<close> returns a nonzero error and leaves the whole table as it was
  (the key map \<open>item_to_docid\<close>, the storage manager and \<open>last_docid\<close> included) whenever
  the number of fields differs from the size of the schema map or the key is empty.
\<close>

theorem Table_Add_rejects_unchanged:
  assumes "length flds \<noteq> length (attr_idx_map t) \<or> key = []"
  shows "fst (Table_Add env sizeof_str_len key flds docid t) \<noteq> 0
         \<and> snd (Table_Add env sizeof_str_len key flds docid t) = t"
  using assms by (auto simp: Table_Add_def)

theorem Table_Add_rejects_unchanged_witness:
  "length (tl example_fields) \<noteq> length (attr_idx_map example_table)
   \<and> fst (Table_Add example_table_env 2 ''k1'' (tl example_fields) 0 example_table) = - 2
   \<and> snd (Table_Add example_table_env 2 ''k1'' (tl example_fields) 0 example_table) = example_table"
  using Table_Add_rejects_unchanged [of "tl example_fields" example_table "''k1''" example_table_env 2 0]
  by (simp add: Table_Add_def example_fields_def example_table_def)

text \<open>The other side, for comparison: with the right number of fields and a key, the same call
  returns \<open>0\<close>, records the key and sets \<open>last_docid_\<close>; and an empty key is refused with
  \<open>-3\<close>.\<close>

lemma Table_Add_accepts_example:
  "fst (Table_Add example_table_env 2 ''k1'' example_fields 0 example_table) = 0
   \<and> last_docid (snd (Table_Add example_table_env 2 ''k1'' example_fields 0 example_table)) = 0
   \<and> item_to_docid (snd (Table_Add example_table_env 2 ''k1'' example_fields 0 example_table)) 2 = Some 0
   \<and> storage_mgr (snd (Table_Add example_table_env 2 ''k1'' example_fields 0 example_table)) = 3"
  by (simp add: Table_Add_def example_fields_def example_table_def example_table_env_def
      add_field_value_def map_index_def map_insert_def Let_def)

lemma Table_Add_empty_key_example:
  "Table_Add example_table_env 2 [] example_fields 0 example_table = (- 3, example_table)"
  by (simp add: Table_Add_def example_fields_def example_table_def)

section \<open>Properties of training and of the ingestion tick\<close>

subsection \<open>The grouping loop of \<open>Add\<close>\<close>


lemma push_back_at_vids:
  "{v. \<exists>k vs. push_back_at key [vid] m k = Some vs \<and> v \<in> set vs}
   = insert vid {v. \<exists>k vs. m k = Some vs \<and> v \<in> set vs}"
proof (intro set_eqI iffI)
  fix x assume "x \<in> {v. \<exists>k vs. push_back_at key [vid] m k = Some vs \<and> v \<in> set vs}"
  then show "x \<in> insert vid {v. \<exists>k vs. m k = Some vs \<and> v \<in> set vs}"
    by (auto simp: push_back_at_def split: option.splits if_splits)
next
  fix x assume a: "x \<in> insert vid {v. \<exists>k vs. m k = Some vs \<and> v \<in> set vs}"
  show "x \<in> {v. \<exists>k vs. push_back_at key [vid] m k = Some vs \<and> v \<in> set vs}"
  proof (cases "x = vid")
    case True
    then show ?thesis by (auto simp: push_back_at_def intro!: exI [of _ key])
  next
    case False
    with a obtain k vs where kv: "m k = Some vs" "x \<in> set vs" by auto
    show ?thesis
    proof (cases "k = key")
      case True
      with kv show ?thesis by (auto simp: push_back_at_def intro!: exI [of _ key])
    next
      case False
      with kv show ?thesis by (auto simp: push_back_at_def intro!: exI [of _ k])
    qed
  qed
qed

lemma add_loop_counts:
  assumes "\<forall>(key, code) \<in> set xs. key < int nl"
  shows "\<exists>nk nc. add_loop nl xs (new_keys, new_codes, vid, n_ignore, n_add) =
     Inr (nk, nc, vid + int (length (filter (\<lambda>(key, code). 0 \<le> key) xs)),
          n_ignore + length (filter (\<lambda>(key, code). \<not> 0 \<le> key) xs),
          n_add + length (filter (\<lambda>(key, code). 0 \<le> key) xs))
     \<and> {v. \<exists>k vs. nk k = Some vs \<and> v \<in> set vs}
       = {v. \<exists>k vs. new_keys k = Some vs \<and> v \<in> set vs}
         \<union> {vid ..< vid + int (length (filter (\<lambda>(key, code). 0 \<le> key) xs))}"
  using assms
proof (induction xs arbitrary: new_keys new_codes vid n_ignore n_add)
  case Nil
  then show ?case by simp
next
  case (Cons x xs)
  obtain key code where x: "x = (key, code)" by (cases x)
  from Cons.prems have lt: "key < int nl" and rest: "\<forall>(key, code) \<in> set xs. key < int nl"
    by (auto simp: x)
  show ?case
  proof (cases "key < 0")
    case True
    from Cons.IH [OF rest, of new_keys new_codes vid "n_ignore + 1" n_add]
    show ?thesis using True lt by (auto simp: x)
  next
    case False
    from Cons.IH [OF rest, of "push_back_at key [vid] new_keys" "push_back_at key code new_codes" "vid + 1" n_ignore "n_add + 1"]
    obtain nk nc where
      r: "add_loop nl xs (push_back_at key [vid] new_keys, push_back_at key code new_codes, vid + 1, n_ignore, n_add + 1) =
          Inr (nk, nc, vid + 1 + int (length (filter (\<lambda>(key, code). 0 \<le> key) xs)),
          n_ignore + length (filter (\<lambda>(key, code). \<not> 0 \<le> key) xs),
          n_add + 1 + length (filter (\<lambda>(key, code). 0 \<le> key) xs))"
      and v: "{v. \<exists>k vs. nk k = Some vs \<and> v \<in> set vs}
       = {v. \<exists>k vs. push_back_at key [vid] new_keys k = Some vs \<and> v \<in> set vs}
         \<union> {vid + 1 ..< vid + 1 + int (length (filter (\<lambda>(key, code). 0 \<le> key) xs))}"
      by blast
    have "{v. \<exists>k vs. nk k = Some vs \<and> v \<in> set vs}
       = {v. \<exists>k vs. new_keys k = Some vs \<and> v \<in> set vs}
         \<union> {vid ..< vid + 1 + int (length (filter (\<lambda>(key, code). 0 \<le> key) xs))}"
      unfolding v push_back_at_vids by auto
    then show ?thesis using False lt r by (auto simp: x)
  qed
qed

lemma filter_zip_fst_length:
  "length xs = length ys \<Longrightarrow>
   length (filter (\<lambda>(k, c). P k) (zip (map f xs) ys)) = length (filter (\<lambda>v. P (f v)) xs)"
  by (induction xs ys rule: list_induct2) auto

lemma length_compute_residuals:
  "length idx = length x \<Longrightarrow> length (compute_residuals c cb d x idx) = length x"
  by (simp add: compute_residuals_def)

lemma Add_stage1_result:
  assumes "\<forall>v \<in> set vec. assign c (codebooks e) v < int (nlist e)"
  shows "\<exists>new_keys new_codes.
      Add_stage1 c vec e =
        Inr (new_keys, new_codes,
             indexed_vec_count e + int (length (filter (\<lambda>v. 0 \<le> assign c (codebooks e) v) vec)),
             length (filter (\<lambda>v. \<not> 0 \<le> assign c (codebooks e) v) vec),
             length (filter (\<lambda>v. 0 \<le> assign c (codebooks e) v) vec))
      \<and> {v. \<exists>k vs. new_keys k = Some vs \<and> v \<in> set vs}
        = {indexed_vec_count e ..<
            indexed_vec_count e + int (length (filter (\<lambda>v. 0 \<le> assign c (codebooks e) v) vec))}"
proof -
  define to_encode where "to_encode =
     (if by_residual e then compute_residuals c (codebooks e) (idx_d e) vec (map (assign c (codebooks e)) vec) else vec)"
  define ys where "ys = map (compute_codes c (codebooks e)) to_encode"
  have len: "length vec = length ys"
    by (simp add: ys_def to_encode_def length_compute_residuals)
  have bound: "\<forall>(key, code) \<in> set (zip (map (assign c (codebooks e)) vec) ys). key < int (nlist e)"
    using assms by (auto dest!: set_zip_leftD)
  have st: "Add_stage1 c vec e = add_loop (nlist e) (zip (map (assign c (codebooks e)) vec) ys)
               (Map.empty, Map.empty, indexed_vec_count e, 0, 0)"
    by (simp add: Add_stage1_def Let_def ys_def to_encode_def)
  from add_loop_counts [OF bound, of Map.empty Map.empty "indexed_vec_count e" 0 0]
  show ?thesis
    unfolding st filter_zip_fst_length [OF len, of "\<lambda>k. 0 \<le> k"] filter_zip_fst_length [OF len, of "\<lambda>k. \<not> 0 \<le> k"]
    by simp
qed

subsection \<open>The compaction loop\<close>

lemma buckets_before_arrival_0: "buckets_before_arrival raw k indexed 0 = 0"
  by (simp add: buckets_before_arrival_def)

lemma buckets_before_arrival_Suc:
  "buckets_before_arrival raw k indexed (Suc n) =
     (if GetVectorNum raw k \<le> indexed then Suc (buckets_before_arrival raw (Suc k) indexed n) else 0)"
proof -
  have "[0..<Suc n] = 0 # map Suc [0..<n]"
    by (simp add: upt_conv_Cons map_Suc_upt del: upt_Suc)
  then show ?thesis
    by (simp add: buckets_before_arrival_def takeWhile_map comp_def del: upt_Suc)
qed

lemma compact_in_order_Cons:
  "CompactBucket c b ix = (num, ix') \<Longrightarrow>
   compact_in_order c (b # bs) (tot, ix) = compact_in_order c bs (tot + num, ix')"
  by (simp add: compact_in_order_def)

lemma compact_loop_result:
  assumes "nlist e - compact_bucket_no e = n" "compact_bucket_no e \<le> nlist e"
  shows "compact_loop c raw k e =
     (let m = buckets_before_arrival raw k (indexed_vec_count e) n;
          (tot, ix) = compact_in_order c [compact_bucket_no e ..< compact_bucket_no e + m]
                        (compacted_num e, rt_invert_index e)
      in e\<lparr>rt_invert_index := ix, compacted_num := tot,
           compact_bucket_no := compact_bucket_no e + m\<rparr>)"
  using assms
proof (induction n arbitrary: e k)
  case 0
  then have "\<not> compact_bucket_no e < nlist e" by simp
  then show ?case
    by (subst compact_loop.simps) (simp add: buckets_before_arrival_0 compact_in_order_def)
next
  case (Suc n)
  then have lt: "compact_bucket_no e < nlist e" by simp
  show ?case
  proof (cases "GetVectorNum raw k > indexed_vec_count e")
    case True
    then show ?thesis using lt
      by (subst compact_loop.simps) (simp add: buckets_before_arrival_Suc compact_in_order_def)
  next
    case False
    obtain num ix where cb: "CompactBucket c (compact_bucket_no e) (rt_invert_index e) = (num, ix)"
      by (cases "CompactBucket c (compact_bucket_no e) (rt_invert_index e)")
    define e' where "e' = e\<lparr>rt_invert_index := ix, compacted_num := compacted_num e + num,
                    compact_bucket_no := compact_bucket_no e + 1\<rparr>"
    have e': "nlist e' - compact_bucket_no e' = n" "compact_bucket_no e' \<le> nlist e'"
      using Suc.prems by (simp_all add: e'_def)
    have step: "compact_loop c raw k e = compact_loop c raw (k + 1) e'"
      using lt False cb by (subst compact_loop.simps) (simp add: e'_def)
    have m: "buckets_before_arrival raw k (indexed_vec_count e) (Suc n)
             = Suc (buckets_before_arrival raw (Suc k) (indexed_vec_count e) n)"
      using False by (simp add: buckets_before_arrival_Suc)
    have up: "[compact_bucket_no e ..< compact_bucket_no e + Suc m'] =
              compact_bucket_no e # [compact_bucket_no e + 1 ..< compact_bucket_no e + 1 + m']" for m'
      by (simp add: upt_conv_Cons del: upt_Suc)
    have cio: "compact_in_order c [compact_bucket_no e ..< compact_bucket_no e + Suc m']
                 (compacted_num e, rt_invert_index e)
               = compact_in_order c [Suc (compact_bucket_no e) ..< Suc (compact_bucket_no e + m')]
                   (compacted_num e + num, ix)" for m'
      unfolding up compact_in_order_Cons [OF cb] by simp
    show ?thesis
      unfolding step Suc.IH [OF e'] Let_def m cio
      by (simp add: e'_def split: prod.splits del: upt_Suc)
  qed
qed

subsection \<open>Training\<close>

text \<open>
  Claim C4. \<open>Indexing()\<close> returns an error exactly when the index is not trained and the raw
  store reports fewer than 8192 vectors. When it trains, the training set is made of the
  \<open>min(vector count, 100000)\<close> leading vectors of the store (vids \<open>0\<close> up to that number,
  zero-padded when the index dimension exceeds the raw one) and of nothing else; when the
  index is already trained it returns \<open>0\<close> and leaves the engine as it is.
\<close>

theorem Indexing_error_iff:
  "(fst (Indexing c raw e) \<noteq> 0 \<longleftrightarrow> \<not> is_trained e \<and> GetVectorNum raw 0 < 8192)
   \<and> (\<not> is_trained e \<and> 8192 \<le> GetVectorNum raw 0 \<longrightarrow>
        Indexing c raw e =
          (0, e\<lparr>is_trained := True,
                codebooks := train c
                  ((if idx_d e > GetDimension raw then ConvertVectorDim (GetDimension raw) (idx_d e) else id)
                     (map (vectors raw) [0..min (GetVectorNum raw 0) 100000 - 1]))
                  (codebooks e)\<rparr>))
   \<and> (is_trained e \<longrightarrow> Indexing c raw e = (0, e))"
  by (auto simp: Indexing_def Let_def GetVectorHeader_def min_def)

theorem Indexing_error_iff_witness:
  "Indexing example_collab (example_raw\<lparr>GetVectorNum := (\<lambda>k. 8192)\<rparr>) (example_engine\<lparr>is_trained := False\<rparr>)
     = (0, example_engine)
   \<and> Indexing example_collab (example_raw\<lparr>GetVectorNum := (\<lambda>k. 8191)\<rparr>) (example_engine\<lparr>is_trained := False\<rparr>)
     = (- 1, example_engine\<lparr>is_trained := False\<rparr>)
   \<and> Indexing example_collab (example_raw\<lparr>GetVectorNum := (\<lambda>k. 8191)\<rparr>) example_engine
     = (0, example_engine)"
proof -
  have a: "fst (Indexing example_collab (example_raw\<lparr>GetVectorNum := (\<lambda>k. 8191)\<rparr>) (example_engine\<lparr>is_trained := False\<rparr>)) \<noteq> 0"
    using Indexing_error_iff [of example_collab "example_raw\<lparr>GetVectorNum := (\<lambda>k. 8191)\<rparr>" "example_engine\<lparr>is_trained := False\<rparr>"]
    by simp
  have b: "Indexing example_collab (example_raw\<lparr>GetVectorNum := (\<lambda>k. 8192)\<rparr>) (example_engine\<lparr>is_trained := False\<rparr>)
     = (0, example_engine)"
    using Indexing_error_iff [of example_collab "example_raw\<lparr>GetVectorNum := (\<lambda>k. 8192)\<rparr>" "example_engine\<lparr>is_trained := False\<rparr>"]
    by (simp add: example_collab_def example_engine_def)
  have c: "Indexing example_collab (example_raw\<lparr>GetVectorNum := (\<lambda>k. 8191)\<rparr>) example_engine
     = (0, example_engine)"
    using Indexing_error_iff [of example_collab "example_raw\<lparr>GetVectorNum := (\<lambda>k. 8191)\<rparr>" example_engine]
    by (simp add: example_engine_def)
  from a have "Indexing example_collab (example_raw\<lparr>GetVectorNum := (\<lambda>k. 8191)\<rparr>) (example_engine\<lparr>is_trained := False\<rparr>)
     = (- 1, example_engine\<lparr>is_trained := False\<rparr>)"
    by (simp add: Indexing_def Let_def split: if_splits)
  with b c show ?thesis by simp
qed

subsection \<open>Ingestion\<close>

text \<open>
  Claim C7. \<open>Add(n, X)\<close> and the counter \<open>indexed_vec_count_\<close>. When every coarse assignment is
  below \<open>nlist\<close> (the assertion of the source), \<open>Add\<close> returns; the batch it hands to \<open>AddKeys\<close>
  carries \<open>n_add\<close> vids, the consecutive ones from \<open>indexed_vec_count_\<close> on, where \<open>n_add\<close> is the
  number of inputs with a non-negative assignment (the others are counted in \<open>n_ignore\<close> and
  get no vid). \<open>Add\<close> returns what \<open>AddKeys\<close> returns: on rejection the counter is unchanged,
  on success it has advanced by exactly \<open>n_add\<close>.
\<close>

theorem Add_counter_atomic:
  assumes "\<forall>v \<in> set vec. assign c (codebooks e) v < int (nlist e)"
  shows "\<exists>new_keys new_codes n_ignore n_add.
      Add_stage1 c vec e = Inr (new_keys, new_codes, indexed_vec_count e + int n_add, n_ignore, n_add)
    \<and> n_add = length (filter (\<lambda>v. 0 \<le> assign c (codebooks e) v) vec)
    \<and> n_ignore = length (filter (\<lambda>v. assign c (codebooks e) v < 0) vec)
    \<and> {v. \<exists>k vs. new_keys k = Some vs \<and> v \<in> set vs}
        = {indexed_vec_count e ..< indexed_vec_count e + int n_add}
    \<and> Add c vec e =
        (case AddKeys c new_keys new_codes (rt_invert_index e) of
           (ok, ix) \<Rightarrow>
             Inr (ok, e\<lparr>rt_invert_index := ix,
                        indexed_vec_count := (if ok then indexed_vec_count e + int n_add
                                              else indexed_vec_count e)\<rparr>))"
proof -
  from Add_stage1_result [OF assms] obtain new_keys new_codes where
    s1: "Add_stage1 c vec e =
        Inr (new_keys, new_codes,
             indexed_vec_count e + int (length (filter (\<lambda>v. 0 \<le> assign c (codebooks e) v) vec)),
             length (filter (\<lambda>v. \<not> 0 \<le> assign c (codebooks e) v) vec),
             length (filter (\<lambda>v. 0 \<le> assign c (codebooks e) v) vec))"
    and vids: "{v. \<exists>k vs. new_keys k = Some vs \<and> v \<in> set vs}
        = {indexed_vec_count e ..<
            indexed_vec_count e + int (length (filter (\<lambda>v. 0 \<le> assign c (codebooks e) v) vec))}"
    by blast
  have neg: "(\<lambda>v. \<not> 0 \<le> assign c (codebooks e) v) = (\<lambda>v. assign c (codebooks e) v < 0)"
    by (auto simp: fun_eq_iff)
  have add: "Add c vec e =
        (case AddKeys c new_keys new_codes (rt_invert_index e) of
           (ok, ix) \<Rightarrow>
             Inr (ok, e\<lparr>rt_invert_index := ix,
                        indexed_vec_count := (if ok then indexed_vec_count e + int (length (filter (\<lambda>v. 0 \<le> assign c (codebooks e) v) vec))
                                              else indexed_vec_count e)\<rparr>))"
    by (cases "AddKeys c new_keys new_codes (rt_invert_index e)") (simp add: Add_def s1)
  show ?thesis
    using s1 vids add unfolding neg by blast
qed

theorem Add_counter_atomic_witness:
  "Add example_collab [[1], [], [- 1]] example_engine
     = Inr (True, example_engine\<lparr>rt_invert_index := [Added [6, 5]], indexed_vec_count := 7\<rparr>)
   \<and> Add example_collab [[1], [], [- 1]] (example_engine\<lparr>rt_invert_index := [Compacted 0, Compacted 1]\<rparr>)
     = Inr (False, example_engine\<lparr>rt_invert_index := [Compacted 0, Compacted 1]\<rparr>)"
proof -
  have s: "Add_stage1 example_collab [[1], [], [- 1]] (example_engine\<lparr>rt_invert_index := r\<rparr>)
        = Inr ([1 \<mapsto> [5], 0 \<mapsto> [6]], [1 \<mapsto> [], 0 \<mapsto> []], 7, 1, 2)" for r
    by (simp add: Add_stage1_def example_collab_def example_engine_def push_back_at_def)
  have 1: "Add example_collab [[1], [], [- 1]] (example_engine\<lparr>rt_invert_index := []\<rparr>)
     = Inr (True, example_engine\<lparr>rt_invert_index := [Added [6, 5]], indexed_vec_count := 7\<rparr>)"
    using Add_counter_atomic [where vec = "[[1], [], [- 1]]" and c = example_collab
        and e = "example_engine\<lparr>rt_invert_index := []\<rparr>"]
    by (auto simp: s) (simp add: example_collab_def example_engine_def)
  have 2: "Add example_collab [[1], [], [- 1]] (example_engine\<lparr>rt_invert_index := [Compacted 0, Compacted 1]\<rparr>)
     = Inr (False, example_engine\<lparr>rt_invert_index := [Compacted 0, Compacted 1]\<rparr>)"
    using Add_counter_atomic [where vec = "[[1], [], [- 1]]" and c = example_collab
        and e = "example_engine\<lparr>rt_invert_index := [Compacted 0, Compacted 1]\<rparr>"]
    by (auto simp: s) (simp add: example_collab_def example_engine_def)
  have "example_engine\<lparr>rt_invert_index := []\<rparr> = example_engine"
    by (simp add: example_engine_def)
  with 1 2 show ?thesis by simp
qed

text \<open>
  Claim C5, as the code has it. When \<open>indexed_vec_count_\<close> exceeds the vector count of the raw
  store at the start of a tick, \<open>AddRTVecsToIndex\<close> returns \<open>-1\<close> and does no ingestion and no
  compaction: \<open>indexed_vec_count_\<close>, \<open>compaction_\<close>, \<open>compact_bucket_no_\<close> and \<open>compacted_num_\<close>
  are unchanged. The update drain still runs: up to 20000 updated vids leave the queue and
  are re-encoded into the inverted index, and \<open>updated_num_\<close> advances by their number.
\<close>

theorem AddRTVecsToIndex_count_exceeds_store:
  assumes "indexed_vec_count e > GetVectorNum raw 0"
  shows "AddRTVecsToIndex c raw e =
           Inr (- 1, raw\<lparr>updated_vids := drop 20000 (updated_vids raw)\<rparr>,
                e\<lparr>rt_invert_index := fold (update_one c raw e) (take 20000 (updated_vids raw))
                                        (rt_invert_index e),
                  updated_num := updated_num e + int (length (take 20000 (updated_vids raw)))\<rparr>)"
  using assms by (simp add: AddRTVecsToIndex_def AddUpdatedVecToIndex_def Let_def)

theorem AddRTVecsToIndex_count_exceeds_store_witness:
  "GetVectorNum example_raw 0 < indexed_vec_count (example_engine\<lparr>indexed_vec_count := 6\<rparr>)
   \<and> AddRTVecsToIndex example_collab example_raw (example_engine\<lparr>indexed_vec_count := 6\<rparr>)
     = Inr (- 1, example_raw\<lparr>updated_vids := []\<rparr>,
            example_engine\<lparr>indexed_vec_count := 6, rt_invert_index := [Updated 1 3], updated_num := 1\<rparr>)"
  using AddRTVecsToIndex_count_exceeds_store [of example_raw "example_engine\<lparr>indexed_vec_count := 6\<rparr>" example_collab]
  by (simp add: example_raw_def example_engine_def example_collab_def update_one_def)

text \<open>
  The tick is not aborted before the update drain: with one vid in the queue of updated
  vids, the call returns \<open>-1\<close> and yet the queue is drained, the inverted index has received an
  \<open>Update\<close> and \<open>updated_num_\<close> has moved.
\<close>

theorem AddRTVecsToIndex_abort_counterexample:
  "GetVectorNum example_raw 0 < indexed_vec_count (example_engine\<lparr>indexed_vec_count := 6\<rparr>)
   \<and> AddRTVecsToIndex example_collab example_raw (example_engine\<lparr>indexed_vec_count := 6\<rparr>)
     = Inr (- 1, example_raw\<lparr>updated_vids := []\<rparr>,
            example_engine\<lparr>indexed_vec_count := 6, rt_invert_index := [Updated 1 3], updated_num := 1\<rparr>)
   \<and> updated_vids example_raw \<noteq> []
   \<and> example_engine\<lparr>indexed_vec_count := 6, rt_invert_index := [Updated 1 3], updated_num := 1\<rparr>
       \<noteq> example_engine\<lparr>indexed_vec_count := 6\<rparr>"
  by (simp add: AddRTVecsToIndex_def AddUpdatedVecToIndex_def Let_def
      example_raw_def example_engine_def example_collab_def update_one_def)

subsection \<open>Compaction\<close>

text \<open>
  Claim C6. In a compaction tick (the engine is in compaction, or the inverted index has
  become compactable), with \<open>b0 = compact_bucket_no_\<close>: the buckets \<open>b0, b0 + 1, ...,
  b0 + m - 1\<close> are compacted, in this order, one after the other, where \<open>m\<close> counts the
  loop iterations before the first one at which the raw store reports more vectors than
  \<open>indexed_vec_count_\<close> (so no bucket is compacted once new vectors have arrived: the
  store's count was not above \<open>indexed_vec_count_\<close> before each compacted bucket, and it
  was above it at the iteration where the loop stopped short of \<open>nlist\<close>). When the cursor reaches
  \<open>nlist\<close> the tick sets \<open>compaction_\<close> to false and \<open>compact_bucket_no_\<close> to \<open>0\<close>; otherwise
  the cursor stays at \<open>b0 + m\<close> and the engine stays in compaction. This is the branch
  \<open>indexed_vec_count_ == total_stored_vecs\<close> of \<open>AddRTVecsToIndex\<close>, which the update drain
  follows.
\<close>

theorem compaction_tick_in_order:
  assumes "compaction e \<or> Compactable c (delete_num e) (rt_invert_index e)"
  shows "(let b0 = compact_bucket_no e;
              m = buckets_before_arrival raw 1 (indexed_vec_count e) (nlist e - b0);
              (tot, ix) = compact_in_order c [b0 ..< b0 + m] (compacted_num e, rt_invert_index e)
          in compaction_tick c raw e =
               e\<lparr>rt_invert_index := ix, compacted_num := tot,
                  compaction := (b0 + m \<noteq> nlist e),
                  compact_bucket_no := (if b0 + m = nlist e then 0 else b0 + m)\<rparr>
             \<and> (\<forall>j < m. GetVectorNum raw (Suc j) \<le> indexed_vec_count e)
             \<and> (b0 + m < nlist e \<longrightarrow> GetVectorNum raw (Suc m) > indexed_vec_count e))
         \<and> (indexed_vec_count e = GetVectorNum raw 0 \<longrightarrow>
              AddRTVecsToIndex c raw e =
                (case AddUpdatedVecToIndex c raw (compaction_tick c raw e) of
                   (r, raw', e2) \<Rightarrow> Inr (0, raw', e2)))"
proof -
  define b0 where "b0 = compact_bucket_no e"
  define m where "m = buckets_before_arrival raw 1 (indexed_vec_count e) (nlist e - b0)"
  define P where "P = (\<lambda>j. GetVectorNum raw (1 + j) \<le> indexed_vec_count e)"
  have m_tw: "m = length (takeWhile P [0..<nlist e - b0])"
    by (simp add: m_def buckets_before_arrival_def P_def)
  obtain tot ix where cio: "compact_in_order c [b0 ..< b0 + m] (compacted_num e, rt_invert_index e) = (tot, ix)"
    by (cases "compact_in_order c [b0 ..< b0 + m] (compacted_num e, rt_invert_index e)")
  define e1 where "e1 = e\<lparr>compaction := True\<rparr>"
  have loop: "compact_loop c raw 1 e1 =
      e1\<lparr>rt_invert_index := ix, compacted_num := tot, compact_bucket_no := b0 + m\<rparr>"
  proof (cases "b0 \<le> nlist e")
    case True
    then show ?thesis
      using compact_loop_result [of e1 "nlist e - b0" c raw 1] cio
      by (simp add: e1_def b0_def m_def)
  next
    case False
    then have "m = 0" by (simp add: m_tw)
    moreover have "compact_loop c raw 1 e1 = e1"
      using False by (subst compact_loop.simps) (simp add: e1_def b0_def)
    ultimately show ?thesis using cio by (simp add: compact_in_order_def e1_def b0_def)
  qed
  have tick: "compaction_tick c raw e =
               e\<lparr>rt_invert_index := ix, compacted_num := tot,
                  compaction := (b0 + m \<noteq> nlist e),
                  compact_bucket_no := (if b0 + m = nlist e then 0 else b0 + m)\<rparr>"
  proof (cases "compaction e")
    case True
    then have "e1 = e" by (simp add: e1_def)
    with loop True show ?thesis
      by (simp add: compaction_tick_def Let_def)
  next
    case False
    with assms loop show ?thesis
      by (simp add: compaction_tick_def Let_def e1_def)
  qed
  have le_m: "\<forall>j < m. GetVectorNum raw (Suc j) \<le> indexed_vec_count e"
  proof (intro allI impI)
    fix j assume j: "j < m"
    then have "takeWhile P [0..<nlist e - b0] ! j \<in> set (takeWhile P [0..<nlist e - b0])"
      by (simp add: m_tw)
    then have "P (takeWhile P [0..<nlist e - b0] ! j)"
      by (rule set_takeWhileD [THEN conjunct2])
    moreover have "takeWhile P [0..<nlist e - b0] ! j = [0..<nlist e - b0] ! j"
      using j by (simp add: m_tw takeWhile_nth)
    moreover have "j < nlist e - b0"
      using j length_takeWhile_le [of P "[0..<nlist e - b0]"] by (simp add: m_tw)
    ultimately show "GetVectorNum raw (Suc j) \<le> indexed_vec_count e"
      by (simp add: P_def)
  qed
  have stop: "b0 + m < nlist e \<longrightarrow> GetVectorNum raw (Suc m) > indexed_vec_count e"
  proof
    assume "b0 + m < nlist e"
    then have "m < length [0..<nlist e - b0]" by simp
    then have "\<not> P ([0..<nlist e - b0] ! m)"
      unfolding m_tw by (rule nth_length_takeWhile)
    moreover have "[0..<nlist e - b0] ! m = m"
      using \<open>b0 + m < nlist e\<close> by simp
    ultimately show "GetVectorNum raw (Suc m) > indexed_vec_count e"
      by (simp add: P_def)
  qed
  have tickbranch: "indexed_vec_count e = GetVectorNum raw 0 \<longrightarrow>
              AddRTVecsToIndex c raw e =
                (case AddUpdatedVecToIndex c raw (compaction_tick c raw e) of
                   (r, raw', e2) \<Rightarrow> Inr (0, raw', e2))"
    by (auto simp: AddRTVecsToIndex_def AddUpdatedVecToIndex_def Let_def)
  show ?thesis
    using tick le_m stop tickbranch cio
    unfolding Let_def b0_def [symmetric] m_def [symmetric] by simp
qed

lemma example_buckets_before_arrival:
  "buckets_before_arrival example_raw (Suc 0) 5 2 = 1"
  "buckets_before_arrival (example_raw\<lparr>GetVectorNum := (\<lambda>k. 5)\<rparr>) (Suc 0) 5 2 = 2"
  by (simp_all add: buckets_before_arrival_def example_raw_def upt_conv_Cons)

theorem compaction_tick_in_order_witness:
  "Compactable example_collab (delete_num example_engine) (rt_invert_index example_engine)
   \<and> compaction_tick example_collab example_raw example_engine
     = example_engine\<lparr>rt_invert_index := [Compacted 1], compacted_num := 1,
                      compaction := True, compact_bucket_no := 2\<rparr>
   \<and> compaction_tick example_collab (example_raw\<lparr>GetVectorNum := (\<lambda>k. 5)\<rparr>) example_engine
     = example_engine\<lparr>rt_invert_index := [Compacted 1, Compacted 2], compacted_num := 2,
                      compaction := False, compact_bucket_no := 0\<rparr>"
proof -
  have c: "Compactable example_collab (delete_num example_engine) (rt_invert_index example_engine)"
    by (simp add: example_collab_def example_engine_def)
  have f: "nlist example_engine - compact_bucket_no example_engine = 2"
    "indexed_vec_count example_engine = 5" "compact_bucket_no example_engine = 1"
    "compacted_num example_engine = 0" "rt_invert_index example_engine = []"
    "nlist example_engine = 3"
    by (simp_all add: example_engine_def)
  have cb: "CompactBucket example_collab = (\<lambda>b ix. (1, ix @ [Compacted b]))"
    by (simp add: example_collab_def)
  have 1: "compaction_tick example_collab example_raw example_engine
     = example_engine\<lparr>rt_invert_index := [Compacted 1], compacted_num := 1,
                      compaction := True, compact_bucket_no := 2\<rparr>"
    using compaction_tick_in_order [of example_engine example_collab example_raw] c
    by (simp add: f example_buckets_before_arrival compact_in_order_def cb upt_conv_Cons Let_def)
  have 2: "compaction_tick example_collab (example_raw\<lparr>GetVectorNum := (\<lambda>k. 5)\<rparr>) example_engine
     = example_engine\<lparr>rt_invert_index := [Compacted 1, Compacted 2], compacted_num := 2,
                      compaction := False, compact_bucket_no := 0\<rparr>"
    using compaction_tick_in_order [of example_engine example_collab "example_raw\<lparr>GetVectorNum := (\<lambda>k. 5)\<rparr>"] c
    by (simp add: f example_buckets_before_arrival compact_in_order_def cb upt_conv_Cons Let_def)
  from c 1 2 show ?thesis by simp
qed

section \<open>Properties of the result heaps\<close>

subsection \<open>The loops of \<open>heap_pop\<close> and \<open>heap_push\<close>\<close>


lemma heap_pop_loop_stop:
  "2 * i > k \<or> i = 0 \<Longrightarrow> heap_pop_loop m k val bh i = (bh, i)"
  by (subst heap_pop_loop.simps) (simp add: Let_def)

lemma heap_pop_loop_step:
  assumes "\<not> (2 * i > k \<or> i = 0)"
  shows "heap_pop_loop m k val bh i =
     (if cmp m val (fst (bh ! (pop_child m k bh i - 1))) then (bh, i)
      else heap_pop_loop m k val (bh[i - 1 := bh ! (pop_child m k bh i - 1)]) (pop_child m k bh i))"
  using assms by (subst heap_pop_loop.simps) (simp add: Let_def pop_child_def)

lemma pop_child_range:
  assumes "\<not> (2 * i > k \<or> i = 0)"
  shows "(pop_child m k bh i = 2 * i \<or> pop_child m k bh i = 2 * i + 1) \<and> pop_child m k bh i \<le> k"
  using assms by (auto simp: pop_child_def)

lemma heap_pop_loop_rule:
  assumes "I bh i"
    and "\<And>bh i. I bh i \<Longrightarrow> 0 < i \<Longrightarrow> 2 * i \<le> k
           \<Longrightarrow> \<not> cmp m val (fst (bh ! (pop_child m k bh i - 1)))
           \<Longrightarrow> I (bh[i - 1 := bh ! (pop_child m k bh i - 1)]) (pop_child m k bh i)"
  shows "case heap_pop_loop m k val bh i of (bh', i') \<Rightarrow>
           I bh' i' \<and> (2 * i' > k \<or> i' = 0 \<or> cmp m val (fst (bh' ! (pop_child m k bh' i' - 1))))"
  using assms(1)
proof (induction "Suc k - i" arbitrary: bh i rule: less_induct)
  case less
  show ?case
  proof (cases "2 * i > k \<or> i = 0")
    case True
    then show ?thesis using less.prems by (auto simp: heap_pop_loop_stop)
  next
    case False
    note step = heap_pop_loop_step [OF False, of m val bh]
    show ?thesis
    proof (cases "cmp m val (fst (bh ! (pop_child m k bh i - 1)))")
      case True
      then show ?thesis using less.prems by (simp add: step)
    next
      case c: False
      have I': "I (bh[i - 1 := bh ! (pop_child m k bh i - 1)]) (pop_child m k bh i)"
        using assms(2) [OF less.prems _ _ c] False by simp
      have "Suc k - pop_child m k bh i < Suc k - i"
        using pop_child_range [OF False, of m bh] False by auto
      from less.hyps [OF this I'] show ?thesis using c by (simp add: step)
    qed
  qed
qed

lemma heap_push_loop_rule:
  assumes "I bh i"
    and "\<And>bh i. I bh i \<Longrightarrow> 1 < i \<Longrightarrow> cmp m val (fst (bh ! (i div 2 - 1)))
           \<Longrightarrow> I (bh[i - 1 := bh ! (i div 2 - 1)]) (i div 2)"
  shows "case heap_push_loop m val bh i of (bh', i') \<Rightarrow>
           I bh' i' \<and> (i' \<le> 1 \<or> \<not> cmp m val (fst (bh' ! (i' div 2 - 1))))"
  using assms(1)
proof (induction i arbitrary: bh rule: less_induct)
  case (less i)
  show ?case
  proof (cases "i > 1 \<and> cmp m val (fst (bh ! (i div 2 - 1)))")
    case True
    have I': "I (bh[i - 1 := bh ! (i div 2 - 1)]) (i div 2)"
      using assms(2) [OF less.prems] True by simp
    have "i div 2 < i" using True by simp
    from less.IH [OF this I'] show ?thesis using True
      by (subst heap_push_loop.simps) (simp add: Let_def)
  next
    case False
    then show ?thesis using less.prems
      by (subst heap_push_loop.simps) (auto simp: Let_def)
  qed
qed

text \<open>What \<open>heap_pop\<close> and \<open>heap_push\<close> do to the entries of the array, as a multiset:
  \<open>heap_pop\<close> on \<open>k\<close> slots removes the root and leaves a heap of \<open>k - 1\<close> slots, \<open>heap_push\<close>
  fills the \<open>k\<close>-th slot again.\<close>

lemma mset_take_update:
  assumes "j < k" "k \<le> length bh"
  shows "mset (take k (bh[j := v])) = add_mset v (mset (take k bh) - {#bh ! j#})"
proof -
  have "take k (bh[j := v]) = (take k bh)[j := v]"
    using assms by (simp add: take_update_swap)
  then show ?thesis using assms by (simp add: mset_update)
qed

lemma heap_pop_mset:
  assumes "0 < k" "k \<le> length bh"
  shows "length (heap_pop m k bh) = length bh
       \<and> mset (take (k - 1) (heap_pop m k bh)) = mset (take k bh) - {#bh ! 0#}
       \<and> drop (k - 1) (heap_pop m k bh) = drop (k - 1) bh"
proof -
  define M where "M = mset (take k bh) - {#bh ! 0#}"
  define I where "I = (\<lambda>b i. length b = length bh \<and> 0 < i \<and> i \<le> k
      \<and> drop (k - 1) b = drop (k - 1) bh
      \<and> mset (take k b) - {#b ! (i - 1)#} = M)"
  have I0: "I bh 1" using assms by (simp add: I_def M_def)
  have Istep: "I (b[i - 1 := b ! (pop_child m k b i - 1)]) (pop_child m k b i)"
    if "I b i" "0 < i" "2 * i \<le> k" for b i
  proof -
    define c where "c = pop_child m k b i"
    have c: "c \<le> k" "i < c" "0 < c"
      using pop_child_range [where i = i and k = k and m = m and bh = b] that by (auto simp: c_def)
    have len: "length b = length bh" using that by (simp add: I_def)
    have ci: "c - 1 < k" "i - 1 < k" "i - 1 \<noteq> c - 1" "c - 1 < length b" "i - 1 < length b"
      using c that assms len by auto
    have inb: "b ! (c - 1) \<in># mset (take k b)"
      using ci by (metis in_set_conv_nth length_take min.absorb2 nth_take set_mset_mset len assms(2) less_or_eq_imp_le)
    have ini: "b ! (i - 1) \<in># mset (take k b)"
      using ci by (metis in_set_conv_nth length_take min.absorb2 nth_take set_mset_mset len assms(2) less_or_eq_imp_le)
    have "mset (take k (b[i - 1 := b ! (c - 1)])) - {#b[i - 1 := b ! (c - 1)] ! (c - 1)#}
          = add_mset (b ! (c - 1)) (mset (take k b) - {#b ! (i - 1)#}) - {#b ! (c - 1)#}"
      using ci len assms by (simp add: mset_take_update)
    also have "\<dots> = mset (take k b) - {#b ! (i - 1)#}" by simp
    finally have ms: "mset (take k (b[i - 1 := b ! (c - 1)])) - {#b[i - 1 := b ! (c - 1)] ! (c - 1)#} = M"
      using that by (simp add: I_def)
    have dr: "drop (k - 1) (b[i - 1 := b ! (c - 1)]) = drop (k - 1) bh"
      using that c by (simp add: I_def)
    show ?thesis
      unfolding c_def [symmetric] using ms dr c len by (simp add: I_def)
  qed
  obtain b' i' where r: "heap_pop_loop m k (fst (bh ! (k - 1))) bh 1 = (b', i')"
    by (cases "heap_pop_loop m k (fst (bh ! (k - 1))) bh 1")
  have "case heap_pop_loop m k (fst (bh ! (k - 1))) bh 1 of (bh', i') \<Rightarrow>
           I bh' i' \<and> (2 * i' > k \<or> i' = 0 \<or> cmp m (fst (bh ! (k - 1))) (fst (bh' ! (pop_child m k bh' i' - 1))))"
    by (rule heap_pop_loop_rule [where I = I, OF I0]) (rule Istep)
  then have I': "I b' i'" unfolding r by simp
  then have len: "length b' = length bh" and i': "0 < i'" "i' \<le> k"
    and dr: "drop (k - 1) b' = drop (k - 1) bh"
    and ms: "mset (take k b') - {#b' ! (i' - 1)#} = M"
    by (simp_all add: I_def)
  have hp: "heap_pop m k bh = b'[i' - 1 := b' ! (k - 1)]"
    unfolding heap_pop_def Let_def r by simp
  have kth: "b' ! (k - 1) = bh ! (k - 1)"
    using dr assms len by (metis Cons_nth_drop_Suc diff_less less_le_trans list.inject zero_less_one)
  have msk: "mset (take k (b'[i' - 1 := b' ! (k - 1)])) = add_mset (b' ! (k - 1)) M"
    using i' len assms ms by (simp add: mset_take_update)
  have tk: "take k xs = take (k - 1) xs @ [xs ! (k - 1)]" if "k \<le> length xs" for xs :: heap
    using that assms(1) by (metis Suc_diff_1 Suc_le_lessD take_Suc_conv_app_nth)
  have last: "(b'[i' - 1 := b' ! (k - 1)]) ! (k - 1) = b' ! (k - 1)"
    using i' len assms by (cases "i' = k") auto
  have "mset (take (k - 1) (b'[i' - 1 := b' ! (k - 1)])) = M"
    using msk tk [of "b'[i' - 1 := b' ! (k - 1)]"] len assms last by simp
  moreover have "drop (k - 1) (b'[i' - 1 := b' ! (k - 1)]) = drop (k - 1) bh"
  proof (cases "i' = k")
    case True
    then show ?thesis using dr by (simp add: list_update_same_conv len assms)
  next
    case False
    then show ?thesis using dr i' by simp
  qed
  ultimately show ?thesis using len by (simp add: hp M_def)
qed

lemma heap_push_mset:
  assumes "0 < k" "k \<le> length bh"
  shows "length (heap_push m k bh val ids) = length bh
       \<and> mset (take k (heap_push m k bh val ids)) = add_mset (val, ids) (mset (take (k - 1) bh))
       \<and> drop k (heap_push m k bh val ids) = drop k bh"
proof -
  have tk: "take k bh = take (k - 1) bh @ [bh ! (k - 1)]"
    using assms by (metis Suc_diff_1 Suc_le_lessD take_Suc_conv_app_nth)
  define I where "I = (\<lambda>b i. length b = length bh \<and> 0 < i \<and> i \<le> k
      \<and> drop k b = drop k bh
      \<and> mset (take k b) - {#b ! (i - 1)#} = mset (take (k - 1) bh))"
  have I0: "I bh k" using assms tk by (simp add: I_def)
  have Istep: "I (b[i - 1 := b ! (i div 2 - 1)]) (i div 2)" if "I b i" "1 < i" for b i
  proof -
    have len: "length b = length bh" and ik: "i \<le> k"
      and ms: "mset (take k b) - {#b ! (i - 1)#} = mset (take (k - 1) bh)"
      and dr: "drop k b = drop k bh"
      using that by (simp_all add: I_def)
    have f: "0 < i div 2" "i div 2 < i" "i div 2 - 1 \<noteq> i - 1" "i - 1 < k" "i div 2 - 1 < k"
      using that ik by auto
    have "mset (take k (b[i - 1 := b ! (i div 2 - 1)])) - {#b[i - 1 := b ! (i div 2 - 1)] ! (i div 2 - 1)#}
          = add_mset (b ! (i div 2 - 1)) (mset (take k b) - {#b ! (i - 1)#}) - {#b ! (i div 2 - 1)#}"
      using f len assms by (simp add: mset_take_update)
    also have "\<dots> = mset (take (k - 1) bh)" using ms by simp
    finally show ?thesis using f len ik dr by (simp add: I_def)
  qed
  obtain b' i' where r: "heap_push_loop m val bh k = (b', i')"
    by (cases "heap_push_loop m val bh k")
  have "case heap_push_loop m val bh k of (bh', i') \<Rightarrow>
           I bh' i' \<and> (i' \<le> 1 \<or> \<not> cmp m val (fst (bh' ! (i' div 2 - 1))))"
    by (rule heap_push_loop_rule [where I = I, OF I0]) (rule Istep)
  then have "I b' i'" unfolding r by simp
  then have len: "length b' = length bh" and i': "0 < i'" "i' \<le> k"
    and dr: "drop k b' = drop k bh"
    and ms: "mset (take k b') - {#b' ! (i' - 1)#} = mset (take (k - 1) bh)"
    by (simp_all add: I_def)
  have hp: "heap_push m k bh val ids = b'[i' - 1 := (val, ids)]"
    unfolding heap_push_def r by simp
  show ?thesis
    unfolding hp using len i' dr ms assms by (simp add: mset_take_update)
qed

lemma heap_replace_top_Inr:
  "0 < k \<Longrightarrow> \<exists>h. heap_replace_top m k simi dis ids = Inr h"
  by (simp add: heap_replace_top_def)

lemma heap_replace_top_mset:
  assumes "heap_replace_top m k simi dis ids = Inr h" "length simi = k"
  shows "length h = k \<and>
         (if cmp m (fst (simi ! 0)) dis
          then mset h = add_mset (dis, ids) (mset simi - {#simi ! 0#})
          else h = simi)"
proof -
  from assms have k: "0 < k" by (auto simp: heap_replace_top_def split: if_splits)
  show ?thesis
  proof (cases "cmp m (fst (simi ! 0)) dis")
    case True
    then have h: "h = heap_push m k (heap_pop m k simi) dis ids"
      using assms k by (simp add: heap_replace_top_def)
    have p: "length (heap_pop m k simi) = k"
      "mset (take (k - 1) (heap_pop m k simi)) = mset simi - {#simi ! 0#}"
      using heap_pop_mset [of k simi m] k assms(2) by simp_all
    have kl: "k \<le> length (heap_pop m k simi)" using p by simp
    note q = heap_push_mset [OF k kl, of m dis ids, folded h]
    from q p have lh: "length h = k" by simp
    then have "take k h = h" by simp
    with q p have "mset h = add_mset (dis, ids) (mset simi - {#simi ! 0#})" by simp
    with lh show ?thesis using True by simp
  next
    case False
    then show ?thesis using assms k by (simp add: heap_replace_top_def)
  qed
qed

lemma heap_replace_top_set:
  assumes "heap_replace_top m k simi dis ids = Inr h" "length simi = k"
  shows "length h = k \<and> set h \<subseteq> insert (dis, ids) (set simi)"
proof -
  note r = heap_replace_top_mset [OF assms]
  show ?thesis
  proof (cases "cmp m (fst (simi ! 0)) dis")
    case True
    with r have "mset h = add_mset (dis, ids) (mset simi - {#simi ! 0#})" by simp
    then have "set_mset (mset h) = insert (dis, ids) (set_mset (mset simi - {#simi ! 0#}))"
      by simp
    moreover have "set_mset (mset simi - {#simi ! 0#}) \<subseteq> set simi"
      by (metis in_diffD set_mset_mset subsetI)
    ultimately show ?thesis using r by auto
  next
    case False
    with r show ?thesis by auto
  qed
qed

lemma heap_pop_set:
  assumes "0 < k" "k \<le> length bh"
  shows "length (heap_pop m k bh) = length bh \<and> set (heap_pop m k bh) \<subseteq> set bh"
proof -
  note p = heap_pop_mset [OF assms, of m]
  have "set (heap_pop m k bh) = set (take (k - 1) (heap_pop m k bh)) \<union> set (drop (k - 1) (heap_pop m k bh))"
    by (metis append_take_drop_id set_append)
  also have "set (take (k - 1) (heap_pop m k bh)) \<subseteq> set (take k bh)"
    using p by (metis in_diffD set_mset_mset subsetI)
  finally have "set (heap_pop m k bh) \<subseteq> set (take k bh) \<union> set (drop (k - 1) bh)"
    using p by auto
  then show ?thesis using p by (auto dest: in_set_takeD in_set_dropD)
qed

lemma heap_reorder_loop_set:
  assumes "length bh = k" "set is \<subseteq> {0..<k}"
  shows "length (fst (heap_reorder_loop m k is (bh, ii))) = k
       \<and> set (fst (heap_reorder_loop m k is (bh, ii))) \<subseteq> set bh"
  using assms
proof (induction "is" arbitrary: bh ii)
  case Nil
  then show ?case by simp
next
  case (Cons i rest)
  obtain val ids where b0: "bh ! 0 = (val, ids)" by (cases "bh ! 0")
  define bh2 where "bh2 = (heap_pop m (k - i) bh)[k - ii - 1 := (val, ids)]"
  have ik: "0 < k - i" "k - i \<le> length bh" using Cons.prems by auto
  have in0: "(val, ids) \<in> set bh"
    using ik b0 by (metis length_greater_0_conv list.size(3) not_less nth_mem)
  have p: "length (heap_pop m (k - i) bh) = k" "set (heap_pop m (k - i) bh) \<subseteq> set bh"
    using heap_pop_set [OF ik, of m] Cons.prems by simp_all
  have b2: "length bh2 = k" "set bh2 \<subseteq> set bh"
    using p in0 set_update_subset_insert [of "heap_pop m (k - i) bh" "k - ii - 1" "(val, ids)"]
    by (auto simp: bh2_def)
  have step: "heap_reorder_loop m k (i # rest) (bh, ii)
              = heap_reorder_loop m k rest (bh2, if ids \<noteq> - 1 then ii + 1 else ii)"
    by (simp add: b0 bh2_def Let_def)
  have "set rest \<subseteq> {0..<k}" using Cons.prems by simp
  from Cons.IH [OF b2(1) this] b2(2) show ?case
    unfolding step by blast
qed

lemma heap_reorder_set:
  assumes "length bh = k"
  shows "length (heap_reorder m k bh) = k
       \<and> set (heap_reorder m k bh) \<subseteq> insert (neutral m, - 1) (set bh)"
proof -
  obtain bh' ii where r: "heap_reorder_loop m k [0..<k] (bh, 0) = (bh', ii)"
    by (cases "heap_reorder_loop m k [0..<k] (bh, 0)")
  have l: "length bh' = k" "set bh' \<subseteq> set bh"
    using heap_reorder_loop_set [OF assms, of "[0..<k]" m 0] by (simp_all add: r)
  have "set (take ii (drop (k - ii) bh')) \<subseteq> set bh'"
    by (meson in_set_dropD in_set_takeD subsetI)
  then show ?thesis using l by (auto simp: heap_reorder_def r)
qed

lemma sort_by_docid_pairs_set:
  "length (sort_by_docid_pairs bh) = length bh \<and> set (sort_by_docid_pairs bh) = set bh"
  by (force simp: sort_by_docid_pairs_def)

section \<open>Properties of search\<close>

subsection \<open>What the loops keep in the result slots\<close>


lemma heap_replace_top_pred:
  assumes "heap_replace_top m k simi dis ids = Inr h" "length simi = k"
    and "\<forall>p \<in> set simi. Q p" "Q (dis, ids)"
  shows "length h = k \<and> (\<forall>p \<in> set h. Q p)"
  using heap_replace_top_set [OF assms(1,2)] assms(3,4) by auto

lemma init_result_pred:
  "Q (neutral m, - 1) \<Longrightarrow> length (init_result m k) = k \<and> (\<forall>p \<in> set (init_result m k). Q p)"
  by (simp add: init_result_def)

lemma final_order_pred:
  assumes "length simi = k" "\<forall>p \<in> set simi. Q p" "Q (neutral m, - 1)"
  shows "length (final_order condition m k simi) = k \<and> (\<forall>p \<in> set (final_order condition m k simi). Q p)"
  using assms heap_reorder_set [OF assms(1), of m] sort_by_docid_pairs_set [of simi]
  by (auto simp: final_order_def)

lemma heap_addn_pred:
  assumes "heap_addn m k bh xs = Inr h" "length bh = k"
    and "\<forall>p \<in> set bh. Q p" "\<forall>p \<in> set xs. Q p"
  shows "length h = k \<and> (\<forall>p \<in> set h. Q p)"
  using assms
proof (induction xs arbitrary: bh)
  case Nil
  then show ?case by simp
next
  case (Cons x xs)
  obtain v i where x: "x = (v, i)" by (cases x)
  from Cons.prems(1) obtain bh' where
    r: "heap_replace_top m k bh v i = Inr bh'" and rest: "heap_addn m k bh' xs = Inr h"
    by (auto simp: x split: sum.splits)
  have "length bh' = k \<and> (\<forall>p \<in> set bh'. Q p)"
    using heap_replace_top_pred [OF r Cons.prems(2,3)] Cons.prems(4) by (simp add: x)
  then show ?case using Cons.IH [OF rest] Cons.prems(4) by simp
qed

lemma heap_addn_Inr:
  "0 < k \<Longrightarrow> \<exists>h. heap_addn m k bh xs = Inr h"
proof (induction xs arbitrary: bh)
  case Nil
  then show ?case by simp
next
  case (Cons x xs)
  obtain v i where x: "x = (v, i)" by (cases x)
  from heap_replace_top_Inr [OF Cons.prems, of m bh v i] obtain bh' where
    "heap_replace_top m k bh v i = Inr bh'" by blast
  then show ?case using Cons.IH [OF Cons.prems, of bh'] by (simp add: x)
qed

lemma rank_loop_pred:
  assumes "rank_loop condition m k dis_of recall simi = Inr res" "length simi = k"
    and "\<forall>(dis, ids) \<in> set simi. ids = - 1 \<or> range_test condition dis"
  shows "length res = k \<and> (\<forall>(dis, ids) \<in> set res. ids = - 1 \<or> range_test condition dis)"
  using assms
proof (induction recall arbitrary: simi)
  case Nil
  then show ?case by simp
next
  case (Cons c recall)
  obtain rs ri where c: "c = (rs, ri)" by (cases c)
  show ?case
  proof (cases "ri \<noteq> - 1 \<and> range_test condition (dis_of ri)")
    case True
    with Cons.prems(1) obtain simi' where
      r: "heap_replace_top m k simi (dis_of ri) ri = Inr simi'"
      and rest: "rank_loop condition m k dis_of recall simi' = Inr res"
      by (auto simp: c Let_def split: sum.splits)
    have "length simi' = k \<and> (\<forall>p \<in> set simi'. case p of (dis, ids) \<Rightarrow> ids = - 1 \<or> range_test condition dis)"
      using heap_replace_top_pred [OF r Cons.prems(2), of "\<lambda>(dis, ids). ids = - 1 \<or> range_test condition dis"]
        Cons.prems(3) True by simp
    then show ?thesis using Cons.IH [OF rest] by simp
  next
    case False
    with Cons.prems(1) have "rank_loop condition m k dis_of recall simi = Inr res"
      by (auto simp: c Let_def split: if_splits)
    then show ?thesis using Cons.IH Cons.prems(2,3) by simp
  qed
qed

lemma rank_loop_Inr:
  "0 < k \<Longrightarrow> \<exists>res. rank_loop condition m k dis_of recall simi = Inr res"
proof (induction recall arbitrary: simi)
  case Nil
  then show ?case by simp
next
  case (Cons c recall)
  obtain rs ri where c: "c = (rs, ri)" by (cases c)
  from heap_replace_top_Inr [OF Cons.prems, of m simi "dis_of ri" ri] obtain simi' where
    "heap_replace_top m k simi (dis_of ri) ri = Inr simi'" by blast
  then show ?case using Cons.IH [OF Cons.prems] by (simp add: c Let_def)
qed

lemma norank_loop_pred:
  assumes "norank_loop condition k recall (simi, i) = Inr (res, i')" "length simi = k"
    and "\<forall>(dis, ids) \<in> set simi. ids = - 1 \<or> range_test condition dis"
  shows "length res = k \<and> (\<forall>(dis, ids) \<in> set res. ids = - 1 \<or> range_test condition dis)"
  using assms
proof (induction recall arbitrary: simi i)
  case Nil
  then show ?case by simp
next
  case (Cons c recall)
  obtain rs ri where c: "c = (rs, ri)" by (cases c)
  show ?case
  proof (cases "ri \<noteq> - 1 \<and> range_test condition rs")
    case True
    with Cons.prems(1) have ik: "i < k"
      and rest: "norank_loop condition k recall (simi[i := (rs, ri)], i + 1) = Inr (res, i')"
      by (auto simp: c Let_def split: if_splits)
    have "\<forall>(dis, ids) \<in> set (simi[i := (rs, ri)]). ids = - 1 \<or> range_test condition dis"
      using Cons.prems(3) True set_update_subset_insert [of simi i "(rs, ri)"] by auto
    then show ?thesis using Cons.IH [OF rest] Cons.prems(2) by simp
  next
    case False
    with Cons.prems(1) have "norank_loop condition k recall (simi, i) = Inr (res, i')"
      by (auto simp: c Let_def split: if_splits)
    then show ?thesis using Cons.IH Cons.prems(2,3) by simp
  qed
qed

lemma search_impl_loop_pred:
  assumes "search_impl_loop condition m k vid2docid bitmap_test dis_of vids (simi, n) = Inr (res, n')"
    "length simi = k"
    and "\<forall>(dis, ids) \<in> set simi. ids = - 1 \<or> direct_range_test condition dis"
  shows "length res = k \<and> (\<forall>(dis, ids) \<in> set res. ids = - 1 \<or> direct_range_test condition dis)"
  using assms
proof (induction vids arbitrary: simi n)
  case Nil
  then show ?case by simp
next
  case (Cons vid vids)
  let ?skip = "bitmap_test (vid2docid vid) \<or>
         (case range_query_result condition of None \<Rightarrow> False | Some nr \<Rightarrow> \<not> nr (vid2docid vid))"
  let ?out = "(min_dist condition \<ge> 0 \<and> max_dist condition \<ge> 0) \<and>
         (dis_of vid < min_dist condition \<or> dis_of vid > max_dist condition)"
  show ?case
  proof (cases "?skip \<or> ?out")
    case True
    with Cons.prems(1) have
      "search_impl_loop condition m k vid2docid bitmap_test dis_of vids (simi, n) = Inr (res, n')"
      by (auto simp: Let_def split: if_splits)
    then show ?thesis using Cons.IH Cons.prems(2,3) by simp
  next
    case False
    with Cons.prems(1) obtain simi' where
      r: "heap_replace_top m k simi (dis_of vid) vid = Inr simi'"
      and rest: "search_impl_loop condition m k vid2docid bitmap_test dis_of vids (simi', n + 1) = Inr (res, n')"
      by (auto simp: Let_def split: sum.splits if_splits)
    have q: "direct_range_test condition (dis_of vid)"
      using False by (auto simp: direct_range_test_def)
    have "length simi' = k \<and> (\<forall>p \<in> set simi'. case p of (dis, ids) \<Rightarrow> ids = - 1 \<or> direct_range_test condition dis)"
      using heap_replace_top_pred [OF r Cons.prems(2), of "\<lambda>(dis, ids). ids = - 1 \<or> direct_range_test condition dis"]
        Cons.prems(3) q by simp
    then show ?thesis using Cons.IH [OF rest] by simp
  qed
qed

lemma search_impl_loop_Inr:
  "0 < k \<Longrightarrow> \<exists>res. search_impl_loop condition m k vid2docid bitmap_test dis_of vids s = Inr res"
proof (induction vids arbitrary: s)
  case Nil
  then show ?case by simp
next
  case (Cons vid vids)
  obtain simi n where s: "s = (simi, n)" by (cases s)
  from heap_replace_top_Inr [OF Cons.prems, of m simi "dis_of vid" vid] obtain simi' where
    "heap_replace_top m k simi (dis_of vid) vid = Inr simi'" by blast
  then show ?case using Cons.IH [OF Cons.prems] by (simp add: s Let_def)
qed

lemma direct_local_pred:
  assumes "direct_local condition m vid2docid bitmap_test dis_of nv nt ranges local = Inr res"
    "length local = topn condition"
    and "\<forall>(dis, ids) \<in> set local. ids = - 1 \<or> direct_range_test condition dis"
  shows "length res = topn condition
       \<and> (\<forall>(dis, ids) \<in> set res. ids = - 1 \<or> direct_range_test condition dis)"
  using assms
proof (induction ranges arbitrary: local)
  case Nil
  then show ?case by simp
next
  case (Cons ik ranges)
  from Cons.prems(1) obtain ny offset local' n' where
    r: "search_impl condition m (topn condition) vid2docid bitmap_test dis_of ny offset local = Inr (local', n')"
    and rest: "direct_local condition m vid2docid bitmap_test dis_of nv nt ranges local' = Inr res"
    by (auto simp: Let_def split: sum.splits)
  from r have "length local' = topn condition
       \<and> (\<forall>(dis, ids) \<in> set local'. ids = - 1 \<or> direct_range_test condition dis)"
    unfolding search_impl_def by (rule search_impl_loop_pred) (use Cons.prems in auto)
  then show ?case using Cons.IH [OF rest] by simp
qed

lemma direct_local_Inr:
  "0 < topn condition \<Longrightarrow>
   \<exists>res. direct_local condition m vid2docid bitmap_test dis_of nv nt ranges local = Inr res"
proof (induction ranges arbitrary: local)
  case Nil
  then show ?case by simp
next
  case (Cons ik ranges)
  define ny where "ny = (if ik = nt - 1 then nv div nt + nv mod nt else nv div nt)"
  from search_impl_loop_Inr [OF Cons.prems, of condition m vid2docid bitmap_test dis_of]
  obtain r where "search_impl condition m (topn condition) vid2docid bitmap_test dis_of
      ny (int (ik * (nv div nt))) local = Inr r"
    unfolding search_impl_def by blast
  then show ?case using Cons.IH [OF Cons.prems] by (cases r) (simp add: Let_def ny_def)
qed

lemma direct_merge_pred:
  assumes "direct_merge condition m vid2docid bitmap_test dis_of nv nt schedule simi = Inr res"
    "length simi = topn condition"
    and "\<forall>(dis, ids) \<in> set simi. ids = - 1 \<or> direct_range_test condition dis"
  shows "length res = topn condition
       \<and> (\<forall>(dis, ids) \<in> set res. ids = - 1 \<or> direct_range_test condition dis)"
  using assms
proof (induction schedule arbitrary: simi)
  case Nil
  then show ?case by simp
next
  case (Cons ranges schedule)
  from Cons.prems(1) obtain local simi' where
    l: "direct_local condition m vid2docid bitmap_test dis_of nv nt ranges
          (init_result m (topn condition)) = Inr local"
    and a: "heap_addn m (topn condition) simi local = Inr simi'"
    and rest: "direct_merge condition m vid2docid bitmap_test dis_of nv nt schedule simi' = Inr res"
    by (auto split: sum.splits)
  have "length local = topn condition
       \<and> (\<forall>(dis, ids) \<in> set local. ids = - 1 \<or> direct_range_test condition dis)"
    using direct_local_pred [OF l] by (simp add: init_result_def)
  then have "length simi' = topn condition
       \<and> (\<forall>p \<in> set simi'. case p of (dis, ids) \<Rightarrow> ids = - 1 \<or> direct_range_test condition dis)"
    using heap_addn_pred [OF a Cons.prems(2), of "\<lambda>(dis, ids). ids = - 1 \<or> direct_range_test condition dis"]
      Cons.prems(3) by simp
  then show ?case using Cons.IH [OF rest] by simp
qed

lemma direct_merge_Inr:
  "0 < topn condition \<Longrightarrow>
   \<exists>res. direct_merge condition m vid2docid bitmap_test dis_of nv nt schedule simi = Inr res"
proof (induction schedule arbitrary: simi)
  case Nil
  then show ?case by simp
next
  case (Cons ranges schedule)
  from direct_local_Inr [OF Cons.prems, of m vid2docid bitmap_test dis_of nv nt ranges
      "init_result m (topn condition)"]
  obtain local where l: "direct_local condition m vid2docid bitmap_test dis_of nv nt ranges
          (init_result m (topn condition)) = Inr local" by blast
  from heap_addn_Inr [OF Cons.prems, of m simi local]
  obtain simi' where "heap_addn m (topn condition) simi local = Inr simi'" by blast
  then show ?case using l Cons.IH [OF Cons.prems, of simi'] by simp
qed

lemma compute_dis_pred:
  assumes "compute_dis condition m k dis_of (init_result m k) recall = Inr res"
  shows "length res = k \<and> (\<forall>(dis, ids) \<in> set res. ids = - 1 \<or> range_test condition dis)"
proof (cases "has_rank condition")
  case True
  with assms obtain simi' where
    r: "rank_loop condition m k dis_of recall (init_result m k) = Inr simi'"
    and res: "res = final_order condition m k simi'"
    by (auto simp: compute_dis_def compute_dis_rank_def final_order_def split: sum.splits)
  have "length simi' = k \<and> (\<forall>(dis, ids) \<in> set simi'. ids = - 1 \<or> range_test condition dis)"
    using rank_loop_pred [OF r] by (simp add: init_result_def)
  then show ?thesis
    unfolding res
    using final_order_pred [of simi' k "\<lambda>(dis, ids). ids = - 1 \<or> range_test condition dis" m condition]
    by simp
next
  case False
  with assms obtain i' where
    r: "norank_loop condition k recall (init_result m k, 0) = Inr (res, i')"
    by (auto simp: compute_dis_def compute_dis_norank_def split: sum.splits)
  show ?thesis using norank_loop_pred [OF r] by (simp add: init_result_def)
qed

lemma direct_query_mode0_pred:
  assumes "direct_query_mode0 condition m vid2docid bitmap_test dis_of nv = Inr res"
  shows "length res = topn condition
       \<and> (\<forall>(dis, ids) \<in> set res. ids = - 1 \<or> direct_range_test condition dis)"
proof -
  from assms obtain simi n where
    r: "search_impl condition m (topn condition) vid2docid bitmap_test dis_of nv 0
          (init_result m (topn condition)) = Inr (simi, n)"
    and res: "res = final_order condition m (topn condition) simi"
    by (auto simp: direct_query_mode0_def Let_def split: sum.splits)
  from r have "length simi = topn condition
       \<and> (\<forall>(dis, ids) \<in> set simi. ids = - 1 \<or> direct_range_test condition dis)"
    unfolding search_impl_def by (rule search_impl_loop_pred) (simp_all add: init_result_def)
  then show ?thesis
    unfolding res
    using final_order_pred [of simi "topn condition"
        "\<lambda>(dis, ids). ids = - 1 \<or> direct_range_test condition dis" m condition]
    by simp
qed

lemma direct_query_mode1_pred:
  assumes "direct_query_mode1 condition m vid2docid bitmap_test dis_of nv nt schedule = Inr res"
  shows "length res = topn condition
       \<and> (\<forall>(dis, ids) \<in> set res. ids = - 1 \<or> direct_range_test condition dis)"
proof -
  from assms obtain simi where
    r: "direct_merge condition m vid2docid bitmap_test dis_of nv nt schedule
          (init_result m (topn condition)) = Inr simi"
    and res: "res = final_order condition m (topn condition) simi"
    by (auto simp: direct_query_mode1_def Let_def split: sum.splits)
  have "length simi = topn condition
       \<and> (\<forall>(dis, ids) \<in> set simi. ids = - 1 \<or> direct_range_test condition dis)"
    using direct_merge_pred [OF r] by (simp add: init_result_def)
  then show ?thesis
    unfolding res
    using final_order_pred [of simi "topn condition"
        "\<lambda>(dis, ids). ids = - 1 \<or> direct_range_test condition dis" m condition]
    by simp
qed

text \<open>
  What each path guarantees about the distances it returns. In the IVF-PQ path, with and
  without rank, every pair \<open>(vid, dis)\<close> that \<open>compute_dis\<close> leaves in the result slots of a
  query (a slot whose label is not \<open>-1\<close>) passes the range test: \<open>min_dist = -1\<close> and
  \<open>max_dist = -1\<close>, or both bounds are non-negative and \<open>min_dist \<le> dis \<le> max_dist\<close>. In the
  direct path, in both parallel modes, every such pair passes the test of \<open>search_impl\<close>,
  which compares the distance with the bounds only when both are non-negative. With
  \<open>topn > 0\<close> the ranked and the direct search return a result.
\<close>

lemma search_results_in_range:
  "(\<forall>res. compute_dis condition m (topn condition) dis_of (init_result m (topn condition)) recall
            = Inr res \<longrightarrow>
          length res = topn condition
          \<and> (\<forall>(dis, ids) \<in> set res. ids \<noteq> - 1 \<longrightarrow> range_test condition dis))
   \<and> (\<forall>res. direct_query_mode0 condition m vid2docid bitmap_test dis_of2 nv = Inr res \<longrightarrow>
          length res = topn condition
          \<and> (\<forall>(dis, ids) \<in> set res. ids \<noteq> - 1 \<longrightarrow> direct_range_test condition dis))
   \<and> (\<forall>res. direct_query_mode1 condition m vid2docid bitmap_test dis_of2 nv nt schedule = Inr res \<longrightarrow>
          length res = topn condition
          \<and> (\<forall>(dis, ids) \<in> set res. ids \<noteq> - 1 \<longrightarrow> direct_range_test condition dis))
   \<and> (0 < topn condition \<longrightarrow>
        (has_rank condition \<longrightarrow>
           (\<exists>res. compute_dis condition m (topn condition) dis_of
                    (init_result m (topn condition)) recall = Inr res))
        \<and> (\<exists>res. direct_query_mode0 condition m vid2docid bitmap_test dis_of2 nv = Inr res)
        \<and> (\<exists>res. direct_query_mode1 condition m vid2docid bitmap_test dis_of2 nv nt schedule
                  = Inr res))"
proof (intro conjI allI impI)
  fix res
  assume "compute_dis condition m (topn condition) dis_of (init_result m (topn condition)) recall = Inr res"
  from compute_dis_pred [OF this]
  show "length res = topn condition"
    and "\<forall>(dis, ids) \<in> set res. ids \<noteq> - 1 \<longrightarrow> range_test condition dis"
    by auto
next
  fix res
  assume "direct_query_mode0 condition m vid2docid bitmap_test dis_of2 nv = Inr res"
  from direct_query_mode0_pred [OF this]
  show "length res = topn condition"
    and "\<forall>(dis, ids) \<in> set res. ids \<noteq> - 1 \<longrightarrow> direct_range_test condition dis"
    by auto
next
  fix res
  assume "direct_query_mode1 condition m vid2docid bitmap_test dis_of2 nv nt schedule = Inr res"
  from direct_query_mode1_pred [OF this]
  show "length res = topn condition"
    and "\<forall>(dis, ids) \<in> set res. ids \<noteq> - 1 \<longrightarrow> direct_range_test condition dis"
    by auto
next
  assume k: "0 < topn condition" and "has_rank condition"
  then show "\<exists>res. compute_dis condition m (topn condition) dis_of
                    (init_result m (topn condition)) recall = Inr res"
    using rank_loop_Inr [OF k, of condition m dis_of recall "init_result m (topn condition)"]
    by (auto simp: compute_dis_def compute_dis_rank_def)
next
  assume k: "0 < topn condition"
  from search_impl_loop_Inr [OF k, of condition m vid2docid bitmap_test dis_of2]
  show "\<exists>res. direct_query_mode0 condition m vid2docid bitmap_test dis_of2 nv = Inr res"
    by (auto simp: direct_query_mode0_def search_impl_def Let_def split: sum.splits)
       (metis old.sum.exhaust sum.distinct(1) surj_pair)
next
  assume k: "0 < topn condition"
  from direct_merge_Inr [OF k, of m vid2docid bitmap_test dis_of2 nv nt schedule "init_result m (topn condition)"]
  show "\<exists>res. direct_query_mode1 condition m vid2docid bitmap_test dis_of2 nv nt schedule = Inr res"
    by (auto simp: direct_query_mode1_def Let_def)
qed


text \<open>Evaluation of the heap primitives at concrete arguments.\<close>

lemma replicate_numeral_eval:
  "replicate (numeral n) x = x # replicate (pred_numeral n) x"
  by (simp add: numeral_eq_Suc)

lemmas heap_eval = replicate_numeral_eval
  heap_replace_top_def heap_pop_def heap_push_def heap_pop_loop.simps heap_push_loop.simps
  heap_reorder_def init_result_def cmp_def neutral_def FLT_MAX_def Let_def



subsection \<open>The result slots of \<open>compute_dis\<close> without rank\<close>

text \<open>Without rank, \<open>compute_dis\<close> stays within the \<open>k\<close> slots of the query exactly when at most
  \<open>k\<close> recall candidates pass the range test; with more of them it writes at the index \<open>k\<close>.\<close>

lemma norank_loop_overflow_iff:
  assumes "i \<le> k"
  shows "norank_loop condition k recall (simi, i) = Inl OutOfBounds
     \<longleftrightarrow> k < i + length (filter (\<lambda>(dis, vid). vid \<noteq> - 1 \<and> range_test condition dis) recall)"
    and "(\<exists>res. norank_loop condition k recall (simi, i) = Inr res)
     \<longleftrightarrow> i + length (filter (\<lambda>(dis, vid). vid \<noteq> - 1 \<and> range_test condition dis) recall) \<le> k"
  using assms
proof (induction recall arbitrary: simi i)
  case Nil
  { case 1 then show ?case by simp }
  { case 2 then show ?case by simp }
next
  case (Cons c recall)
  obtain rs ri where c: "c = (rs, ri)" by (cases c)
  { case 1
    show ?case
    proof (cases "ri \<noteq> - 1 \<and> range_test condition rs")
      case True
      show ?thesis
      proof (cases "i < k")
        case ik: True
        then show ?thesis using True Cons.IH(1) [of "Suc i" "simi[i := (rs, ri)]"]
          by (simp add: c Let_def)
      next
        case False
        then show ?thesis using True 1 by (simp add: c Let_def)
      qed
    next
      case False
      then show ?thesis using Cons.IH(1) [OF 1, of simi] by (auto simp: c Let_def)
    qed }
  { case 2
    show ?case
    proof (cases "ri \<noteq> - 1 \<and> range_test condition rs")
      case True
      show ?thesis
      proof (cases "i < k")
        case ik: True
        then show ?thesis using True Cons.IH(2) [of "Suc i" "simi[i := (rs, ri)]"]
          by (simp add: c Let_def)
      next
        case False
        then show ?thesis using True 2 by (simp add: c Let_def)
      qed
    next
      case False
      then show ?thesis using Cons.IH(2) [OF 2, of simi] by (auto simp: c Let_def)
    qed }
qed

text \<open>
  Claim C9 does not hold of the code. With \<open>topn = 1\<close>, \<open>recall_num = 2\<close>, no range
  (\<open>min_dist = max_dist = -1\<close>) and \<open>has_rank\<close> false, a query whose single probed list holds
  two vectors gets both of them as recall candidates; both pass the range test, and the
  second one is written at \<open>simi[1]\<close>, \<open>idxi[1]\<close>, outside the one slot of the query.
\<close>

theorem compute_dis_norank_writes_past_topn:
  "recall_num example_condition \<ge> topn example_condition
   \<and> search_query_mode0 example_scan_env example_condition METRIC_L2 0 (\<lambda>vid. 0) [0] [0]
       = Inl OutOfBounds
   \<and> compute_dis example_condition METRIC_L2 1 (\<lambda>vid. 0) (init_result METRIC_L2 1)
       [(1, 8), (1 / 2, 7)] = Inl OutOfBounds"
  by (simp add: search_query_mode0_def probes_of_def scan_one_list_def example_scan_env_def
      compute_dis_def compute_dis_norank_def example_condition_def range_test_def heap_eval)

subsection \<open>The range test at concrete inputs\<close>

text \<open>
  Claim C1 does not hold of the code. With \<open>min_dist = -1\<close> and \<open>max_dist = 5\<close> the range
  predicate admits no distance (the bounds are not both \<open>-1\<close>, and \<open>min_dist\<close> is negative).
  The direct search, whose \<open>search_impl\<close> tests the distance only when both bounds are
  non-negative (\<open>ck_dis\<close>), returns the one stored vector at distance \<open>9\<close>, in both parallel
  modes. In the IVF-PQ path of the same \<open>Search\<close>, \<open>compute_dis\<close> under the same condition
  rejects the same candidate, without rank and with rank.
\<close>

theorem direct_search_skips_range_test:
  "direct_query_mode0 (example_condition\<lparr>max_dist := 5\<rparr>) METRIC_L2 (\<lambda>vid. vid) (\<lambda>docid. False)
     (\<lambda>vid. 9) 1 = Inr [(9, 0)]
   \<and> direct_query_mode1 (example_condition\<lparr>max_dist := 5\<rparr>) METRIC_L2 (\<lambda>vid. vid)
       (\<lambda>docid. False) (\<lambda>vid. 9) 1 1 [[0]] = Inr [(9, 0)]
   \<and> range_test (example_condition\<lparr>max_dist := 5\<rparr>) 9 = False
   \<and> compute_dis (example_condition\<lparr>max_dist := 5\<rparr>) METRIC_L2 1 (\<lambda>vid. 9)
       (init_result METRIC_L2 1) [(9, 0), (FLT_MAX, - 1)] = Inr [(FLT_MAX, - 1)]
   \<and> compute_dis (example_condition\<lparr>max_dist := 5, has_rank := True\<rparr>) METRIC_L2 1 (\<lambda>vid. 9)
       (init_result METRIC_L2 1) [(9, 0), (FLT_MAX, - 1)] = Inr [(FLT_MAX, - 1)]"
proof -
  have a: "direct_query_mode0 (example_condition\<lparr>max_dist := 5\<rparr>) METRIC_L2 (\<lambda>vid. vid)
       (\<lambda>docid. False) (\<lambda>vid. 9) 1 = Inr [(9, 0)]"
    by code_simp
  have b: "direct_query_mode1 (example_condition\<lparr>max_dist := 5\<rparr>) METRIC_L2 (\<lambda>vid. vid)
       (\<lambda>docid. False) (\<lambda>vid. 9) 1 1 [[0]] = Inr [(9, 0)]"
    by code_simp
  have c: "range_test (example_condition\<lparr>max_dist := 5\<rparr>) 9 = False"
    by (simp add: range_test_def example_condition_def)
  have d: "compute_dis (example_condition\<lparr>max_dist := 5\<rparr>) METRIC_L2 1 (\<lambda>vid. 9)
       (init_result METRIC_L2 1) [(9, 0), (FLT_MAX, - 1)] = Inr [(FLT_MAX, - 1)]"
    by code_simp
  have e: "compute_dis (example_condition\<lparr>max_dist := 5, has_rank := True\<rparr>) METRIC_L2 1 (\<lambda>vid. 9)
       (init_result METRIC_L2 1) [(9, 0), (FLT_MAX, - 1)] = Inr [(FLT_MAX, - 1)]"
    by code_simp
  show ?thesis using a b c d e by blast
qed

text \<open>An example of the guarantees above, with the range \<open>[0, 5]\<close>.\<close>

lemma search_results_in_range_example:
  "compute_dis ranked_condition METRIC_L2 2 real_of_int (init_result METRIC_L2 2)
       [(1 / 10, 3), (1 / 5, 9), (3 / 10, - 1)] = Inr [(3, 3), (FLT_MAX, - 1)]
   \<and> range_test ranked_condition 3
   \<and> direct_query_mode0 ranked_condition METRIC_L2 (\<lambda>vid. vid) (\<lambda>docid. False)
       (\<lambda>vid. if vid = 0 then 9 else 3) 2 = Inr [(3, 1), (FLT_MAX, - 1)]
   \<and> direct_query_mode1 ranked_condition METRIC_L2 (\<lambda>vid. vid) (\<lambda>docid. False)
       (\<lambda>vid. if vid = 0 then 9 else 3) 2 2 [[0], [1]] = Inr [(3, 1), (FLT_MAX, - 1)]
   \<and> direct_range_test ranked_condition 3"
proof -
  have a: "compute_dis ranked_condition METRIC_L2 (topn ranked_condition) real_of_int
       (init_result METRIC_L2 (topn ranked_condition))
       [(1 / 10, 3), (1 / 5, 9), (3 / 10, - 1)] = Inr [(3, 3), (FLT_MAX, - 1)]"
    by code_simp
  have b: "direct_query_mode0 ranked_condition METRIC_L2 (\<lambda>vid. vid) (\<lambda>docid. False)
       (\<lambda>vid. if vid = 0 then 9 else 3) 2 = Inr [(3, 1), (FLT_MAX, - 1)]"
    by code_simp
  have c: "direct_query_mode1 ranked_condition METRIC_L2 (\<lambda>vid. vid) (\<lambda>docid. False)
       (\<lambda>vid. if vid = 0 then 9 else 3) 2 2 [[0], [1]] = Inr [(3, 1), (FLT_MAX, - 1)]"
    by code_simp
  have t: "topn ranked_condition = 2"
    by (simp add: ranked_condition_def example_condition_def)
  note th = search_results_in_range [of ranked_condition METRIC_L2 real_of_int
      "[(1 / 10, 3), (1 / 5, 9), (3 / 10, - 1)]" "\<lambda>vid. vid" "\<lambda>docid. False"
      "\<lambda>vid. if vid = 0 then 9 else 3" 2 2 "[[0], [1]]"]
  from th a have "\<forall>(dis, ids) \<in> set [(3, 3 :: int), (FLT_MAX, - 1)]. ids \<noteq> - 1 \<longrightarrow> range_test ranked_condition dis"
    by blast
  then have r: "range_test ranked_condition 3" by simp
  from th b have "\<forall>(dis, ids) \<in> set [(3, 1 :: int), (FLT_MAX, - 1)]. ids \<noteq> - 1 \<longrightarrow> direct_range_test ranked_condition dis"
    by blast
  then have d: "direct_range_test ranked_condition 3" by simp
  from a b c r d show ?thesis by (simp add: t)
qed

subsection \<open>Result remapping\<close>


lemma dedup_first_distinct:
  "distinct (map snd (dedup_first seen xs)) \<and> snd ` set (dedup_first seen xs) \<inter> seen = {}"
proof (induction xs arbitrary: seen)
  case Nil
  then show ?case by simp
next
  case (Cons x xs)
  obtain dis docid where x: "x = (dis, docid)" by (cases x)
  show ?case
  proof (cases "docid \<in> seen")
    case True
    then show ?thesis using Cons.IH [of seen] by (simp add: x)
  next
    case False
    then show ?thesis using Cons.IH [of "insert docid seen"] by (auto simp: x)
  qed
qed

lemma length_dedup_first_le: "length (dedup_first seen xs) \<le> length xs"
proof (induction xs arbitrary: seen)
  case Nil
  then show ?case by simp
next
  case (Cons x xs)
  obtain dis docid where x: "x = (dis, docid)" by (cases x)
  show ?case using Cons.IH [of seen] Cons.IH [of "insert docid seen"]
    by (auto simp: x le_SucI)
qed

lemma resolve_vids_Cons:
  "resolve_vids v ((dis, vid) # rest) =
     (if vid \<noteq> - 1 then (dis, v vid) # resolve_vids v rest else resolve_vids v rest)"
  by (simp add: resolve_vids_def)

lemma remap_loop_upt:
  assumes "n - j = d" "pos \<le> j" "j \<le> n" "length slots = n"
  shows "case remap_loop v g [j..<n] (slots, sources, pos, seen) of
           (slots', sources', pos', seen') \<Rightarrow>
             length slots' = n
             \<and> pos' = pos + length (dedup_first (dom seen) (resolve_vids v (drop j slots)))
             \<and> take pos' slots' = take pos slots @ dedup_first (dom seen) (resolve_vids v (drop j slots))"
  using assms
proof (induction d arbitrary: j slots sources pos seen)
  case 0
  then show ?case by (simp add: resolve_vids_def)
next
  case (Suc d)
  then have jn: "j < n" by simp
  obtain dis vid where sj: "slots ! j = (dis, vid)" by (cases "slots ! j")
  have up: "[j..<n] = j # [Suc j..<n]" using jn by (simp add: upt_conv_Cons)
  have dr: "drop j slots = (dis, vid) # drop (Suc j) slots"
    using jn Suc.prems sj by (metis Cons_nth_drop_Suc)
  have pre: "n - Suc j = d" "Suc j \<le> n" using Suc.prems by simp_all
  show ?case
  proof (cases "vid \<noteq> - 1 \<and> seen (v vid) = None")
    case False
    then have step: "remap_loop v g [j..<n] (slots, sources, pos, seen)
                   = remap_loop v g [Suc j..<n] (slots, sources, pos, seen)"
      unfolding up by (auto simp: sj Let_def)
    have dd: "dedup_first (dom seen) (resolve_vids v (drop j slots))
            = dedup_first (dom seen) (resolve_vids v (drop (Suc j) slots))"
      using False unfolding dr by (auto simp: resolve_vids_Cons)
    have "pos \<le> Suc j" using Suc.prems by simp
    from Suc.IH [OF pre(1) this pre(2) Suc.prems(4), where sources = sources and seen = seen] show ?thesis
      unfolding step dd .
  next
    case True
    define slots1 where "slots1 = slots[pos := (dis, v vid)]"
    have step: "remap_loop v g [j..<n] (slots, sources, pos, seen)
                   = remap_loop v g [Suc j..<n]
                       (slots1, sources[pos := g vid], pos + 1, seen(v vid \<mapsto> 1))"
      unfolding up using True by (simp add: sj Let_def slots1_def)
    have dd: "dedup_first (dom seen) (resolve_vids v (drop j slots))
            = (dis, v vid) # dedup_first (dom (seen(v vid \<mapsto> 1))) (resolve_vids v (drop (Suc j) slots1))"
      using True Suc.prems unfolding dr by (auto simp: resolve_vids_Cons slots1_def)
    have tk: "take (pos + 1) slots1 = take pos slots @ [(dis, v vid)]"
      using Suc.prems jn by (simp add: slots1_def take_Suc_conv_app_nth)
    have l1: "length slots1 = n" using Suc.prems by (simp add: slots1_def)
    have "pos + 1 \<le> Suc j" using Suc.prems by simp
    note ih = Suc.IH [OF pre(1) this pre(2) l1, where sources = "sources[pos := g vid]"
        and seen = "seen(v vid \<mapsto> 1)"]
    obtain s' src' p' sn' where rr: "remap_loop v g [Suc j..<n]
        (slots1, sources[pos := g vid], pos + 1, seen(v vid \<mapsto> 1)) = (s', src', p', sn')"
      by (metis prod_cases4)
    from ih have "length s' = n"
      and "p' = pos + 1 + length (dedup_first (dom (seen(v vid \<mapsto> 1))) (resolve_vids v (drop (Suc j) slots1)))"
      and "take p' s' = take (pos + 1) slots1 @ dedup_first (dom (seen(v vid \<mapsto> 1))) (resolve_vids v (drop (Suc j) slots1))"
      unfolding rr by blast+
    then show ?thesis
      unfolding step rr dd tk by simp
  qed
qed

lemma pad_tail_eq:
  assumes "a \<le> b" "b \<le> length s"
  shows "pad_tail a b s = take a s @ replicate (b - a) (- 1, - 1) @ drop b s"
  using assms
proof (induction b)
  case 0
  then show ?case by (simp add: pad_tail_def)
next
  case (Suc b)
  show ?case
  proof (cases "a = Suc b")
    case True
    then show ?thesis by (simp add: pad_tail_def)
  next
    case False
    then have ab: "a \<le> b" "b \<le> length s" "b < length s" using Suc.prems by simp_all
    have "pad_tail a (Suc b) s = (pad_tail a b s)[b := (- 1, - 1)]"
      using ab by (simp add: pad_tail_def)
    also have "\<dots> = (take a s @ replicate (b - a) (- 1, - 1) @ drop b s)[b := (- 1, - 1)]"
      using Suc.IH [OF ab(1,2)] by simp
    also have "\<dots> = take a s @ replicate (b - a) (- 1, - 1) @ (drop b s)[0 := (- 1, - 1)]"
      using ab by (simp add: list_update_append)
    also have "(drop b s)[0 := (- 1, - 1)] = (- 1, - 1) # drop (Suc b) s"
      using ab by (metis Cons_nth_drop_Suc list_update_code(2))
    also have "take a s @ replicate (b - a) (- 1, - 1) @ (- 1, - 1) # drop (Suc b) s
             = take a s @ replicate (Suc b - a) (- 1, - 1) @ drop (Suc b) s"
      using ab by (simp add: Suc_diff_le replicate_append_same)
    finally show ?thesis .
  qed
qed

lemma remap_query_eq:
  assumes "length slots = n"
  shows "fst (remap_query vid2docid GetSource n (slots, sources, idx))
       = dedup_first {} (resolve_vids vid2docid slots)
         @ replicate (n - length (dedup_first {} (resolve_vids vid2docid slots))) (- 1, - 1)"
proof -
  define kept where "kept = dedup_first {} (resolve_vids vid2docid slots)"
  obtain slots' sources' pos' seen' where
    r: "remap_loop vid2docid GetSource [0..<n] (slots, sources, 0, Map.empty) = (slots', sources', pos', seen')"
    by (cases "remap_loop vid2docid GetSource [0..<n] (slots, sources, 0, Map.empty)") auto
  from remap_loop_upt [where n = n and j = 0 and d = n and pos = 0 and slots = slots
      and v = vid2docid and g = GetSource and sources = sources and seen = Map.empty] assms
  have l: "length slots' = n" and p: "pos' = length kept" and t: "take pos' slots' = kept"
    by (auto simp: r kept_def)
  have "length (take pos' slots') = pos'" using t p by simp
  then have pn: "pos' \<le> n" using l by (simp add: min_def split: if_splits)
  have "fst (remap_query vid2docid GetSource n (slots, sources, idx)) = pad_tail pos' n slots'"
    by (simp add: remap_query_def r)
  also have "\<dots> = kept @ replicate (n - length kept) (- 1, - 1)"
    using pad_tail_eq [OF pn, of slots'] l t p by simp
  finally show ?thesis by (simp add: kept_def)
qed

text \<open>
  Claim C2. After the search of a query has filled its \<open>topn\<close> slots, the end of \<open>Search\<close>
  leaves in them: first the docids obtained by resolving, in slot order, the vids of the
  slots (the slots with label \<open>-1\<close> hold no vid) through \<open>vid2docid\<close>, each docid once and
  with the distance of its first occurrence; then \<open>(-1, -1)\<close> in every remaining slot up to
  \<open>topn\<close>. No docid occurs twice among the kept ones.
\<close>

theorem Search_remap_dedup:
  assumes "length slots = n"
  shows "(let kept = dedup_first {} (resolve_vids vid2docid slots) in
          fst (remap_query vid2docid GetSource n (slots, sources, idx))
            = kept @ replicate (n - length kept) (- 1, - 1)
          \<and> distinct (map snd kept) \<and> length kept \<le> n)"
proof -
  have "length (dedup_first {} (resolve_vids vid2docid slots)) \<le> length (resolve_vids vid2docid slots)"
    by (rule length_dedup_first_le)
  also have "\<dots> \<le> n" using assms length_filter_le [of "\<lambda>(dis, vid). vid \<noteq> - 1" slots]
    by (simp add: resolve_vids_def)
  finally show ?thesis
    using remap_query_eq [OF assms] dedup_first_distinct [of "{}" "resolve_vids vid2docid slots"]
    by (simp add: Let_def)
qed

theorem Search_remap_dedup_witness:
  "fst (remap_query (\<lambda>vid. vid div 2) (\<lambda>vid. None) 4
         ([(1 / 10, 4), (1 / 5, - 1), (3 / 10, 5), (2 / 5, 6)], replicate 4 None, 0))
     = [(1 / 10, 2), (2 / 5, 3), (- 1, - 1), (- 1, - 1)]"
  using Search_remap_dedup [of "[(1 / 10, 4), (1 / 5, - 1), (3 / 10, 5), (2 / 5, 6)]" 4
      "\<lambda>vid. vid div 2" "\<lambda>vid. None" "replicate 4 None" 0]
  by (simp add: resolve_vids_def Let_def replicate_numeral_eval)

subsection \<open>Probing and \<open>max_codes\<close>\<close>


lemma scan_codes_Inr:
  "0 < topk \<Longrightarrow> \<exists>h. scan_codes env m key cd entries simi topk = Inr h"
proof (induction entries arbitrary: simi)
  case Nil
  then show ?case by simp
next
  case (Cons e entries)
  obtain vid code where e: "e = (vid, code)" by (cases e)
  from heap_replace_top_Inr [OF Cons.prems, of m simi "pq_dis env key cd code" vid]
  obtain simi' where "heap_replace_top m topk simi (pq_dis env key cd code) vid = Inr simi'"
    by blast
  then show ?case using Cons.IH [OF Cons.prems] by (simp add: e)
qed

lemma scan_one_list_Inr:
  assumes "0 < topk"
  shows "\<exists>h. scan_one_list env m key cd simi topk = Inr (list_codes env key, h)"
proof -
  from scan_codes_Inr [OF assms, of env m key cd "invlists env key" simi]
  obtain h where "scan_codes env m key cd (invlists env key) simi topk = Inr h" by blast
  then show ?thesis by (simp add: scan_one_list_def list_codes_def Let_def)
qed

lemma probe_loop_visited:
  assumes "0 < rn"
  shows "\<exists>n nscan' recall'. n \<le> length probes
     \<and> probe_loop env m rn max_codes probes (nscan, recall, visited)
         = Inr (nscan', recall', visited @ map fst (take n probes))
     \<and> nscan' = nscan + probe_codes env (take n probes)
     \<and> (\<forall>j. 0 < j \<and> j < n \<longrightarrow> \<not> (max_codes \<noteq> 0 \<and> max_codes \<le> nscan + probe_codes env (take j probes)))
     \<and> (n < length probes \<longrightarrow> max_codes \<noteq> 0 \<and> max_codes \<le> nscan')"
proof (induction probes arbitrary: nscan recall visited)
  case Nil
  then show ?case by (simp add: probe_codes_def)
next
  case (Cons p probes)
  obtain ik key cd where p: "p = (ik, key, cd)" by (cases p)
  from scan_one_list_Inr [OF assms, of env m key cd recall]
  obtain recall1 where s: "scan_one_list env m key cd recall rn = Inr (list_codes env key, recall1)"
    by blast
  define nscan1 where "nscan1 = nscan + int (list_codes env key)"
  show ?case
  proof (cases "max_codes \<noteq> 0 \<and> max_codes \<le> nscan1")
    case True
    have "probe_loop env m rn max_codes (p # probes) (nscan, recall, visited)
          = Inr (nscan1, recall1, visited @ map fst (take 1 (p # probes)))"
      using True by (simp add: p s nscan1_def Let_def)
    moreover have "nscan1 = nscan + probe_codes env (take 1 (p # probes))"
      by (simp add: nscan1_def probe_codes_def p)
    ultimately show ?thesis using True
      by - (rule exI [of _ 1], rule exI [of _ nscan1], rule exI [of _ recall1], auto)
  next
    case False
    from Cons.IH [of nscan1 recall1 "visited @ [ik]"] obtain n nscan' recall' where
      n: "n \<le> length probes"
      and r: "probe_loop env m rn max_codes probes (nscan1, recall1, visited @ [ik])
         = Inr (nscan', recall', (visited @ [ik]) @ map fst (take n probes))"
      and ns: "nscan' = nscan1 + probe_codes env (take n probes)"
      and before: "\<forall>j. 0 < j \<and> j < n \<longrightarrow> \<not> (max_codes \<noteq> 0 \<and> max_codes \<le> nscan1 + probe_codes env (take j probes))"
      and stop: "n < length probes \<longrightarrow> max_codes \<noteq> 0 \<and> max_codes \<le> nscan'"
      by blast
    have pc: "nscan + probe_codes env (p # xs) = nscan1 + probe_codes env xs" for xs
      by (simp add: probe_codes_def nscan1_def p)
    have 1: "probe_loop env m rn max_codes (p # probes) (nscan, recall, visited)
          = Inr (nscan', recall', visited @ map fst (take (Suc n) (p # probes)))"
      using False r by (auto simp: p s nscan1_def Let_def)
    have 2: "nscan' = nscan + probe_codes env (take (Suc n) (p # probes))"
      using ns by (simp add: pc)
    have 3: "\<not> (max_codes \<noteq> 0 \<and> max_codes \<le> nscan + probe_codes env (take j (p # probes)))"
      if "0 < j" "j < Suc n" for j
    proof (cases j)
      case 0
      with that show ?thesis by simp
    next
      case (Suc j')
      show ?thesis
      proof (cases "j' = 0")
        case True
        then show ?thesis using False Suc by (simp add: probe_codes_def nscan1_def p)
      next
        case j: False
        then show ?thesis using before that Suc by (simp add: pc)
      qed
    qed
    show ?thesis
      using n 1 2 3 stop
      by - (rule exI [of _ "Suc n"], rule exI [of _ nscan'], rule exI [of _ recall'], auto)
  qed
qed

lemma local_scan_visited:
  assumes "0 < rn"
  shows "\<exists>local'. local_scan env m rn probes (local, visited)
           = Inr (local', visited @ map fst probes)"
proof (induction probes arbitrary: local visited)
  case Nil
  then show ?case by simp
next
  case (Cons p probes)
  obtain ik key cd where p: "p = (ik, key, cd)" by (cases p)
  from scan_one_list_Inr [OF assms, of env m key cd local]
  obtain local1 where s: "scan_one_list env m key cd local rn = Inr (list_codes env key, local1)"
    by blast
  from Cons.IH [of local1 "visited @ [ik]"] show ?case by (simp add: p s)
qed

lemma merge_threads_visited:
  assumes "0 < rn"
  shows "\<exists>recall'. merge_threads env m rn schedule (recall, visited)
           = Inr (recall', visited @ map fst (concat schedule))"
proof (induction schedule arbitrary: recall visited)
  case Nil
  then show ?case by simp
next
  case (Cons t schedule)
  from local_scan_visited [OF assms, of env m t "init_result m rn" visited]
  obtain local where l: "local_scan env m rn t (init_result m rn, visited)
           = Inr (local, visited @ map fst t)" by blast
  from heap_addn_Inr [OF assms, of m recall local]
  obtain recall1 where a: "heap_addn m rn recall local = Inr recall1" by blast
  from Cons.IH [of recall1 "visited @ map fst t"] show ?case by (simp add: l a)
qed

lemma map_fst_probes_of:
  "length coarse_dis = length keys \<Longrightarrow> map fst (probes_of keys coarse_dis) = [0..<length keys]"
  by (simp add: probes_of_def)

lemma probe_codes_probes_of:
  assumes "length coarse_dis = length keys"
  shows "probe_codes env (take j (probes_of keys coarse_dis)) = scanned_before env keys j"
proof -
  have "map (\<lambda>(ik, key, cd). list_codes env key) (zip is (zip ks cs)) = map (list_codes env) ks"
    if "length is = length ks" "length cs = length ks" for "is" :: "nat list" and ks cs
    using that
  proof (induction ks arbitrary: "is" cs)
    case Nil
    then show ?case by simp
  next
    case (Cons k ks)
    then show ?case by (cases "is"; cases cs) auto
  qed
  from this [of "take j [0..<length keys]" "take j keys" "take j coarse_dis"] assms
  show ?thesis
    by (simp add: probe_codes_def scanned_before_def probes_of_def take_zip)
qed

text \<open>
  Claim C8. With \<open>parallel_mode == 0\<close> the probes of a query are scanned in order, \<open>0, 1,
  ..., n - 1\<close>; when \<open>max_codes > 0\<close>, fewer than \<open>max_codes\<close> codes had been scanned before each
  probe that is scanned, so that no list is scanned once the cumulative count has reached
  (a fortiori exceeded) \<open>max_codes\<close>, and the loop stops before the last probe only for this
  reason. With \<open>parallel_mode == 1\<close> the loop has no test on \<open>max_codes\<close>: whatever the
  distribution of the probes over the threads, \<open>scan_one_list\<close> is called for each of the
  \<open>nprobe\<close> probes. (\<open>rn\<close> is \<open>recall_num\<close>, the size of the recall heap.)
\<close>

theorem max_codes_stops_probing:
  assumes "0 < rn" "length coarse_dis = length keys"
  shows "(\<exists>n nscan recall'. n \<le> length keys
            \<and> probe_loop env m rn max_codes (probes_of keys coarse_dis) (0, recall, [])
                = Inr (nscan, recall', [0..<n])
            \<and> nscan = scanned_before env keys n
            \<and> (0 < max_codes \<longrightarrow> (\<forall>j < n. scanned_before env keys j < max_codes))
            \<and> (n < length keys \<longrightarrow> max_codes \<noteq> 0 \<and> max_codes \<le> scanned_before env keys n))
       \<and> (schedule_of schedule keys coarse_dis \<longrightarrow>
            (\<exists>recall' visited. merge_threads env m rn schedule (recall, []) = Inr (recall', visited)
               \<and> mset visited = mset [0..<length keys]))"
proof
  have len: "length (probes_of keys coarse_dis) = length keys"
    using assms by (simp add: probes_of_def)
  from probe_loop_visited [OF assms(1), of "probes_of keys coarse_dis" env m max_codes 0 recall "[]"]
  obtain n nscan' recall' where
    n: "n \<le> length keys"
    and r: "probe_loop env m rn max_codes (probes_of keys coarse_dis) (0, recall, [])
         = Inr (nscan', recall', map fst (take n (probes_of keys coarse_dis)))"
    and ns: "nscan' = scanned_before env keys n"
    and before: "\<forall>j. 0 < j \<and> j < n \<longrightarrow> \<not> (max_codes \<noteq> 0 \<and> max_codes \<le> scanned_before env keys j)"
    and stop: "n < length keys \<longrightarrow> max_codes \<noteq> 0 \<and> max_codes \<le> nscan'"
    unfolding len by (auto simp: probe_codes_probes_of [OF assms(2)])
  have v: "map fst (take n (probes_of keys coarse_dis)) = [0..<n]"
    using n map_fst_probes_of [OF assms(2)] by (simp add: take_map [symmetric] take_upt)
  have b: "scanned_before env keys j < max_codes" if "0 < max_codes" "j < n" for j
  proof (cases "j = 0")
    case True
    then show ?thesis using that by (simp add: scanned_before_def)
  next
    case False
    then show ?thesis using before that by auto
  qed
  show "\<exists>n nscan recall'. n \<le> length keys
            \<and> probe_loop env m rn max_codes (probes_of keys coarse_dis) (0, recall, [])
                = Inr (nscan, recall', [0..<n])
            \<and> nscan = scanned_before env keys n
            \<and> (0 < max_codes \<longrightarrow> (\<forall>j < n. scanned_before env keys j < max_codes))
            \<and> (n < length keys \<longrightarrow> max_codes \<noteq> 0 \<and> max_codes \<le> scanned_before env keys n)"
    using n r ns b stop unfolding v by blast
next
  show "schedule_of schedule keys coarse_dis \<longrightarrow>
            (\<exists>recall' visited. merge_threads env m rn schedule (recall, []) = Inr (recall', visited)
               \<and> mset visited = mset [0..<length keys])"
  proof
    assume s: "schedule_of schedule keys coarse_dis"
    from merge_threads_visited [OF assms(1), of env m schedule recall "[]"]
    obtain recall' where r: "merge_threads env m rn schedule (recall, [])
           = Inr (recall', map fst (concat schedule))" by auto
    have "mset (map fst (concat schedule)) = mset (map fst (probes_of keys coarse_dis))"
      using arg_cong [OF s [unfolded schedule_of_def], of "image_mset fst"] by simp
    then have "mset (map fst (concat schedule)) = mset [0..<length keys]"
      by (simp only: map_fst_probes_of [OF assms(2)])
    with r show "\<exists>recall' visited. merge_threads env m rn schedule (recall, []) = Inr (recall', visited)
               \<and> mset visited = mset [0..<length keys]" by blast
  qed
qed


theorem max_codes_stops_probing_witness:
  "probe_loop example_scan_env METRIC_L2 2 2 (probes_of [0, 1, 2] [0, 0, 0])
       (0, init_result METRIC_L2 2, []) = Inr (2, [(1, 8), (1 / 2, 7)], [0])
   \<and> scanned_before example_scan_env [0, 1, 2] 0 = 0
   \<and> scanned_before example_scan_env [0, 1, 2] 1 = 2
   \<and> merge_threads example_scan_env METRIC_L2 2 [[(1, 1, 0)], [(0, 0, 0), (2, 2, 0)]]
       (init_result METRIC_L2 2, []) = Inr ([(1 / 2, 7), (0, 9)], [1, 0, 2])
   \<and> mset [1, 0, 2] = mset [0..<length [0 :: int, 1, 2]]"
proof -
  have a: "probe_loop example_scan_env METRIC_L2 2 2 (probes_of [0, 1, 2] [0, 0, 0])
       (0, init_result METRIC_L2 2, []) = Inr (2, [(1, 8), (1 / 2, 7)], [0])"
    by code_simp
  have b: "scanned_before example_scan_env [0, 1, 2] 0 = 0"
    "scanned_before example_scan_env [0, 1, 2] 1 = 2"
    by code_simp+
  have c: "merge_threads example_scan_env METRIC_L2 2 [[(1, 1, 0)], [(0, 0, 0), (2, 2, 0)]]
       (init_result METRIC_L2 2, []) = Inr ([(1 / 2, 7), (0, 9)], [1, 0, 2])"
    by code_simp
  have s: "schedule_of [[(1, 1, 0)], [(0, 0, 0), (2, 2, 0)]] [0, 1, 2] [0, 0, 0]"
    by (simp add: schedule_of_def probes_of_def upt_conv_Cons)
  have "0 < (2 :: nat)" "length [0 :: real, 0, 0] = length [0 :: int, 1, 2]" by simp_all
  note th = max_codes_stops_probing [OF this, of example_scan_env METRIC_L2 2
      "init_result METRIC_L2 2" "[[(1, 1, 0)], [(0, 0, 0), (2, 2, 0)]]"]
  from th s c have "mset [1, 0, 2] = mset [0..<length [0 :: int, 1, 2]]"
    by auto
  with a b c show ?thesis by simp
qed

section \<open>The heap order and the selection of the best entries\<close>

subsection \<open>The comparators\<close>


lemma cmp_irrefl: "\<not> cmp m a a"
  by (cases m) (simp_all add: cmp_def)

lemma cmp_asym: "cmp m a b \<Longrightarrow> \<not> cmp m b a"
  by (cases m) (simp_all add: cmp_def)

lemma cmp_trans: "cmp m a b \<Longrightarrow> cmp m b c \<Longrightarrow> cmp m a c"
  by (cases m) (simp_all add: cmp_def)

lemma ncmp_trans: "\<not> cmp m a b \<Longrightarrow> \<not> cmp m b c \<Longrightarrow> \<not> cmp m a c"
  by (cases m) (simp_all add: cmp_def)

lemma ncmp_cmp_trans: "\<not> cmp m a b \<Longrightarrow> cmp m c b \<Longrightarrow> \<not> cmp m a c"
  by (cases m) (simp_all add: cmp_def)

lemma cmp_ncmp_trans: "cmp m a b \<Longrightarrow> \<not> cmp m c b \<Longrightarrow> cmp m a c"
  by (cases m) (simp_all add: cmp_def)

lemma ncmp_antisym: "\<not> cmp m a b \<Longrightarrow> \<not> cmp m b a \<Longrightarrow> a = b"
  by (cases m) (simp_all add: cmp_def)

subsection \<open>\<open>heap_pop\<close> and \<open>heap_push\<close> keep the heap order\<close>

lemma heap_val_update:
  "0 < i \<Longrightarrow> 0 < j \<Longrightarrow> i \<le> length b \<Longrightarrow>
   heap_val (b[i - 1 := x]) j = (if j = i then fst x else heap_val b j)"
  by (auto simp: heap_val_def nth_list_update)

lemma is_heap_mono: "is_heap m n bh \<Longrightarrow> n' \<le> n \<Longrightarrow> is_heap m n' bh"
  by (simp add: is_heap_def)

lemma is_heap_root_worst:
  assumes "is_heap m n bh" "0 < j" "j \<le> n"
  shows "\<not> cmp m (heap_val bh j) (heap_val bh 1)"
  using assms(2,3)
proof (induction j rule: less_induct)
  case (less j)
  show ?case
  proof (cases "j = 1")
    case True
    then show ?thesis by (simp add: cmp_irrefl)
  next
    case False
    then have j2: "2 \<le> j" using less.prems by simp
    then have "\<not> cmp m (heap_val bh j) (heap_val bh (j div 2))"
      using assms(1) less.prems by (simp add: is_heap_def)
    moreover have "\<not> cmp m (heap_val bh (j div 2)) (heap_val bh 1)"
      using less.IH [of "j div 2"] j2 less.prems by simp
    ultimately show ?thesis by (rule ncmp_trans)
  qed
qed

lemma init_result_is_heap: "is_heap m k (init_result m k)"
  unfolding is_heap_def
proof (intro allI impI)
  fix j assume j: "2 \<le> j \<and> j \<le> k"
  then have "j - 1 < k" "j div 2 - 1 < k" by auto
  then have "heap_val (init_result m k) j = heap_val (init_result m k) (j div 2)"
    by (simp add: heap_val_def init_result_def)
  then show "\<not> cmp m (heap_val (init_result m k) j) (heap_val (init_result m k) (j div 2))"
    by (simp add: cmp_irrefl)
qed

lemma pop_child_props:
  assumes "0 < i" "2 * i \<le> k"
  shows "pop_child m k b i div 2 = i" "i < pop_child m k b i" "pop_child m k b i \<le> k"
    and "\<And>j. j div 2 = i \<Longrightarrow> j \<le> k \<Longrightarrow>
           \<not> cmp m (heap_val b j) (heap_val b (pop_child m k b i))"
proof -
  show "pop_child m k b i div 2 = i" "i < pop_child m k b i" "pop_child m k b i \<le> k"
    using assms by (auto simp: pop_child_def)
  fix j assume j: "j div 2 = i" "j \<le> k"
  then have jc: "j = 2 * i \<or> j = 2 * i + 1" by auto
  show "\<not> cmp m (heap_val b j) (heap_val b (pop_child m k b i))"
  proof (cases "2 * i = k \<or> cmp m (fst (b ! (2 * i - 1))) (fst (b ! (2 * i)))")
    case True
    then have c: "pop_child m k b i = 2 * i" by (simp add: pop_child_def)
    show ?thesis
    proof (cases "j = 2 * i")
      case True
      then show ?thesis by (simp add: c cmp_irrefl)
    next
      case False
      then have j1: "j = 2 * i + 1" using jc by simp
      then have "cmp m (fst (b ! (2 * i - 1))) (fst (b ! (2 * i)))" using True j by auto
      then have "\<not> cmp m (fst (b ! (2 * i))) (fst (b ! (2 * i - 1)))" by (rule cmp_asym)
      then show ?thesis by (simp add: c j1 heap_val_def)
    qed
  next
    case False
    then have c: "pop_child m k b i = 2 * i + 1" by (simp add: pop_child_def)
    show ?thesis
    proof (cases "j = 2 * i")
      case True
      then show ?thesis using False by (simp add: c heap_val_def)
    next
      case f: False
      then have "j = 2 * i + 1" using jc by simp
      then show ?thesis by (simp add: c cmp_irrefl)
    qed
  qed
qed

lemma heap_pop_is_heap:
  assumes "0 < k" "k \<le> length bh" "is_heap m k bh"
  shows "is_heap m (k - 1) (heap_pop m k bh)"
proof -
  define val where "val = fst (bh ! (k - 1))"
  define I where "I = (\<lambda>b i. length b = length bh \<and> 0 < i \<and> i \<le> k \<and> is_heap m k b
      \<and> heap_val b k = val \<and> (1 < i \<longrightarrow> \<not> cmp m val (heap_val b i)))"
  have I0: "I bh 1" using assms by (simp add: I_def val_def heap_val_def)
  have Istep: "I (b[i - 1 := b ! (pop_child m k b i - 1)]) (pop_child m k b i)"
    if Ib: "I b i" and i: "0 < i" "2 * i \<le> k"
      and nc: "\<not> cmp m val (fst (b ! (pop_child m k b i - 1)))" for b i
  proof -
    define c where "c = pop_child m k b i"
    note cp = pop_child_props [OF i, where m = m and b = b, folded c_def]
    from Ib have len: "length b = length bh" and hp: "is_heap m k b" and vk: "heap_val b k = val"
      by (simp_all add: I_def)
    define b' where "b' = b[i - 1 := b ! (c - 1)]"
    have hv: "heap_val b' j = (if j = i then heap_val b c else heap_val b j)" if "0 < j" for j
      unfolding b'_def using heap_val_update [OF i(1) that, of b "b ! (c - 1)"] i len assms
      by (simp add: heap_val_def)
    have "is_heap m k b'"
      unfolding is_heap_def
    proof (intro allI impI)
      fix j assume j: "2 \<le> j \<and> j \<le> k"
      then have jp: "0 < j" "0 < j div 2" by auto
      from hp j have old: "\<not> cmp m (heap_val b j) (heap_val b (j div 2))"
        by (simp add: is_heap_def)
      show "\<not> cmp m (heap_val b' j) (heap_val b' (j div 2))"
      proof (cases "j = i")
        case True
        have "2 \<le> c \<and> c \<le> k" using cp i by simp
        then have "\<not> cmp m (heap_val b c) (heap_val b (c div 2))"
          using hp by (simp add: is_heap_def)
        then have "\<not> cmp m (heap_val b c) (heap_val b i)"
          using cp by simp
        then have "\<not> cmp m (heap_val b c) (heap_val b (j div 2))"
          using old True by (metis ncmp_trans)
        then show ?thesis using True jp j by (simp add: hv cmp_irrefl)
      next
        case False
        show ?thesis
        proof (cases "j div 2 = i")
          case True
          then show ?thesis using cp(4) [of j] j False jp by (simp add: hv cmp_irrefl)
        next
          case f: False
          then show ?thesis using old False jp by (simp add: hv cmp_irrefl)
        qed
      qed
    qed
    moreover have "heap_val b' k = val"
      using vk cp assms by (simp add: hv cmp_irrefl)
    moreover have "\<not> cmp m val (heap_val b' c)"
    proof -
      have "heap_val b' c = heap_val b c" using hv [of c] cp i by simp
      moreover have "\<not> cmp m val (heap_val b c)" using nc by (simp add: c_def heap_val_def)
      ultimately show ?thesis by simp
    qed
    ultimately show ?thesis
      using cp i len unfolding c_def [symmetric] b'_def [symmetric] by (simp add: I_def b'_def)
  qed
  obtain b' i' where r: "heap_pop_loop m k val bh 1 = (b', i')"
    by (cases "heap_pop_loop m k val bh 1")
  have "case heap_pop_loop m k val bh 1 of (bh', i') \<Rightarrow>
           I bh' i' \<and> (2 * i' > k \<or> i' = 0 \<or> cmp m val (fst (bh' ! (pop_child m k bh' i' - 1))))"
    by (rule heap_pop_loop_rule [where I = I, OF I0]) (rule Istep)
  then have I': "I b' i'"
    and ex: "2 * i' > k \<or> i' = 0 \<or> cmp m val (fst (b' ! (pop_child m k b' i' - 1)))"
    unfolding r by simp_all
  from I' have len: "length b' = length bh" and i': "0 < i'" "i' \<le> k" and hp: "is_heap m k b'"
    and vk: "heap_val b' k = val" and up: "1 < i' \<longrightarrow> \<not> cmp m val (heap_val b' i')"
    by (simp_all add: I_def)
  have res: "heap_pop m k bh = b'[i' - 1 := b' ! (k - 1)]"
    unfolding heap_pop_def Let_def val_def [symmetric] r by simp
  define b'' where "b'' = b'[i' - 1 := b' ! (k - 1)]"
  have hv: "heap_val b'' j = (if j = i' then val else heap_val b' j)" if "0 < j" for j
    unfolding b''_def using heap_val_update [OF i'(1) that, of b' "b' ! (k - 1)"] i' len assms vk
    by (simp add: heap_val_def)
  have "is_heap m k b''"
    unfolding is_heap_def
  proof (intro allI impI)
    fix j assume j: "2 \<le> j \<and> j \<le> k"
    then have jp: "0 < j" "0 < j div 2" by auto
    from hp j have old: "\<not> cmp m (heap_val b' j) (heap_val b' (j div 2))"
      by (simp add: is_heap_def)
    show "\<not> cmp m (heap_val b'' j) (heap_val b'' (j div 2))"
    proof (cases "j = i'")
      case True
      then have "\<not> cmp m val (heap_val b' i')" using up j by simp
      then have "\<not> cmp m val (heap_val b' (j div 2))" using old True by (metis ncmp_trans)
      then show ?thesis using True jp j by (simp add: hv cmp_irrefl)
    next
      case False
      show ?thesis
      proof (cases "j div 2 = i'")
        case True
        then have ch: "2 * i' \<le> k" using j by auto
        with ex i' have cv: "cmp m val (heap_val b' (pop_child m k b' i'))"
          by (simp add: heap_val_def)
        have "\<not> cmp m (heap_val b' j) (heap_val b' (pop_child m k b' i'))"
          using pop_child_props(4) [OF i'(1) ch True, where m = m and b = b'] j by simp
        then have "\<not> cmp m (heap_val b' j) val" using cv by (rule ncmp_cmp_trans)
        then show ?thesis using True False jp by (simp add: hv cmp_irrefl)
      next
        case f: False
        then show ?thesis using old False jp by (simp add: hv cmp_irrefl)
      qed
    qed
  qed
  then show ?thesis unfolding res b''_def [symmetric] by (rule is_heap_mono) simp
qed


lemma heap_push_is_heap:
  assumes "0 < k" "k \<le> length bh" "is_heap m (k - 1) bh"
  shows "is_heap m k (heap_push m k bh val ids)"
proof -
  define I where "I = (\<lambda>b i. length b = length bh \<and> 0 < i \<and> i \<le> k
      \<and> (\<forall>j. 2 \<le> j \<and> j \<le> k \<and> j \<noteq> i \<longrightarrow> \<not> cmp m (heap_val b j) (heap_val b (j div 2)))
      \<and> (\<forall>j. j \<le> k \<and> j div 2 = i \<longrightarrow> \<not> cmp m (heap_val b j) val)
      \<and> (\<forall>j. j \<le> k \<and> j div 2 = i \<and> 2 \<le> i \<longrightarrow> \<not> cmp m (heap_val b j) (heap_val b (i div 2))))"
  have I0: "I bh k"
    using assms by (auto simp: I_def is_heap_def)
  have Istep: "I (b[i - 1 := b ! (i div 2 - 1)]) (i div 2)"
    if Ib: "I b i" and i: "1 < i" and c: "cmp m val (fst (b ! (i div 2 - 1)))" for b i
  proof -
    define f where "f = i div 2"
    have f: "0 < f" "f < i" "2 \<le> i" using i by (auto simp: f_def)
    from Ib have len: "length b = length bh" and ik: "i \<le> k"
      and I1: "\<And>j. 2 \<le> j \<Longrightarrow> j \<le> k \<Longrightarrow> j \<noteq> i \<Longrightarrow> \<not> cmp m (heap_val b j) (heap_val b (j div 2))"
      and I2: "\<And>j. j \<le> k \<Longrightarrow> j div 2 = i \<Longrightarrow> \<not> cmp m (heap_val b j) val"
      and I3: "\<And>j. j \<le> k \<Longrightarrow> j div 2 = i \<Longrightarrow> \<not> cmp m (heap_val b j) (heap_val b (i div 2))"
      using i by (auto simp: I_def)
    define b' where "b' = b[i - 1 := b ! (f - 1)]"
    have ipos: "0 < i" using i by simp
    have hv: "heap_val b' j = (if j = i then heap_val b f else heap_val b j)" if "0 < j" for j
      unfolding b'_def using heap_val_update [OF ipos that, of b "b ! (f - 1)"] ik len assms
      by (simp add: heap_val_def)
    have cv: "cmp m val (heap_val b f)" using c by (simp add: f_def heap_val_def)
    have J1: "\<not> cmp m (heap_val b' j) (heap_val b' (j div 2))"
      if j: "2 \<le> j" "j \<le> k" "j \<noteq> f" for j
    proof -
      have jp: "0 < j" "0 < j div 2" using j by auto
      show ?thesis
      proof (cases "j = i")
        case True
        then show ?thesis using jp f by (simp add: hv f_def cmp_irrefl)
      next
        case False
        show ?thesis
        proof (cases "j div 2 = i")
          case True
          then show ?thesis using I3 [of j] j jp False by (simp add: hv f_def)
        next
          case p: False
          then show ?thesis using I1 [of j] j jp False by (simp add: hv)
        qed
      qed
    qed
    have J2: "\<not> cmp m (heap_val b' j) val" if j: "j \<le> k" "j div 2 = f" for j
    proof -
      have jp: "0 < j" "2 \<le> j" using j f by auto
      show ?thesis
      proof (cases "j = i")
        case True
        then show ?thesis using jp cv by (simp add: hv cmp_asym)
      next
        case False
        then have "\<not> cmp m (heap_val b j) (heap_val b f)" using I1 [of j] j jp by simp
        then have "\<not> cmp m (heap_val b j) val" using cv by (rule ncmp_cmp_trans)
        then show ?thesis using False jp by (simp add: hv)
      qed
    qed
    have J3: "\<not> cmp m (heap_val b' j) (heap_val b' (f div 2))"
      if j: "j \<le> k" "j div 2 = f" "2 \<le> f" for j
    proof -
      have jp: "0 < j" "2 \<le> j" "0 < f div 2" "f div 2 \<noteq> i" using j f by auto
      have ff: "\<not> cmp m (heap_val b f) (heap_val b (f div 2))"
        using I1 [of f] j f ik by simp
      show ?thesis
      proof (cases "j = i")
        case True
        then show ?thesis using jp ff by (simp add: hv)
      next
        case False
        then have "\<not> cmp m (heap_val b j) (heap_val b f)" using I1 [of j] j jp by simp
        then have "\<not> cmp m (heap_val b j) (heap_val b (f div 2))" using ff by (rule ncmp_trans)
        then show ?thesis using False jp by (simp add: hv)
      qed
    qed
    have "length b' = length bh" "0 < f" "f \<le> k"
      using len f ik by (simp_all add: b'_def)
    then show ?thesis
      unfolding f_def [symmetric] b'_def [symmetric] I_def using J1 J2 J3 by blast
  qed
  obtain b' i' where r: "heap_push_loop m val bh k = (b', i')"
    by (cases "heap_push_loop m val bh k")
  have "case heap_push_loop m val bh k of (bh', i') \<Rightarrow>
           I bh' i' \<and> (i' \<le> 1 \<or> \<not> cmp m val (fst (bh' ! (i' div 2 - 1))))"
    by (rule heap_push_loop_rule [where I = I, OF I0]) (rule Istep)
  then have I': "I b' i'" and ex: "i' \<le> 1 \<or> \<not> cmp m val (fst (b' ! (i' div 2 - 1)))"
    unfolding r by simp_all
  from I' have len: "length b' = length bh" and i': "0 < i'" "i' \<le> k"
    and I1: "\<And>j. 2 \<le> j \<Longrightarrow> j \<le> k \<Longrightarrow> j \<noteq> i' \<Longrightarrow> \<not> cmp m (heap_val b' j) (heap_val b' (j div 2))"
    and I2: "\<And>j. j \<le> k \<Longrightarrow> j div 2 = i' \<Longrightarrow> \<not> cmp m (heap_val b' j) val"
    by (auto simp: I_def)
  have res: "heap_push m k bh val ids = b'[i' - 1 := (val, ids)]"
    unfolding heap_push_def r by simp
  define b'' where "b'' = b'[i' - 1 := (val, ids)]"
  have hv: "heap_val b'' j = (if j = i' then val else heap_val b' j)" if "0 < j" for j
    unfolding b''_def using heap_val_update [OF i'(1) that, of b' "(val, ids)"] i' len assms
    by simp
  have "is_heap m k b''"
    unfolding is_heap_def
  proof (intro allI impI)
    fix j assume j: "2 \<le> j \<and> j \<le> k"
    then have jp: "0 < j" "0 < j div 2" by auto
    show "\<not> cmp m (heap_val b'' j) (heap_val b'' (j div 2))"
    proof (cases "j = i'")
      case True
      then have "\<not> cmp m val (heap_val b' (j div 2))" using ex j by (simp add: heap_val_def)
      then show ?thesis using True jp j by (simp add: hv cmp_irrefl)
    next
      case False
      show ?thesis
      proof (cases "j div 2 = i'")
        case True
        then show ?thesis using I2 [of j] j False jp by (simp add: hv)
      next
        case p: False
        then show ?thesis using I1 [of j] j False jp by (simp add: hv)
      qed
    qed
  qed
  then show ?thesis unfolding res b''_def .
qed

lemma heap_replace_top_is_heap:
  assumes "heap_replace_top m k simi dis ids = Inr h" "length simi = k" "is_heap m k simi"
  shows "is_heap m k h"
proof -
  from assms have k: "0 < k" by (auto simp: heap_replace_top_def split: if_splits)
  show ?thesis
  proof (cases "cmp m (fst (simi ! 0)) dis")
    case True
    then have h: "h = heap_push m k (heap_pop m k simi) dis ids"
      using assms k by (simp add: heap_replace_top_def)
    have "is_heap m (k - 1) (heap_pop m k simi)"
      using heap_pop_is_heap [OF k _ assms(3)] assms(2) by simp
    moreover have "k \<le> length (heap_pop m k simi)"
      using heap_pop_mset [OF k, of simi m] assms(2) by simp
    ultimately show ?thesis unfolding h using k by (intro heap_push_is_heap)
  next
    case False
    then show ?thesis using assms k by (simp add: heap_replace_top_def)
  qed
qed

subsection \<open>Selections of best entries, as multisets\<close>


lemma diff_diff_single:
  assumes "r \<in># F" "F \<subseteq># A"
  shows "A - (F - {#r#}) = add_mset r (A - F)"
proof (rule multiset_eqI)
  fix a
  have "count F a \<le> count A a" using assms(2) by (simp add: mset_subset_eq_count)
  moreover have "1 \<le> count F r" using assms(1) by (simp add: Suc_le_eq)
  ultimately show "count (A - (F - {#r#})) a = count (add_mset r (A - F)) a"
    by (cases "a = r") auto
qed

lemma top_k_replace:
  assumes "top_k m A F" "r \<in># F" "\<forall>x \<in># F. \<not> cmp m (fst x) (fst r)" "cmp m (fst r) (fst z)"
  shows "top_k m (add_mset z A) (add_mset z (F - {#r#}))"
proof -
  from assms(1) have sub: "F \<subseteq># A"
    and tk: "\<And>x y. x \<in># F \<Longrightarrow> y \<in># A - F \<Longrightarrow> \<not> cmp m (fst x) (fst y)"
    by (auto simp: top_k_def)
  have d: "add_mset z A - add_mset z (F - {#r#}) = add_mset r (A - F)"
    using diff_diff_single [OF assms(2) sub] by simp
  have s: "add_mset z (F - {#r#}) \<subseteq># add_mset z A"
    using sub by (meson diff_subset_eq_self mset_subset_eq_add_mset_cancel subset_mset.order_trans)
  have "\<not> cmp m (fst x) (fst y)"
    if x: "x \<in># add_mset z (F - {#r#})" and y: "y \<in># add_mset r (A - F)" for x y
  proof -
    from x have x': "x = z \<or> x \<in># F" by (auto dest: in_diffD)
    from y have y': "y = r \<or> y \<in># A - F" by auto
    show ?thesis
    proof (cases "x = z")
      case True
      show ?thesis
      proof (cases "y = r")
        case True
        then show ?thesis using \<open>x = z\<close> assms(4) by (simp add: cmp_asym)
      next
        case False
        then have "y \<in># A - F" using y' by simp
        then have "\<not> cmp m (fst r) (fst y)" using tk [OF assms(2)] by simp
        then show ?thesis using assms(4) True
          by (cases m) (auto simp: cmp_def)
      qed
    next
      case False
      then have xF: "x \<in># F" using x' by simp
      show ?thesis
      proof (cases "y = r")
        case True
        then show ?thesis using assms(3) xF by simp
      next
        case False
        then have "y \<in># A - F" using y' by simp
        then show ?thesis using tk [OF xF] by simp
      qed
    qed
  qed
  then show ?thesis unfolding top_k_def d using s by blast
qed

lemma top_k_keep:
  assumes "top_k m A F" "r \<in># F" "\<forall>x \<in># F. \<not> cmp m (fst x) (fst r)" "\<not> cmp m (fst r) (fst z)"
  shows "top_k m (add_mset z A) F"
proof -
  from assms(1) have sub: "F \<subseteq># A"
    and tk: "\<And>x y. x \<in># F \<Longrightarrow> y \<in># A - F \<Longrightarrow> \<not> cmp m (fst x) (fst y)"
    by (auto simp: top_k_def)
  have d: "add_mset z A - F = add_mset z (A - F)"
  proof (rule multiset_eqI)
    fix a
    have "count F a \<le> count A a" using sub by (simp add: mset_subset_eq_count)
    then show "count (add_mset z A - F) a = count (add_mset z (A - F)) a" by auto
  qed
  have "\<not> cmp m (fst x) (fst y)" if x: "x \<in># F" and y: "y \<in># add_mset z (A - F)" for x y
  proof (cases "y = z")
    case True
    have "\<not> cmp m (fst x) (fst r)" using assms(3) x by simp
    then show ?thesis using assms(4) True by (metis ncmp_trans)
  next
    case False
    then show ?thesis using tk [OF x] y by simp
  qed
  moreover have "F \<subseteq># add_mset z A"
    using sub by (metis add_mset_add_single mset_subset_eq_add_left subset_mset.order_trans)
  ultimately show ?thesis unfolding top_k_def d by blast
qed

lemma top_k_unique:
  assumes "top_k m A F" "top_k m A G" "size F = size G"
    and inj: "\<forall>x \<in># A. \<forall>y \<in># A. fst x = fst y \<longrightarrow> x = y"
  shows "F = G"
proof (rule ccontr)
  assume ne: "F \<noteq> G"
  from assms(1) have subF: "F \<subseteq># A"
    and tkF: "\<And>x y. x \<in># F \<Longrightarrow> y \<in># A - F \<Longrightarrow> \<not> cmp m (fst x) (fst y)"
    by (auto simp: top_k_def)
  from assms(2) have subG: "G \<subseteq># A"
    and tkG: "\<And>x y. x \<in># G \<Longrightarrow> y \<in># A - G \<Longrightarrow> \<not> cmp m (fst x) (fst y)"
    by (auto simp: top_k_def)
  have "\<not> F \<subseteq># G"
    using ne assms(3) by (metis mset_subset_size subset_mset.less_le size_mset_mono nat_less_le)
  then obtain x where x: "count G x < count F x"
    by (meson mset_subset_eqI not_le)
  have "\<not> G \<subseteq># F"
    using ne assms(3) by (metis mset_subset_size subset_mset.less_le size_mset_mono nat_less_le)
  then obtain y where y: "count F y < count G y"
    by (meson mset_subset_eqI not_le)
  have cA: "count F a \<le> count A a" "count G a \<le> count A a" for a
    using subF subG by (simp_all add: mset_subset_eq_count)
  have xF: "x \<in># F" using x by (metis count_greater_zero_iff less_nat_zero_code neq0_conv)
  have yG: "y \<in># G" using y by (metis count_greater_zero_iff less_nat_zero_code neq0_conv)
  have xAG: "x \<in># A - G" using x cA [of x] by (simp add: count_greater_zero_iff [symmetric] del: count_greater_zero_iff)
  have yAF: "y \<in># A - F" using y cA [of y] by (simp add: count_greater_zero_iff [symmetric] del: count_greater_zero_iff)
  have "\<not> cmp m (fst x) (fst y)" using tkF [OF xF yAF] .
  moreover have "\<not> cmp m (fst y) (fst x)" using tkG [OF yG xAG] .
  ultimately have "fst x = fst y" by (rule ncmp_antisym)
  moreover have "x \<in># A" "y \<in># A" using xF yG subF subG by (auto dest: mset_subset_eqD)
  ultimately have "x = y" using inj by blast
  with x y show False by simp
qed


lemma top_k_refine:
  assumes "top_k m A R" "L \<subseteq># A" "top_k m B L" "size L = size R"
  shows "top_k m (A + (B - L)) R"
proof -
  from assms(1) have subR: "R \<subseteq># A"
    and tkR: "\<And>x y. x \<in># R \<Longrightarrow> y \<in># A - R \<Longrightarrow> \<not> cmp m (fst x) (fst y)"
    by (auto simp: top_k_def)
  from assms(3) have tkL: "\<And>x y. x \<in># L \<Longrightarrow> y \<in># B - L \<Longrightarrow> \<not> cmp m (fst x) (fst y)"
    by (auto simp: top_k_def)
  have d: "A + (B - L) - R = (A - R) + (B - L)"
  proof (rule multiset_eqI)
    fix a
    have "count R a \<le> count A a" using subR by (simp add: mset_subset_eq_count)
    then show "count (A + (B - L) - R) a = count ((A - R) + (B - L)) a" by auto
  qed
  have "\<not> cmp m (fst x) (fst y)" if x: "x \<in># R" and y: "y \<in># (A - R) + (B - L)" for x y
  proof (cases "y \<in># A - R")
    case True
    then show ?thesis using tkR [OF x] by simp
  next
    case False
    then have yB: "y \<in># B - L" using y by auto
    show ?thesis
    proof
      assume c: "cmp m (fst x) (fst y)"
      have worse: "cmp m (fst x) (fst l)" if "l \<in># L" for l
        using tkL [OF that yB] c by (metis cmp_ncmp_trans)
      have "count L a \<le> count R a" for a
      proof (cases "a \<in># L")
        case True
        have "\<not> a \<in># A - R" using tkR [OF x, of a] worse [OF True] by blast
        then have "count A a \<le> count R a"
          by (metis count_diff count_greater_zero_iff not_le zero_less_diff)
        moreover have "count L a \<le> count A a" using assms(2) by (simp add: mset_subset_eq_count)
        ultimately show ?thesis by simp
      next
        case False
        then show ?thesis by (simp add: not_in_iff)
      qed
      then have LR: "L \<subseteq># R" by (simp add: mset_subset_eqI)
      have "x \<notin># L" using worse [of x] by (auto simp: cmp_irrefl)
      then have "L \<noteq> R" using x by auto
      then have "L \<subset># R" using LR by (simp add: subset_mset.less_le)
      then have "size L < size R" by (rule mset_subset_size)
      then show False using assms(4) by simp
    qed
  qed
  moreover have "R \<subseteq># A + (B - L)"
    using subR by (simp add: subset_mset.add_increasing2)
  ultimately show ?thesis unfolding top_k_def d by blast
qed

lemma top_k_shrink:
  assumes "top_k m (A + E) F" "F \<subseteq># A"
  shows "top_k m A F"
proof -
  have "A - F \<subseteq># A + E - F"
    by (rule mset_subset_eqI) simp
  then have "y \<in># A + E - F" if "y \<in># A - F" for y
    using that by (rule mset_subset_eqD)
  then show ?thesis using assms by (auto simp: top_k_def)
qed

subsection \<open>The heaps select the best candidates\<close>


lemma init_heap_ok: "heap_ok m k {#} (init_result m k)"
  by (simp add: heap_ok_def init_result_is_heap top_k_def) (simp add: init_result_def cmp_irrefl)

lemma heap_ok_root_worst:
  assumes "heap_ok m k X h" "x \<in> set h"
  shows "\<not> cmp m (fst x) (fst (h ! 0))"
proof -
  from assms obtain j where j: "j < k" "h ! j = x"
    by (auto simp: heap_ok_def in_set_conv_nth)
  have "\<not> cmp m (heap_val h (Suc j)) (heap_val h 1)"
    using is_heap_root_worst [of m k h "Suc j"] assms(1) j by (simp add: heap_ok_def)
  then show ?thesis using j by (simp add: heap_val_def)
qed

lemma better_than_root_ok:
  "cmp m r z \<Longrightarrow> \<not> cmp m r n \<Longrightarrow> \<not> cmp m z n"
  by (cases m) (simp_all add: cmp_def)

lemma heap_replace_top_ok:
  assumes "heap_ok m k X simi" "heap_replace_top m k simi dis ids = Inr h"
  shows "heap_ok m k (add_mset (dis, ids) X) h"
proof -
  from assms(2) have k: "0 < k" by (auto simp: heap_replace_top_def split: if_splits)
  from assms(1) have len: "length simi = k" and hp: "is_heap m k simi"
    and tk: "top_k m (mset (init_result m k) + X) (mset simi)"
    and nb: "\<forall>x \<in> set simi. \<not> cmp m (fst x) (neutral m)"
    by (simp_all add: heap_ok_def)
  have r: "simi ! 0 \<in># mset simi" using k len by simp
  have w: "\<forall>x \<in># mset simi. \<not> cmp m (fst x) (fst (simi ! 0))"
    using heap_ok_root_worst [OF assms(1)] by simp
  note ms = heap_replace_top_mset [OF assms(2) len]
  have hh: "is_heap m k h" by (rule heap_replace_top_is_heap [OF assms(2) len hp])
  show ?thesis
  proof (cases "cmp m (fst (simi ! 0)) dis")
    case True
    with ms have m1: "mset h = add_mset (dis, ids) (mset simi - {#simi ! 0#})" and lh: "length h = k"
      by simp_all
    have "top_k m (add_mset (dis, ids) (mset (init_result m k) + X)) (mset h)"
      unfolding m1 using top_k_replace [OF tk r w, of "(dis, ids)"] True by simp
    moreover have "\<not> cmp m (fst (simi ! 0)) (neutral m)" using nb r by simp
    then have "\<not> cmp m dis (neutral m)"
      using True by (metis better_than_root_ok)
    then have "\<forall>x \<in> set h. \<not> cmp m (fst x) (neutral m)"
      using nb heap_replace_top_set [OF assms(2) len] by auto
    ultimately show ?thesis using lh hh by (simp add: heap_ok_def)
  next
    case False
    with ms have "h = simi" by simp
    moreover have "top_k m (add_mset (dis, ids) (mset (init_result m k) + X)) (mset simi)"
      using top_k_keep [OF tk r w, of "(dis, ids)"] False by simp
    ultimately show ?thesis using len hp nb by (simp add: heap_ok_def)
  qed
qed

lemma heap_addn_ok:
  assumes "heap_ok m k X bh" "heap_addn m k bh xs = Inr h"
  shows "heap_ok m k (X + mset xs) h"
  using assms
proof (induction xs arbitrary: bh X)
  case Nil
  then show ?case by simp
next
  case (Cons x xs)
  obtain v i where x: "x = (v, i)" by (cases x)
  from Cons.prems(2) obtain bh' where
    r: "heap_replace_top m k bh v i = Inr bh'" and rest: "heap_addn m k bh' xs = Inr h"
    by (auto simp: x split: sum.splits)
  from Cons.IH [OF heap_replace_top_ok [OF Cons.prems(1) r] rest]
  show ?case by (simp add: x)
qed

lemma scan_codes_ok:
  assumes "heap_ok m k X simi" "scan_codes env m key cd entries simi k = Inr h"
  shows "heap_ok m k (X + entries_cands env key cd entries) h"
  using assms
proof (induction entries arbitrary: simi X)
  case Nil
  then show ?case by (simp add: entries_cands_def)
next
  case (Cons e entries)
  obtain vid code where e: "e = (vid, code)" by (cases e)
  show ?case
  proof (cases "vec_filter env vid")
    case True
    then show ?thesis using Cons.IH [OF Cons.prems(1)] Cons.prems(2)
      by (simp add: e entries_cands_def)
  next
    case False
    with Cons.prems(2) obtain simi' where
      r: "heap_replace_top m k simi (pq_dis env key cd code) vid = Inr simi'"
      and rest: "scan_codes env m key cd entries simi' k = Inr h"
      by (auto simp: e split: sum.splits)
    from Cons.IH [OF heap_replace_top_ok [OF Cons.prems(1) r] rest]
    show ?thesis using False by (simp add: e entries_cands_def)
  qed
qed

lemma scan_one_list_ok:
  assumes "heap_ok m k X simi" "scan_one_list env m key cd simi k = Inr (sz, h)"
  shows "heap_ok m k (X + list_cands env key cd) h"
proof (cases "key < 0 \<or> length (invlists env key) = 0")
  case True
  then have "h = simi" "list_cands env key cd = {#}"
    using assms(2) by (auto simp: scan_one_list_def list_cands_def entries_cands_def Let_def split: if_splits)
  then show ?thesis using assms(1) by simp
next
  case False
  then have "scan_codes env m key cd (invlists env key) simi k = Inr h"
    using assms(2) by (auto simp: scan_one_list_def Let_def split: sum.splits)
  from scan_codes_ok [OF assms(1) this] show ?thesis using False by (simp add: list_cands_def)
qed

lemma probe_loop_ok:
  assumes "heap_ok m k X recall"
    "probe_loop env m k 0 probes (nscan, recall, visited) = Inr (nscan', recall', visited')"
  shows "heap_ok m k (X + probes_cands env probes) recall'"
  using assms
proof (induction probes arbitrary: nscan recall visited X)
  case Nil
  then show ?case by (simp add: probes_cands_def)
next
  case (Cons p probes)
  obtain ik key cd where p: "p = (ik, key, cd)" by (cases p)
  from Cons.prems(2) obtain sz recall1 where
    s: "scan_one_list env m key cd recall k = Inr (sz, recall1)"
    and rest: "probe_loop env m k 0 probes (nscan + int sz, recall1, visited @ [ik])
                 = Inr (nscan', recall', visited')"
    by (auto simp: p Let_def split: sum.splits)
  from Cons.IH [OF scan_one_list_ok [OF Cons.prems(1) s] rest]
  show ?case by (simp add: p probes_cands_def add.assoc)
qed

lemma local_scan_ok:
  assumes "heap_ok m k X local"
    "local_scan env m k probes (local, visited) = Inr (local', visited')"
  shows "heap_ok m k (X + probes_cands env probes) local'"
  using assms
proof (induction probes arbitrary: local visited X)
  case Nil
  then show ?case by (simp add: probes_cands_def)
next
  case (Cons p probes)
  obtain ik key cd where p: "p = (ik, key, cd)" by (cases p)
  from Cons.prems(2) obtain sz local1 where
    s: "scan_one_list env m key cd local k = Inr (sz, local1)"
    and rest: "local_scan env m k probes (local1, visited @ [ik]) = Inr (local', visited')"
    by (auto simp: p split: sum.splits)
  from Cons.IH [OF scan_one_list_ok [OF Cons.prems(1) s] rest]
  show ?case by (simp add: p probes_cands_def add.assoc)
qed


lemma probes_cands_append:
  "probes_cands env (xs @ ys) = probes_cands env xs + probes_cands env ys"
  by (simp add: probes_cands_def)

lemma probes_cands_perm:
  assumes "mset xs = mset ys"
  shows "probes_cands env xs = probes_cands env ys"
proof -
  have "probes_cands env zs = sum_mset (image_mset (\<lambda>(ik, key, cd). list_cands env key cd) (mset zs))" for zs
    unfolding probes_cands_def by (metis mset_map sum_mset_sum_list)
  then show ?thesis using assms by simp
qed

lemma count_init_result:
  "count (mset (init_result m k)) a = (if a = (neutral m, - 1) then k else 0)"
  by (simp add: init_result_def)

lemma heap_ok_size: "heap_ok m k X h \<Longrightarrow> size (mset h) = k"
  by (simp add: heap_ok_def)

lemma merge_threads_ok:
  assumes "heap_ok m k X recall"
    "merge_threads env m k schedule (recall, visited) = Inr (recall', visited')"
  shows "heap_ok m k (X + probes_cands env (concat schedule)) recall'"
  using assms
proof (induction schedule arbitrary: recall visited X)
  case Nil
  then show ?case by (simp add: probes_cands_def)
next
  case (Cons t schedule)
  define N where "N = mset (init_result m k)"
  define S where "S = probes_cands env t"
  from Cons.prems(2) obtain L v1 recall1 where
    l: "local_scan env m k t (init_result m k, visited) = Inr (L, v1)"
    and a: "heap_addn m k recall L = Inr recall1"
    and rest: "merge_threads env m k schedule (recall1, v1) = Inr (recall', visited')"
    by (auto split: sum.splits)
  have okL: "heap_ok m k S L"
    using local_scan_ok [OF init_heap_ok l] by (simp add: S_def)
  have ok1: "heap_ok m k (X + mset L) recall1" by (rule heap_addn_ok [OF Cons.prems(1) a])
  have tkL: "top_k m (N + S) (mset L)" using okL by (simp add: heap_ok_def N_def)
  then have subL: "mset L \<subseteq># N + S" by (simp add: top_k_def)
  have tk1: "top_k m (N + (X + mset L)) (mset recall1)" using ok1 by (simp add: heap_ok_def N_def)
  have sz: "size (mset L) = size (mset recall1)"
    using heap_ok_size [OF okL] heap_ok_size [OF ok1] by simp
  have "top_k m (N + (X + mset L) + ((N + S) - mset L)) (mset recall1)"
    by (rule top_k_refine [OF tk1 _ tkL sz]) simp
  moreover have "N + (X + mset L) + ((N + S) - mset L) = (N + (X + S)) + N"
  proof -
    have "mset L + ((N + S) - mset L) = N + S"
      using subL by (simp add: subset_mset.add_diff_inverse)
    then have "N + (X + mset L) + ((N + S) - mset L) = N + X + (N + S)"
      by (simp add: add.assoc)
    then show ?thesis by (simp add: ac_simps)
  qed
  ultimately have tk2: "top_k m ((N + (X + S)) + N) (mset recall1)" by simp
  have sub: "mset recall1 \<subseteq># N + (X + S)"
  proof (rule mset_subset_eqI)
    fix a
    have "mset recall1 \<subseteq># (N + (X + S)) + N" using tk2 by (simp add: top_k_def)
    then have le: "count (mset recall1) a \<le> count ((N + (X + S)) + N) a"
      by (rule mset_subset_eq_count)
    show "count (mset recall1) a \<le> count (N + (X + S)) a"
    proof (cases "a = (neutral m, - 1)")
      case True
      have "count (mset recall1) a \<le> size (mset recall1)" by (rule count_le_size)
      also have "\<dots> = k" using heap_ok_size [OF ok1] .
      also have "\<dots> = count N a" using True by (simp add: N_def count_init_result)
      finally show ?thesis by simp
    next
      case False
      then have "count N a = 0" by (simp add: N_def count_init_result)
      then show ?thesis using le by simp
    qed
  qed
  have "top_k m (N + (X + S)) (mset recall1)" by (rule top_k_shrink [OF tk2 sub])
  then have "heap_ok m k (X + S) recall1" using ok1 by (simp add: heap_ok_def N_def)
  from Cons.IH [OF this rest] show ?case
    by (simp add: S_def probes_cands_append add.assoc)
qed

subsection \<open>The result of \<open>compute_dis\<close> as a multiset\<close>


lemma rank_loop_ok:
  assumes "heap_ok m k X simi" "rank_loop condition m k dis_of recall simi = Inr simi'"
  shows "heap_ok m k (X + rank_cands condition dis_of (mset recall)) simi'"
  using assms
proof (induction recall arbitrary: simi X)
  case Nil
  then show ?case by (simp add: rank_cands_def)
next
  case (Cons c recall)
  obtain rs ri where c: "c = (rs, ri)" by (cases c)
  show ?case
  proof (cases "ri \<noteq> - 1 \<and> range_test condition (dis_of ri)")
    case True
    with Cons.prems(2) obtain simi1 where
      r: "heap_replace_top m k simi (dis_of ri) ri = Inr simi1"
      and rest: "rank_loop condition m k dis_of recall simi1 = Inr simi'"
      by (auto simp: c Let_def split: sum.splits)
    from Cons.IH [OF heap_replace_top_ok [OF Cons.prems(1) r] rest]
    show ?thesis using True by (simp add: c rank_cands_def)
  next
    case False
    with Cons.prems(2) have "rank_loop condition m k dis_of recall simi = Inr simi'"
      by (auto simp: c Let_def split: if_splits)
    from Cons.IH [OF Cons.prems(1) this] show ?thesis using False by (auto simp: c rank_cands_def)
  qed
qed

lemma filter_mset_remove_real:
  "x \<in># M \<Longrightarrow> real_entry x \<Longrightarrow> add_mset x (filter_mset real_entry (M - {#x#})) = filter_mset real_entry M"
  by (metis filter_mset_add_mset insert_DiffM)

lemma filter_mset_remove_other:
  "\<not> real_entry x \<Longrightarrow> filter_mset real_entry (M - {#x#}) = filter_mset real_entry M"
  by (metis diff_single_trivial filter_mset_add_mset insert_DiffM)

lemma drop_eq_mono:
  assumes "drop a xs = drop a ys" "a \<le> b"
  shows "drop b xs = drop b ys"
proof -
  have "drop b xs = drop (b - a) (drop a xs)" "drop b ys = drop (b - a) (drop a ys)"
    using assms(2) by simp_all
  then show ?thesis using assms(1) by simp
qed

lemma shift_single:
  "add_mset x G = H \<Longrightarrow> G + add_mset x D = H + D"
  by auto

lemma heap_reorder_loop_mset:
  assumes "k - i = d" "length bh = k" "ii \<le> i" "i \<le> k"
  shows "case heap_reorder_loop m k [i..<k] (bh, ii) of (bh', ii') \<Rightarrow>
           length bh' = k \<and> ii' \<le> k
           \<and> mset (drop (k - ii') bh')
               = filter_mset real_entry (mset (take (k - i) bh)) + mset (drop (k - ii) bh)"
  using assms
proof (induction d arbitrary: i bh ii)
  case 0
  then show ?case by simp
next
  case (Suc d)
  then have ik: "i < k" by simp
  define k' where "k' = k - i"
  have k': "0 < k'" "k' \<le> length bh" using ik Suc.prems by (simp_all add: k'_def)
  obtain val ids where b0: "bh ! 0 = (val, ids)" by (cases "bh ! 0")
  define bh1 where "bh1 = heap_pop m k' bh"
  define bh2 where "bh2 = bh1[k - ii - 1 := (val, ids)]"
  note p = heap_pop_mset [OF k', of m, folded bh1_def]
  have p2: "mset (take (k' - 1) bh1) = mset (take k' bh) - {#bh ! 0#}" using p by blast
  have l1: "length bh1 = k" using p Suc.prems by simp
  have l2: "length bh2 = k" using l1 by (simp add: bh2_def)
  have up: "[i..<k] = i # [Suc i..<k]" using ik by (simp add: upt_conv_Cons)
  have step: "heap_reorder_loop m k [i..<k] (bh, ii)
            = heap_reorder_loop m k [Suc i..<k] (bh2, if ids \<noteq> - 1 then Suc ii else ii)"
    unfolding up by (simp add: b0 Let_def bh2_def bh1_def k'_def)
  have e: "k - Suc i = k' - 1" "k' - 1 \<le> k - ii - 1"
    using Suc.prems ik by (auto simp: k'_def)
  have t2: "take (k - Suc i) bh2 = take (k' - 1) bh1"
    unfolding e(1) bh2_def using e(2) by simp
  have d1: "drop (k - ii) bh1 = drop (k - ii) bh"
  proof (rule drop_eq_mono)
    show "drop (k' - 1) bh1 = drop (k' - 1) bh" using p by simp
    show "k' - 1 \<le> k - ii" using e by simp
  qed
  have d2: "drop (k - ii) bh2 = drop (k - ii) bh"
    using d1 Suc.prems ik by (simp add: bh2_def)
  have in0: "bh ! 0 \<in># mset (take k' bh)"
    using k' by (metis in_set_conv_nth length_take min.absorb2 nth_take set_mset_mset)
  have pre: "k - Suc i = d" "Suc i \<le> k" using Suc.prems ik by simp_all
  show ?case
  proof (cases "ids \<noteq> - 1")
    case True
    have re: "real_entry (bh ! 0)" using True by (simp add: b0 real_entry_def)
    have kk: "k - Suc ii < length bh2" "Suc (k - Suc ii) = k - ii" "k - Suc ii = k - ii - 1"
      using Suc.prems ik l2 by auto
    have "bh2 ! (k - Suc ii) # drop (Suc (k - Suc ii)) bh2 = drop (k - Suc ii) bh2"
      by (rule Cons_nth_drop_Suc [OF kk(1)])
    then have "drop (k - Suc ii) bh2 = bh2 ! (k - ii - 1) # drop (k - ii) bh2"
      unfolding kk(2) unfolding kk(3) by (rule sym)
    also have "bh2 ! (k - ii - 1) = (val, ids)"
      using l1 Suc.prems ik by (simp add: bh2_def)
    finally have d3: "mset (drop (k - Suc ii) bh2) = add_mset (bh ! 0) (mset (drop (k - ii) bh))"
      using d2 by (simp add: b0)
    have "Suc ii \<le> Suc i" using Suc.prems by simp
    note ih = Suc.IH [OF pre(1) l2 this pre(2)]
    obtain bh' ii' where rr: "heap_reorder_loop m k [Suc i..<k] (bh2, Suc ii) = (bh', ii')"
      by (cases "heap_reorder_loop m k [Suc i..<k] (bh2, Suc ii)")
    from ih have a: "length bh' = k" "ii' \<le> k"
      and b: "mset (drop (k - ii') bh')
               = filter_mset real_entry (mset (take (k - Suc i) bh2)) + mset (drop (k - Suc ii) bh2)"
      unfolding rr by blast+
    have "mset (drop (k - ii') bh')
            = filter_mset real_entry (mset (take k' bh) - {#bh ! 0#})
              + add_mset (bh ! 0) (mset (drop (k - ii) bh))"
      unfolding b t2 d3 p2 ..
    also have "\<dots> = filter_mset real_entry (mset (take k' bh)) + mset (drop (k - ii) bh)"
      by (rule shift_single [OF filter_mset_remove_real [OF in0 re]])
    finally show ?thesis
      unfolding step using True a by (simp add: rr k'_def)
  next
    case False
    have re: "\<not> real_entry (bh ! 0)" using False by (simp add: b0 real_entry_def)
    have "ii \<le> Suc i" using Suc.prems by simp
    note ih = Suc.IH [OF pre(1) l2 this pre(2)]
    obtain bh' ii' where rr: "heap_reorder_loop m k [Suc i..<k] (bh2, ii) = (bh', ii')"
      by (cases "heap_reorder_loop m k [Suc i..<k] (bh2, ii)")
    from ih have a: "length bh' = k" "ii' \<le> k"
      and b: "mset (drop (k - ii') bh')
               = filter_mset real_entry (mset (take (k - Suc i) bh2)) + mset (drop (k - ii) bh2)"
      unfolding rr by blast+
    have "mset (drop (k - ii') bh')
            = filter_mset real_entry (mset (take k' bh) - {#bh ! 0#}) + mset (drop (k - ii) bh)"
      unfolding b t2 d2 p2 ..
    also have "\<dots> = filter_mset real_entry (mset (take k' bh)) + mset (drop (k - ii) bh)"
      unfolding filter_mset_remove_other [OF re] ..
    finally show ?thesis
      unfolding step using False a by (simp add: rr k'_def)
  qed
qed

lemma heap_reorder_mset:
  assumes "length bh = k"
  shows "mset (heap_reorder m k bh)
       = filter_mset real_entry (mset bh)
         + replicate_mset (k - size (filter_mset real_entry (mset bh))) (neutral m, - 1)"
proof -
  obtain bh' ii where r: "heap_reorder_loop m k [0..<k] (bh, 0) = (bh', ii)"
    by (cases "heap_reorder_loop m k [0..<k] (bh, 0)")
  from heap_reorder_loop_mset [of k 0 k bh 0 m] assms
  have l: "length bh' = k" and ii: "ii \<le> k"
    and ms: "mset (drop (k - ii) bh') = filter_mset real_entry (mset bh)"
    by (simp_all add: r)
  have "length (drop (k - ii) bh') = ii" using l ii by simp
  then have sz: "size (filter_mset real_entry (mset bh)) = ii"
    using ms by (metis size_mset)
  have "heap_reorder m k bh = drop (k - ii) bh' @ replicate (k - ii) (neutral m, - 1)"
    using l ii by (simp add: heap_reorder_def r)
  then show ?thesis using ms sz by simp
qed


lemma norank_loop_result:
  assumes "norank_loop condition k recall (simi, i) = Inr (res, i')" "length simi = k"
  shows "res = take i simi
            @ filter (\<lambda>(dis, vid). vid \<noteq> - 1 \<and> range_test condition dis) recall
            @ drop (i + length (filter (\<lambda>(dis, vid). vid \<noteq> - 1 \<and> range_test condition dis) recall)) simi"
  using assms
proof (induction recall arbitrary: simi i)
  case Nil
  then show ?case by simp
next
  case (Cons c recall)
  obtain rs ri where c: "c = (rs, ri)" by (cases c)
  let ?P = "\<lambda>(dis, vid). vid \<noteq> - 1 \<and> range_test condition dis"
  show ?case
  proof (cases "ri \<noteq> - 1 \<and> range_test condition rs")
    case True
    with Cons.prems(1) have ik: "i < k"
      and rest: "norank_loop condition k recall (simi[i := (rs, ri)], Suc i) = Inr (res, i')"
      by (auto simp: c Let_def split: if_splits)
    have "res = take (Suc i) (simi[i := (rs, ri)]) @ filter ?P recall
                @ drop (Suc i + length (filter ?P recall)) (simi[i := (rs, ri)])"
      using Cons.IH [OF rest] Cons.prems(2) by simp
    moreover have "take (Suc i) (simi[i := (rs, ri)]) = take i simi @ [(rs, ri)]"
      using ik Cons.prems(2) by (simp add: take_Suc_conv_app_nth)
    moreover have "drop (Suc i + length (filter ?P recall)) (simi[i := (rs, ri)])
                 = drop (Suc i + length (filter ?P recall)) simi"
      by simp
    ultimately show ?thesis using True by (simp add: c)
  next
    case False
    with Cons.prems(1) have "norank_loop condition k recall (simi, i) = Inr (res, i')"
      by (auto simp: c Let_def split: if_splits)
    from Cons.IH [OF this Cons.prems(2)] show ?thesis using False by (auto simp: c)
  qed
qed


section \<open>Selections of the best entries, up to ties\<close>

subsection \<open>Multisets that are equal up to ties\<close>


lemma size_diff_inter: "size (F - G) + size (F \<inter># G) = size (F :: 'a multiset)"
proof -
  have "F - G + F \<inter># G = F" by (rule multiset_eqI) simp
  then have "size (F - G + F \<inter># G) = size F" by simp
  then show ?thesis by simp
qed

lemma inter_mset_comm: "F \<inter># G = G \<inter># (F :: 'a multiset)"
  by (rule multiset_eqI) (simp add: min.commute)

lemma size_diff_sym:
  "size F = size G \<longleftrightarrow> size (F - G) = size (G - (F :: 'a multiset))"
proof -
  have a: "size (F - G) + size (F \<inter># G) = size F" by (rule size_diff_inter)
  have "size (G - F) + size (G \<inter># F) = size G" by (rule size_diff_inter)
  then have b: "size (G - F) + size (F \<inter># G) = size G" unfolding inter_mset_comm [of G F] .
  from a b show ?thesis by arith
qed

lemma filter_mset_all: "\<forall>x \<in># M. P x \<Longrightarrow> filter_mset P M = M"
  by (induction M) auto

lemma filter_mset_none: "\<forall>x \<in># M. \<not> P x \<Longrightarrow> filter_mset P M = {#}"
  by (induction M) auto

lemma equal_up_to_ties_size: "equal_up_to_ties F G \<Longrightarrow> size F = size G"
  using size_diff_sym [of F G] by (simp add: equal_up_to_ties_def)

lemma equal_up_to_tiesI:
  assumes "F = C + D1" "G = C + D2" "size D1 = size D2" "\<forall>x \<in># D1. \<forall>y \<in># D2. fst x = fst y"
  shows "equal_up_to_ties F G"
proof -
  have a: "F - G = D1 - D2" "G - F = D2 - D1" by (simp_all add: assms(1,2))
  have "size (D1 - D2) = size (D2 - D1)" using assms(3) size_diff_sym [of D1 D2] by simp
  moreover have "\<forall>x \<in># D1 - D2. \<forall>y \<in># D2 - D1. fst x = fst y"
    using assms(4) by (meson in_diffD)
  ultimately show ?thesis by (simp add: equal_up_to_ties_def a)
qed

lemma equal_up_to_ties_decomp:
  "F = F \<inter># G + (F - G)" "G = F \<inter># G + (G - F)"
  by (rule multiset_eqI, simp)+

lemma top_k_ties:
  assumes "top_k m A F" "top_k m A G" "size F = size G"
  shows "equal_up_to_ties F G"
proof -
  have s: "size (F - G) = size (G - F)" using assms(3) size_diff_sym [of F G] by simp
  have "fst x = fst y" if x: "x \<in># F - G" and y: "y \<in># G - F" for x y
  proof -
    from assms(1,2) have sub: "F \<subseteq># A" "G \<subseteq># A" by (simp_all add: top_k_def)
    have xF: "x \<in># F" and yG: "y \<in># G" using x y by (auto dest: in_diffD)
    have "count G x < count F x" using x by (simp add: in_diff_count)
    also have "\<dots> \<le> count A x" using sub(1) by (simp add: mset_subset_eq_count)
    finally have xA: "x \<in># A - G" by (simp add: in_diff_count)
    have "count F y < count G y" using y by (simp add: in_diff_count)
    also have "\<dots> \<le> count A y" using sub(2) by (simp add: mset_subset_eq_count)
    finally have yA: "y \<in># A - F" by (simp add: in_diff_count)
    from assms(1) have "\<forall>x \<in># F. \<forall>y \<in># A - F. \<not> cmp m (fst x) (fst y)"
      by (simp add: top_k_def)
    then have 1: "\<not> cmp m (fst x) (fst y)" using xF yA by blast
    from assms(2) have "\<forall>x \<in># G. \<forall>y \<in># A - G. \<not> cmp m (fst x) (fst y)"
      by (simp add: top_k_def)
    then have 2: "\<not> cmp m (fst y) (fst x)" using yG xA by blast
    from 1 2 show ?thesis by (rule ncmp_antisym)
  qed
  with s show ?thesis by (simp add: equal_up_to_ties_def)
qed

lemma equal_up_to_ties_filter:
  assumes "equal_up_to_ties F G" "\<forall>x \<in># F - G. \<forall>y \<in># G - F. P x = P y"
  shows "equal_up_to_ties (filter_mset P F) (filter_mset P G)"
proof -
  have d1: "filter_mset P F - filter_mset P G = filter_mset P (F - G)"
    and d2: "filter_mset P G - filter_mset P F = filter_mset P (G - F)"
    by (simp_all only: filter_diff_mset)
  show ?thesis
  proof (cases "F - G = {#}")
    case True
    with assms(1) have "G - F = {#}" by (simp add: equal_up_to_ties_def)
    then show ?thesis unfolding equal_up_to_ties_def d1 d2 using True by simp
  next
    case False
    then obtain x where x: "x \<in># F - G" by (meson multiset_nonemptyE)
    from assms(1) False have "G - F \<noteq> {#}" by (auto simp: equal_up_to_ties_def)
    then obtain y where y: "y \<in># G - F" by (meson multiset_nonemptyE)
    have u1: "\<forall>x' \<in># F - G. P x' = P y" using assms(2) y by blast
    have u2: "\<forall>y' \<in># G - F. P y' = P y" using assms(2) x y by blast
    have f1: "filter_mset P (F - G) = (if P y then F - G else {#})"
      using u1 filter_mset_all [of "F - G" P] filter_mset_none [of "F - G" P] by simp
    have f2: "filter_mset P (G - F) = (if P y then G - F else {#})"
      using u2 filter_mset_all [of "G - F" P] filter_mset_none [of "G - F" P] by simp
    show ?thesis
      unfolding equal_up_to_ties_def d1 d2 f1 f2
      using assms(1) by (simp add: equal_up_to_ties_def)
  qed
qed

lemma equal_up_to_ties_image:
  assumes "equal_up_to_ties F G" "\<And>x. fst (f x) = fst x"
  shows "equal_up_to_ties (image_mset f F) (image_mset f G)"
proof (rule equal_up_to_tiesI)
  show "image_mset f F = image_mset f (F \<inter># G) + image_mset f (F - G)"
    using equal_up_to_ties_decomp(1) [of F G] by (metis image_mset_union)
  show "image_mset f G = image_mset f (F \<inter># G) + image_mset f (G - F)"
    using equal_up_to_ties_decomp(2) [of G F] by (metis image_mset_union)
  show "size (image_mset f (F - G)) = size (image_mset f (G - F))"
    using assms(1) by (simp add: equal_up_to_ties_def)
  show "\<forall>x \<in># image_mset f (F - G). \<forall>y \<in># image_mset f (G - F). fst x = fst y"
    using assms by (auto simp: equal_up_to_ties_def)
qed

lemma equal_up_to_ties_add:
  "equal_up_to_ties F G \<Longrightarrow> equal_up_to_ties (F + Z) (G + Z)"
  by (simp add: equal_up_to_ties_def)

lemma equal_up_to_ties_no_neutral:
  assumes "equal_up_to_ties F G"
    and "\<forall>y \<in># G. y = (neutral m, - 1) \<or> cmp m (neutral m) (fst y)"
  shows "(neutral m, - 1) \<notin># F - G"
proof
  assume n: "(neutral m, - 1) \<in># F - G"
  then have "F - G \<noteq> {#}" by auto
  with assms(1) have "G - F \<noteq> {#}" by (auto simp: equal_up_to_ties_def)
  then obtain y where y: "y \<in># G - F" by (meson multiset_nonemptyE)
  with assms(1) n have "fst y = neutral m" by (auto simp: equal_up_to_ties_def)
  moreover have "y \<in># G" using y by (rule in_diffD)
  ultimately have "y = (neutral m, - 1)" using assms(2) cmp_irrefl [of m "neutral m"] by auto
  with y have "count F (neutral m, - 1) < count G (neutral m, - 1)" by (simp add: in_diff_count)
  moreover from n have "count G (neutral m, - 1) < count F (neutral m, - 1)"
    by (simp add: in_diff_count)
  ultimately show False by simp
qed

lemma equal_up_to_ties_sym: "equal_up_to_ties F G \<Longrightarrow> equal_up_to_ties G F"
  by (auto simp: equal_up_to_ties_def)

subsection \<open>An entry that enters a heap beats the neutral distance\<close>


lemma init_result_strict: "heap_strict m (init_result m k)"
  by (simp add: heap_strict_def init_result_def)

lemma heap_replace_top_strict:
  assumes "heap_replace_top m k h d v = Inr h'" "length h = k" "heap_strict m h"
  shows "length h' = k \<and> heap_strict m h'"
proof (cases "cmp m (fst (h ! 0)) d")
  case True
  from assms(1) have k: "0 < k" by (auto simp: heap_replace_top_def split: if_splits)
  then have "h ! 0 \<in> set h" using assms(2) by simp
  then have "h ! 0 = (neutral m, - 1) \<or> cmp m (neutral m) (fst (h ! 0))"
    using assms(3) by (simp add: heap_strict_def)
  then have "cmp m (neutral m) d"
  proof
    assume "h ! 0 = (neutral m, - 1)"
    then show ?thesis using True by simp
  next
    assume "cmp m (neutral m) (fst (h ! 0))"
    then show ?thesis using True by (rule cmp_trans)
  qed
  then show ?thesis
    using heap_replace_top_set [OF assms(1,2)] assms(3) by (auto simp: heap_strict_def)
next
  case False
  with assms show ?thesis by (auto simp: heap_replace_top_def split: if_splits)
qed

lemma heap_addn_strict:
  assumes "heap_addn m k bh xs = Inr h" "length bh = k" "heap_strict m bh"
  shows "length h = k \<and> heap_strict m h"
  using assms
proof (induction xs arbitrary: bh)
  case Nil
  then show ?case by simp
next
  case (Cons x xs)
  obtain v i where x: "x = (v, i)" by (cases x)
  from Cons.prems(1) obtain bh' where
    r: "heap_replace_top m k bh v i = Inr bh'" and rest: "heap_addn m k bh' xs = Inr h"
    by (auto simp: x split: sum.splits)
  from heap_replace_top_strict [OF r Cons.prems(2,3)] Cons.IH [OF rest] show ?case by simp
qed

lemma scan_codes_strict:
  assumes "scan_codes env m key cd entries simi k = Inr h" "length simi = k" "heap_strict m simi"
  shows "length h = k \<and> heap_strict m h"
  using assms
proof (induction entries arbitrary: simi)
  case Nil
  then show ?case by simp
next
  case (Cons e entries)
  obtain vid code where e: "e = (vid, code)" by (cases e)
  show ?case
  proof (cases "vec_filter env vid")
    case True
    with Cons.prems(1) have "scan_codes env m key cd entries simi k = Inr h" by (simp add: e)
    from Cons.IH [OF this Cons.prems(2,3)] show ?thesis .
  next
    case False
    with Cons.prems(1) obtain simi' where
      r: "heap_replace_top m k simi (pq_dis env key cd code) vid = Inr simi'"
      and rest: "scan_codes env m key cd entries simi' k = Inr h"
      by (auto simp: e split: sum.splits)
    from heap_replace_top_strict [OF r Cons.prems(2,3)] Cons.IH [OF rest] show ?thesis by simp
  qed
qed

lemma scan_one_list_strict:
  assumes "scan_one_list env m key cd simi k = Inr (sz, h)" "length simi = k" "heap_strict m simi"
  shows "length h = k \<and> heap_strict m h"
proof (cases "key < 0 \<or> length (invlists env key) = 0")
  case True
  with assms show ?thesis by (auto simp: scan_one_list_def Let_def split: if_splits)
next
  case False
  with assms(1) have "scan_codes env m key cd (invlists env key) simi k = Inr h"
    by (auto simp: scan_one_list_def Let_def split: if_splits sum.splits)
  from scan_codes_strict [OF this assms(2,3)] show ?thesis .
qed

lemma probe_loop_strict:
  assumes "probe_loop env m k max_codes probes (nscan, recall, visited) = Inr (nscan', recall', visited')"
    "length recall = k" "heap_strict m recall"
  shows "length recall' = k \<and> heap_strict m recall'"
  using assms
proof (induction probes arbitrary: nscan recall visited)
  case Nil
  then show ?case by simp
next
  case (Cons p probes)
  obtain ik key cd where p: "p = (ik, key, cd)" by (cases p)
  from Cons.prems(1) obtain sz recall1 where
    s: "scan_one_list env m key cd recall k = Inr (sz, recall1)"
    by (auto simp: p split: sum.splits)
  note st = scan_one_list_strict [OF s Cons.prems(2,3)]
  show ?case
  proof (cases "max_codes \<noteq> 0 \<and> nscan + int sz \<ge> max_codes")
    case True
    with Cons.prems(1) s have "recall' = recall1" by (simp add: p Let_def)
    with st show ?thesis by simp
  next
    case False
    with Cons.prems(1) s have
      "probe_loop env m k max_codes probes (nscan + int sz, recall1, visited @ [ik])
         = Inr (nscan', recall', visited')"
      by (simp add: p Let_def)
    from Cons.IH [OF this] st show ?thesis by simp
  qed
qed

lemma local_scan_strict:
  assumes "local_scan env m k probes (local, visited) = Inr (local', visited')"
    "length local = k" "heap_strict m local"
  shows "length local' = k \<and> heap_strict m local'"
  using assms
proof (induction probes arbitrary: local visited)
  case Nil
  then show ?case by simp
next
  case (Cons p probes)
  obtain ik key cd where p: "p = (ik, key, cd)" by (cases p)
  from Cons.prems(1) obtain sz local1 where
    s: "scan_one_list env m key cd local k = Inr (sz, local1)"
    and rest: "local_scan env m k probes (local1, visited @ [ik]) = Inr (local', visited')"
    by (auto simp: p split: sum.splits)
  from scan_one_list_strict [OF s Cons.prems(2,3)] Cons.IH [OF rest] show ?case by simp
qed

lemma merge_threads_strict:
  assumes "merge_threads env m k schedule (recall, visited) = Inr (recall', visited')"
    "length recall = k" "heap_strict m recall"
  shows "length recall' = k \<and> heap_strict m recall'"
  using assms
proof (induction schedule arbitrary: recall visited)
  case Nil
  then show ?case by simp
next
  case (Cons t schedule)
  from Cons.prems(1) obtain L v1 recall1 where
    l: "local_scan env m k t (init_result m k, visited) = Inr (L, v1)"
    and a: "heap_addn m k recall L = Inr recall1"
    and rest: "merge_threads env m k schedule (recall1, v1) = Inr (recall', visited')"
    by (auto split: sum.splits)
  from heap_addn_strict [OF a Cons.prems(2,3)] Cons.IH [OF rest] show ?case by simp
qed

lemma rank_loop_strict:
  assumes "rank_loop condition m k dis_of recall simi = Inr simi'" "length simi = k"
    "heap_strict m simi"
  shows "length simi' = k \<and> heap_strict m simi'"
  using assms
proof (induction recall arbitrary: simi)
  case Nil
  then show ?case by simp
next
  case (Cons c recall)
  obtain rs ri where c: "c = (rs, ri)" by (cases c)
  show ?case
  proof (cases "ri \<noteq> - 1 \<and> range_test condition (dis_of ri)")
    case True
    with Cons.prems(1) obtain simi1 where
      r: "heap_replace_top m k simi (dis_of ri) ri = Inr simi1"
      and rest: "rank_loop condition m k dis_of recall simi1 = Inr simi'"
      by (auto simp: c Let_def split: sum.splits)
    from heap_replace_top_strict [OF r Cons.prems(2,3)] Cons.IH [OF rest] show ?thesis by simp
  next
    case False
    with Cons.prems(1) have "rank_loop condition m k dis_of recall simi = Inr simi'"
      by (auto simp: c Let_def split: if_splits)
    from Cons.IH [OF this Cons.prems(2,3)] show ?thesis .
  qed
qed

subsection \<open>The result of \<open>Search\<close> when the docids of the slots are distinct\<close>


lemma dedup_first_id:
  "distinct (map snd xs) \<Longrightarrow> snd ` set xs \<inter> seen = {} \<Longrightarrow> dedup_first seen xs = xs"
proof (induction xs arbitrary: seen)
  case Nil
  then show ?case by simp
next
  case (Cons x xs)
  obtain dis docid where x: "x = (dis, docid)" by (cases x)
  from Cons.prems have "docid \<notin> seen" "distinct (map snd xs)"
    "snd ` set xs \<inter> insert docid seen = {}"
    by (auto simp: x)
  then show ?case using Cons.IH [of "insert docid seen"] by (simp add: x)
qed

lemma mset_resolve_vids:
  "mset (resolve_vids vid2docid slots)
   = image_mset (\<lambda>(dis, vid). (dis, vid2docid vid)) (filter_mset real_entry (mset slots))"
proof -
  have "(\<lambda>(dis, vid). vid \<noteq> - 1) = real_entry" by (auto simp: real_entry_def)
  then show ?thesis by (simp add: resolve_vids_def)
qed

lemma distinct_count_le_1: "\<forall>c. count (mset xs) c \<le> 1 \<Longrightarrow> distinct xs"
proof (induction xs)
  case Nil
  then show ?case by simp
next
  case (Cons x xs)
  from Cons.prems have "count (mset (x # xs)) x \<le> 1" by blast
  then have "count (mset xs) x = 0" by simp
  then have x: "x \<notin> set xs" by (simp add: count_mset_0_iff)
  have "\<forall>c. count (mset xs) c \<le> 1"
  proof
    fix c
    from Cons.prems have "count (mset (x # xs)) c \<le> 1" by blast
    moreover have "count (mset xs) c \<le> count (mset (x # xs)) c" by simp
    ultimately show "count (mset xs) c \<le> 1" by (rule order_trans [rotated])
  qed
  then have "distinct xs" by (rule Cons.IH)
  with x show ?case by simp
qed

lemma count_le_mono:
  "M \<subseteq># N \<Longrightarrow> \<forall>c. count (image_mset f N) c \<le> 1 \<Longrightarrow> \<forall>c. count (image_mset f M) c \<le> 1"
proof
  fix c
  assume a: "M \<subseteq># N" "\<forall>c. count (image_mset f N) c \<le> 1"
  from a(1) have "image_mset f M \<subseteq># image_mset f N" by (rule image_mset_subseteq_mono)
  then have "count (image_mset f M) c \<le> count (image_mset f N) c" by (rule mset_subset_eq_count)
  with a(2) show "count (image_mset f M) c \<le> 1" by (meson le_trans)
qed

lemma remap_query_mset:
  assumes "length res = k"
    and "\<forall>c. count (image_mset (vid2docid \<circ> snd) (filter_mset real_entry (mset res))) c \<le> 1"
  shows "mset (fst (remap_query vid2docid GetSource k (res, sources, idx)))
       = image_mset (\<lambda>(dis, vid). (dis, vid2docid vid)) (filter_mset real_entry (mset res))
         + replicate_mset (k - size (filter_mset real_entry (mset res))) (- 1, - 1)"
proof -
  define kept where "kept = resolve_vids vid2docid res"
  define L where "L = filter_mset real_entry (mset res)"
  have m: "mset kept = image_mset (\<lambda>(dis, vid). (dis, vid2docid vid)) L"
    by (simp add: kept_def L_def mset_resolve_vids)
  have "mset (map snd kept) = image_mset snd (mset kept)" by simp
  also have "\<dots> = image_mset snd (image_mset (\<lambda>(dis, vid). (dis, vid2docid vid)) L)"
    by (simp only: m)
  also have "\<dots> = image_mset (vid2docid \<circ> snd) L"
    by (simp add: image_mset.compositionality comp_def case_prod_unfold)
  finally have "\<forall>c. count (mset (map snd kept)) c \<le> 1" using assms(2) by (simp add: L_def)
  then have "distinct (map snd kept)" by (rule distinct_count_le_1)
  then have d: "dedup_first {} kept = kept" by (rule dedup_first_id) simp
  have "length kept = size (mset kept)" by simp
  also have "\<dots> = size L" by (simp only: m size_image_mset)
  finally have l: "length kept = size L" .
  have "fst (remap_query vid2docid GetSource k (res, sources, idx))
        = kept @ replicate (k - length kept) (- 1, - 1)"
    using remap_query_eq [OF assms(1), of vid2docid GetSource sources idx]
    unfolding kept_def [symmetric] d .
  then have "mset (fst (remap_query vid2docid GetSource k (res, sources, idx)))
        = mset kept + replicate_mset (k - length kept) (- 1, - 1)"
    by simp
  then show ?thesis by (simp only: m l L_def)
qed

subsection \<open>The labelled entries of the heaps and of the result slots\<close>


lemma filter_real_init_result: "filter_mset real_entry (mset (init_result m k)) = {#}"
  by (simp add: init_result_def real_entry_def)

lemma heap_ok_real_subset:
  assumes "heap_ok m k X h"
  shows "filter_mset real_entry (mset h) \<subseteq># X"
proof -
  from assms have "mset h \<subseteq># mset (init_result m k) + X" by (simp add: heap_ok_def top_k_def)
  then have "filter_mset real_entry (mset h)
             \<subseteq># filter_mset real_entry (mset (init_result m k) + X)"
    by (rule multiset_filter_mono)
  also have "\<dots> = filter_mset real_entry X" by (simp add: filter_real_init_result)
  also have "\<dots> \<subseteq># X" by (rule multiset_filter_subset)
  finally show ?thesis .
qed

lemma heap_ok_labelled:
  assumes "heap_ok m k X h" "heap_strict m h" "\<forall>x \<in># X. snd x \<noteq> - 1"
  shows "\<forall>x \<in># mset h. x = (neutral m, - 1) \<or> (cmp m (neutral m) (fst x) \<and> snd x \<noteq> - 1)"
proof
  fix x assume x: "x \<in># mset h"
  show "x = (neutral m, - 1) \<or> (cmp m (neutral m) (fst x) \<and> snd x \<noteq> - 1)"
  proof (cases "x = (neutral m, - 1)")
    case True
    then show ?thesis by simp
  next
    case False
    with x assms(2) have c: "cmp m (neutral m) (fst x)" by (auto simp: heap_strict_def)
    from assms(1) have "mset h \<subseteq># mset (init_result m k) + X" by (simp add: heap_ok_def top_k_def)
    with x have "x \<in># mset (init_result m k) + X" by (rule mset_subset_eqD [rotated])
    with False have "x \<in># X" by (auto simp: init_result_def split: if_splits)
    with assms(3) c show ?thesis by blast
  qed
qed

lemma equal_up_to_ties_filter_labelled:
  assumes "equal_up_to_ties F G"
    and "\<forall>x \<in># F. x = (neutral m, - 1) \<or> (cmp m (neutral m) (fst x) \<and> snd x \<noteq> - 1)"
    and "\<forall>x \<in># G. x = (neutral m, - 1) \<or> (cmp m (neutral m) (fst x) \<and> snd x \<noteq> - 1)"
  shows "equal_up_to_ties (filter_mset (\<lambda>(d, vid). vid \<noteq> - 1 \<and> Q d) F)
           (filter_mset (\<lambda>(d, vid). vid \<noteq> - 1 \<and> Q d) G)"
proof (rule equal_up_to_ties_filter [OF assms(1)], intro ballI)
  fix x y assume x: "x \<in># F - G" and y: "y \<in># G - F"
  have "(neutral m, - 1) \<notin># F - G"
    using equal_up_to_ties_no_neutral [OF assms(1), of m] assms(3) by blast
  with x have "x \<noteq> (neutral m, - 1)" by auto
  moreover have "x \<in># F" using x by (rule in_diffD)
  ultimately have sx: "snd x \<noteq> - 1" using assms(2) by blast
  have "(neutral m, - 1) \<notin># G - F"
    using equal_up_to_ties_no_neutral [OF equal_up_to_ties_sym [OF assms(1)], of m] assms(2)
    by blast
  with y have "y \<noteq> (neutral m, - 1)" by auto
  moreover have "y \<in># G" using y by (rule in_diffD)
  ultimately have sy: "snd y \<noteq> - 1" using assms(3) by blast
  from assms(1) x y have "fst x = fst y" by (simp add: equal_up_to_ties_def)
  with sx sy show "(case x of (d, vid) \<Rightarrow> vid \<noteq> - 1 \<and> Q d) = (case y of (d, vid) \<Rightarrow> vid \<noteq> - 1 \<and> Q d)"
    by (simp add: case_prod_unfold)
qed

lemma equal_up_to_ties_inj:
  assumes "equal_up_to_ties F G"
    and "\<forall>x \<in># F. x = (neutral m, - 1) \<or> (cmp m (neutral m) (fst x) \<and> x \<in># S)"
    and "\<forall>x \<in># G. x = (neutral m, - 1) \<or> (cmp m (neutral m) (fst x) \<and> x \<in># S)"
    and "inj_on fst (set_mset S)"
  shows "F = G"
proof -
  have e: "F - G = {#}"
  proof (rule ccontr)
    assume ne: "F - G \<noteq> {#}"
    then obtain x where x: "x \<in># F - G" by (meson multiset_nonemptyE)
    from assms(1) ne have "G - F \<noteq> {#}" by (auto simp: equal_up_to_ties_def)
    then obtain y where y: "y \<in># G - F" by (meson multiset_nonemptyE)
    have "(neutral m, - 1) \<notin># F - G"
      using equal_up_to_ties_no_neutral [OF assms(1), of m] assms(3) by blast
    with x have "x \<noteq> (neutral m, - 1)" by auto
    moreover have "x \<in># F" using x by (rule in_diffD)
    ultimately have sx: "x \<in># S" using assms(2) by blast
    have "(neutral m, - 1) \<notin># G - F"
      using equal_up_to_ties_no_neutral [OF equal_up_to_ties_sym [OF assms(1)], of m] assms(2)
      by blast
    with y have "y \<noteq> (neutral m, - 1)" by auto
    moreover have "y \<in># G" using y by (rule in_diffD)
    ultimately have sy: "y \<in># S" using assms(3) by blast
    from assms(1) x y have "fst x = fst y" by (simp add: equal_up_to_ties_def)
    with sx sy assms(4) have "x = y" by (simp add: inj_on_def)
    with x y have "count G x < count F x" "count F x < count G x"
      by (simp_all add: in_diff_count)
    then show False by simp
  qed
  with assms(1) have e2: "G - F = {#}" by (simp add: equal_up_to_ties_def)
  from e have "F \<subseteq># G" by (simp add: Diff_eq_empty_iff_mset)
  moreover from e2 have "G \<subseteq># F" by (simp add: Diff_eq_empty_iff_mset)
  ultimately show ?thesis by (rule subset_mset.order_antisym)
qed

lemma compute_dis_norank_result:
  "compute_dis_norank condition k (init_result m k) R =
     (let surv = filter (\<lambda>(dis, vid). vid \<noteq> - 1 \<and> range_test condition dis) R in
      if length surv \<le> k then Inr (surv @ replicate (k - length surv) (neutral m, - 1))
      else Inl OutOfBounds)"
proof -
  let ?P = "\<lambda>(dis, vid). vid \<noteq> - 1 \<and> range_test condition dis"
  show ?thesis
  proof (cases "length (filter ?P R) \<le> k")
    case True
    from norank_loop_overflow_iff(2) [of 0 k condition R "init_result m k"] True
    obtain res i where r: "norank_loop condition k R (init_result m k, 0) = Inr (res, i)"
      by auto
    have "res = filter ?P R @ drop (length (filter ?P R)) (init_result m k)"
      using norank_loop_result [OF r] by (simp add: init_result_def)
    then have "res = filter ?P R @ replicate (k - length (filter ?P R)) (neutral m, - 1)"
      by (simp add: init_result_def)
    then show ?thesis using r True by (simp add: compute_dis_norank_def Let_def)
  next
    case False
    then have "norank_loop condition k R (init_result m k, 0) = Inl OutOfBounds"
      using norank_loop_overflow_iff(1) [of 0 k condition R "init_result m k"] by auto
    then show ?thesis using False by (simp add: compute_dis_norank_def Let_def)
  qed
qed

lemma mset_sort_by_docid_pairs: "mset (sort_by_docid_pairs bh) = mset bh"
  by (simp add: sort_by_docid_pairs_def image_mset.compositionality comp_def case_prod_unfold)

lemma filter_real_replicate: "filter_mset real_entry (replicate_mset n (neutral m, - 1)) = {#}"
  by (rule filter_mset_none) (simp add: real_entry_def)

lemma final_order_real:
  assumes "length simi = k"
  shows "length (final_order condition m k simi) = k
       \<and> filter_mset real_entry (mset (final_order condition m k simi))
         = filter_mset real_entry (mset simi)"
proof (cases "sort_by_docid condition")
  case True
  then show ?thesis using assms sort_by_docid_pairs_set [of simi]
    by (simp add: final_order_def mset_sort_by_docid_pairs)
next
  case False
  then show ?thesis
    using heap_reorder_mset [OF assms, of m] heap_reorder_set [OF assms, of m]
    by (simp add: final_order_def filter_real_replicate filter_filter_mset)
qed


lemma heap_ok_members:
  assumes "heap_ok m k X h" "heap_strict m h"
  shows "\<forall>x \<in># mset h. x = (neutral m, - 1) \<or> (cmp m (neutral m) (fst x) \<and> x \<in># X)"
proof
  fix x assume x: "x \<in># mset h"
  show "x = (neutral m, - 1) \<or> (cmp m (neutral m) (fst x) \<and> x \<in># X)"
  proof (cases "x = (neutral m, - 1)")
    case True
    then show ?thesis by simp
  next
    case False
    with x assms(2) have c: "cmp m (neutral m) (fst x)" by (auto simp: heap_strict_def)
    from assms(1) have "mset h \<subseteq># mset (init_result m k) + X" by (simp add: heap_ok_def top_k_def)
    with x have "x \<in># mset (init_result m k) + X" by (rule mset_subset_eqD [rotated])
    with False have "x \<in># X" by (auto simp: init_result_def split: if_splits)
    with c show ?thesis by blast
  qed
qed

lemma heap_ok_ties:
  assumes "heap_ok m k X h0" "heap_ok m k X h1"
  shows "equal_up_to_ties (mset h0) (mset h1)"
proof (rule top_k_ties)
  show "top_k m (mset (init_result m k) + X) (mset h0)" using assms(1) by (simp add: heap_ok_def)
  show "top_k m (mset (init_result m k) + X) (mset h1)" using assms(2) by (simp add: heap_ok_def)
  show "size (mset h0) = size (mset h1)" using assms by (simp add: heap_ok_def)
qed

lemma filter_real_labelled:
  "filter_mset real_entry (filter_mset (\<lambda>(d, vid). vid \<noteq> - 1 \<and> Q d vid) M)
   = filter_mset (\<lambda>(d, vid). vid \<noteq> - 1 \<and> Q d vid) M"
  by (rule filter_mset_all) (auto simp: real_entry_def)

lemma filter_labelled_subset:
  "filter_mset (\<lambda>(d, vid). vid \<noteq> - 1 \<and> Q d vid) M \<subseteq># filter_mset real_entry M"
proof -
  have "filter_mset real_entry (filter_mset (\<lambda>(d, vid). vid \<noteq> - 1 \<and> Q d vid) M)
        \<subseteq># filter_mset real_entry M"
    by (rule multiset_filter_mono) (rule multiset_filter_subset)
  then show ?thesis by (simp only: filter_real_labelled)
qed

lemma remap_query_ties:
  assumes "length res0 = k" "length res1 = k"
    and "equal_up_to_ties (filter_mset real_entry (mset res0)) (filter_mset real_entry (mset res1))"
    and "image_mset snd (filter_mset real_entry (mset res0)) \<subseteq># image_mset snd S"
    and "image_mset snd (filter_mset real_entry (mset res1)) \<subseteq># image_mset snd S"
    and "\<forall>c. count (image_mset (vid2docid \<circ> snd) S) c \<le> 1"
  shows "equal_up_to_ties
           (mset (fst (remap_query vid2docid GetSource k (res0, sources, idx))))
           (mset (fst (remap_query vid2docid GetSource k (res1, sources, idx))))"
proof -
  define L0 where "L0 = filter_mset real_entry (mset res0)"
  define L1 where "L1 = filter_mset real_entry (mset res1)"
  have c: "\<forall>c. count (image_mset vid2docid (image_mset snd S)) c \<le> 1"
    using assms(6) by (simp add: image_mset.compositionality)
  have "\<forall>c. count (image_mset vid2docid (image_mset snd L0)) c \<le> 1"
    using assms(4) c unfolding L0_def by (rule count_le_mono)
  then have c0: "\<forall>c. count (image_mset (vid2docid \<circ> snd) L0) c \<le> 1"
    by (simp add: image_mset.compositionality)
  have "\<forall>c. count (image_mset vid2docid (image_mset snd L1)) c \<le> 1"
    using assms(5) c unfolding L1_def by (rule count_le_mono)
  then have c1: "\<forall>c. count (image_mset (vid2docid \<circ> snd) L1) c \<le> 1"
    by (simp add: image_mset.compositionality)
  have r0: "mset (fst (remap_query vid2docid GetSource k (res0, sources, idx)))
       = image_mset (\<lambda>(dis, vid). (dis, vid2docid vid)) L0
         + replicate_mset (k - size L0) (- 1, - 1)"
    using remap_query_mset [OF assms(1), of vid2docid GetSource sources idx] c0
    by (simp add: L0_def)
  have r1: "mset (fst (remap_query vid2docid GetSource k (res1, sources, idx)))
       = image_mset (\<lambda>(dis, vid). (dis, vid2docid vid)) L1
         + replicate_mset (k - size L1) (- 1, - 1)"
    using remap_query_mset [OF assms(2), of vid2docid GetSource sources idx] c1
    by (simp add: L1_def)
  have t: "equal_up_to_ties L0 L1" using assms(3) by (simp add: L0_def L1_def)
  then have s: "size L0 = size L1" by (rule equal_up_to_ties_size)
  have "equal_up_to_ties (image_mset (\<lambda>(dis, vid). (dis, vid2docid vid)) L0)
          (image_mset (\<lambda>(dis, vid). (dis, vid2docid vid)) L1)"
    using t by (rule equal_up_to_ties_image) (simp add: case_prod_unfold)
  then have "equal_up_to_ties
      (image_mset (\<lambda>(dis, vid). (dis, vid2docid vid)) L0 + replicate_mset (k - size L0) (- 1, - 1))
      (image_mset (\<lambda>(dis, vid). (dis, vid2docid vid)) L1 + replicate_mset (k - size L0) (- 1, - 1))"
    by (rule equal_up_to_ties_add)
  then show ?thesis unfolding r0 r1 s .
qed

subsection \<open>\<open>heap_reorder\<close> writes the labelled entries in order, best first\<close>


lemma is_heap_update_outside:
  assumes "is_heap m n b" "n \<le> p"
  shows "is_heap m n (b[p := v])"
proof -
  have "heap_val (b[p := v]) j = heap_val b j" if "0 < j" "j \<le> n" for j
    using that assms(2) by (simp add: heap_val_def)
  moreover have "0 < j div 2 \<and> j div 2 \<le> n" if "2 \<le> j" "j \<le> n" for j
    using that by auto
  ultimately show ?thesis using assms(1) by (simp add: is_heap_def)
qed

lemma is_heap_root_worst_set:
  assumes "is_heap m n bh" "n \<le> length bh" "x \<in> set (take n bh)"
  shows "\<not> cmp m (fst x) (fst (bh ! 0))"
proof -
  from assms(3) obtain j where j: "j < length (take n bh)" "take n bh ! j = x"
    by (auto simp: in_set_conv_nth)
  then have jn: "j < n" by simp
  then have "x = bh ! j" using j by simp
  then have "fst x = heap_val bh (Suc j)" by (simp add: heap_val_def)
  moreover have "fst (bh ! 0) = heap_val bh 1" by (simp add: heap_val_def)
  moreover have "\<not> cmp m (heap_val bh (Suc j)) (heap_val bh 1)"
    using is_heap_root_worst [OF assms(1), of "Suc j"] jn by simp
  ultimately show ?thesis by simp
qed

lemma heap_reorder_loop_sorted:
  assumes "k - i = d" "length bh = k" "ii \<le> i" "i \<le> k"
    and "is_heap m (k - i) bh"
    and "sorted_wrt (\<lambda>x y. \<not> cmp m (fst x) (fst y)) (drop (k - ii) bh)"
    and "\<forall>x \<in> set (take (k - i) bh). \<forall>y \<in> set (drop (k - ii) bh). \<not> cmp m (fst x) (fst y)"
  shows "case heap_reorder_loop m k [i..<k] (bh, ii) of (bh', ii') \<Rightarrow>
           sorted_wrt (\<lambda>x y. \<not> cmp m (fst x) (fst y)) (drop (k - ii') bh')"
  using assms
proof (induction d arbitrary: i bh ii)
  case 0
  then show ?case by simp
next
  case (Suc d)
  then have ik: "i < k" by simp
  define k' where "k' = k - i"
  have k': "0 < k'" "k' \<le> length bh" using ik Suc.prems by (simp_all add: k'_def)
  obtain val ids where b0: "bh ! 0 = (val, ids)" by (cases "bh ! 0")
  define bh1 where "bh1 = heap_pop m k' bh"
  define bh2 where "bh2 = bh1[k - ii - 1 := (val, ids)]"
  note p = heap_pop_mset [OF k', of m, folded bh1_def]
  have p2: "mset (take (k' - 1) bh1) = mset (take k' bh) - {#bh ! 0#}" using p by blast
  have l1: "length bh1 = k" using p Suc.prems by simp
  have l2: "length bh2 = k" using l1 by (simp add: bh2_def)
  have up: "[i..<k] = i # [Suc i..<k]" using ik by (simp add: upt_conv_Cons)
  have step: "heap_reorder_loop m k [i..<k] (bh, ii)
            = heap_reorder_loop m k [Suc i..<k] (bh2, if ids \<noteq> - 1 then Suc ii else ii)"
    unfolding up by (simp add: b0 Let_def bh2_def bh1_def k'_def)
  have e: "k - Suc i = k' - 1" "k' - 1 \<le> k - ii - 1"
    using Suc.prems ik by (auto simp: k'_def)
  have t2: "take (k - Suc i) bh2 = take (k' - 1) bh1"
    unfolding e(1) bh2_def using e(2) by simp
  have d1: "drop (k - ii) bh1 = drop (k - ii) bh"
  proof (rule drop_eq_mono)
    show "drop (k' - 1) bh1 = drop (k' - 1) bh" using p by simp
    show "k' - 1 \<le> k - ii" using e by simp
  qed
  have d2: "drop (k - ii) bh2 = drop (k - ii) bh"
    using d1 Suc.prems ik by (simp add: bh2_def)
  have pre: "k - Suc i = d" "Suc i \<le> k" using Suc.prems ik by simp_all
  have hp: "is_heap m k' bh" using Suc.prems(5) by (simp add: k'_def)
  have h1: "is_heap m (k' - 1) bh1"
    unfolding bh1_def by (rule heap_pop_is_heap [OF k' hp])
  have h2: "is_heap m (k - Suc i) bh2"
    unfolding e(1) bh2_def using h1 e(2) by (rule is_heap_update_outside)
  have sub: "set (take (k - Suc i) bh2) \<subseteq> set (take k' bh)"
  proof
    fix x assume "x \<in> set (take (k - Suc i) bh2)"
    then have "x \<in># mset (take k' bh) - {#bh ! 0#}" unfolding t2 using p2 by (metis set_mset_mset)
    then show "x \<in> set (take k' bh)" by (metis in_diffD set_mset_mset)
  qed
  have root: "\<forall>x \<in> set (take k' bh). \<not> cmp m (fst x) val"
    using is_heap_root_worst_set [OF hp k'(2)] by (simp add: b0)
  have cross: "\<forall>x \<in> set (take k' bh). \<forall>y \<in> set (drop (k - ii) bh). \<not> cmp m (fst x) (fst y)"
    using Suc.prems(7) by (simp add: k'_def)
  have in0: "bh ! 0 \<in> set (take k' bh)"
    using k' by (metis in_set_conv_nth length_take min.absorb2 nth_take)
  show ?case
  proof (cases "ids \<noteq> - 1")
    case True
    have kk: "k - Suc ii < length bh2" "Suc (k - Suc ii) = k - ii" "k - Suc ii = k - ii - 1"
      using Suc.prems ik l2 by auto
    have "bh2 ! (k - Suc ii) # drop (Suc (k - Suc ii)) bh2 = drop (k - Suc ii) bh2"
      by (rule Cons_nth_drop_Suc [OF kk(1)])
    then have "drop (k - Suc ii) bh2 = bh2 ! (k - ii - 1) # drop (k - ii) bh2"
      unfolding kk(2) unfolding kk(3) by (rule sym)
    also have "bh2 ! (k - ii - 1) = (val, ids)"
      using l1 Suc.prems ik by (simp add: bh2_def)
    finally have d3: "drop (k - Suc ii) bh2 = (val, ids) # drop (k - ii) bh"
      using d2 by simp
    have r0: "\<forall>y \<in> set (drop (k - ii) bh). \<not> cmp m val (fst y)"
      using bspec [OF cross in0] by (simp add: b0)
    have s3: "sorted_wrt (\<lambda>x y. \<not> cmp m (fst x) (fst y)) (drop (k - Suc ii) bh2)"
      unfolding d3 using Suc.prems(6) r0 by simp
    have c3: "\<forall>x \<in> set (take (k - Suc i) bh2). \<forall>y \<in> set (drop (k - Suc ii) bh2).
                \<not> cmp m (fst x) (fst y)"
      unfolding d3 using sub root cross by auto
    have "Suc ii \<le> Suc i" using Suc.prems by simp
    from Suc.IH [OF pre(1) l2 this pre(2) h2 s3 c3]
    show ?thesis unfolding step using True by simp
  next
    case False
    have s3: "sorted_wrt (\<lambda>x y. \<not> cmp m (fst x) (fst y)) (drop (k - ii) bh2)"
      unfolding d2 by (rule Suc.prems(6))
    have c3: "\<forall>x \<in> set (take (k - Suc i) bh2). \<forall>y \<in> set (drop (k - ii) bh2).
                \<not> cmp m (fst x) (fst y)"
      unfolding d2 using sub cross by auto
    have "ii \<le> Suc i" using Suc.prems by simp
    from Suc.IH [OF pre(1) l2 this pre(2) h2 s3 c3]
    show ?thesis unfolding step using False by simp
  qed
qed

lemma sorted_wrt_unique:
  assumes "sorted_wrt R xs" "sorted_wrt R ys" "mset xs = mset ys"
    and "\<forall>x \<in> set xs. \<forall>y \<in> set xs. R x y \<and> R y x \<longrightarrow> x = y"
  shows "xs = ys"
  using assms
proof (induction xs arbitrary: ys)
  case Nil
  then show ?case by simp
next
  case (Cons x xs)
  from Cons.prems(3) obtain y ys' where ys: "ys = y # ys'"
    by (cases ys) auto
  have xy: "x = y"
  proof (rule ccontr)
    assume ne: "x \<noteq> y"
    have "x \<in># mset (y # ys')" using Cons.prems(3) ys by (metis list.set_intros(1) set_mset_mset)
    with ne have "x \<in> set ys'" by simp
    with Cons.prems(2) have 1: "R y x" by (simp add: ys)
    have "y \<in># mset (x # xs)" using Cons.prems(3) ys by (metis list.set_intros(1) set_mset_mset)
    with ne have yx: "y \<in> set xs" by auto
    with Cons.prems(1) have 2: "R x y" by simp
    from Cons.prems(4) 1 2 yx have "x = y" by auto
    with ne show False by simp
  qed
  have "mset xs = mset ys'" using Cons.prems(3) by (simp add: ys xy)
  moreover have "sorted_wrt R xs" "sorted_wrt R ys'" using Cons.prems(1,2) by (simp_all add: ys)
  moreover have "\<forall>a \<in> set xs. \<forall>b \<in> set xs. R a b \<and> R b a \<longrightarrow> a = b"
    using Cons.prems(4) by simp
  ultimately have "xs = ys'" by (intro Cons.IH)
  then show ?case by (simp add: ys xy)
qed

lemma heap_reorder_sorted:
  assumes "length bh = k" "is_heap m k bh"
  shows "\<exists>L. heap_reorder m k bh = L @ replicate (k - length L) (neutral m, - 1)
           \<and> mset L = filter_mset real_entry (mset bh)
           \<and> sorted_wrt (\<lambda>x y. \<not> cmp m (fst x) (fst y)) L"
proof -
  obtain bh' ii where r: "heap_reorder_loop m k [0..<k] (bh, 0) = (bh', ii)"
    by (cases "heap_reorder_loop m k [0..<k] (bh, 0)")
  from heap_reorder_loop_mset [of k 0 k bh 0 m] assms
  have l: "length bh' = k" and ii: "ii \<le> k"
    and ms: "mset (drop (k - ii) bh') = filter_mset real_entry (mset bh)"
    by (simp_all add: r)
  from heap_reorder_loop_sorted [of k 0 k bh 0 m] assms
  have so: "sorted_wrt (\<lambda>x y. \<not> cmp m (fst x) (fst y)) (drop (k - ii) bh')"
    by (simp add: r)
  have len: "length (drop (k - ii) bh') = ii" using l ii by simp
  have "heap_reorder m k bh = drop (k - ii) bh' @ replicate (k - ii) (neutral m, - 1)"
    using l ii by (simp add: heap_reorder_def r)
  then show ?thesis using ms so len by (intro exI [of _ "drop (k - ii) bh'"]) simp
qed

lemma heap_reorder_unique:
  assumes "length F0 = k" "length F1 = k" "is_heap m k F0" "is_heap m k F1"
    and "mset F0 = mset F1"
    and "inj_on fst (set_mset (filter_mset real_entry (mset F0)))"
  shows "heap_reorder m k F0 = heap_reorder m k F1"
proof -
  from heap_reorder_sorted [OF assms(1,3)] obtain L0 where
    a: "heap_reorder m k F0 = L0 @ replicate (k - length L0) (neutral m, - 1)"
      "mset L0 = filter_mset real_entry (mset F0)"
      "sorted_wrt (\<lambda>x y. \<not> cmp m (fst x) (fst y)) L0" by blast
  from heap_reorder_sorted [OF assms(2,4)] obtain L1 where
    b: "heap_reorder m k F1 = L1 @ replicate (k - length L1) (neutral m, - 1)"
      "mset L1 = filter_mset real_entry (mset F1)"
      "sorted_wrt (\<lambda>x y. \<not> cmp m (fst x) (fst y)) L1" by blast
  have ms: "mset L0 = mset L1" using a(2) b(2) assms(5) by simp
  have "set L0 = set_mset (filter_mset real_entry (mset F0))" using a(2) by (metis set_mset_mset)
  then have inj: "inj_on fst (set L0)" using assms(6) by simp
  have "\<forall>x \<in> set L0. \<forall>y \<in> set L0.
          \<not> cmp m (fst x) (fst y) \<and> \<not> cmp m (fst y) (fst x) \<longrightarrow> x = y"
  proof (intro ballI impI)
    fix x y assume "x \<in> set L0" "y \<in> set L0"
      and "\<not> cmp m (fst x) (fst y) \<and> \<not> cmp m (fst y) (fst x)"
    then have "fst x = fst y" using ncmp_antisym [of m "fst x" "fst y"] by blast
    with inj \<open>x \<in> set L0\<close> \<open>y \<in> set L0\<close> show "x = y" by (simp add: inj_on_def)
  qed
  with a(3) b(3) ms have "L0 = L1" by (rule sorted_wrt_unique)
  then show ?thesis using a(1) b(1) by simp
qed

subsection \<open>\<open>compute_dis\<close> on two recall heaps of the same candidates\<close>


lemma compute_dis_norank_ties:
  assumes ok0: "heap_ok m rn S R0" and ok1: "heap_ok m rn S R1"
    and st0: "heap_strict m R0" and st1: "heap_strict m R1"
    and lab: "\<forall>x \<in># S. snd x \<noteq> - 1"
  shows "(\<exists>res0 res1.
            compute_dis_norank condition k (init_result m k) R0 = Inr res0
          \<and> compute_dis_norank condition k (init_result m k) R1 = Inr res1
          \<and> length res0 = k \<and> length res1 = k
          \<and> equal_up_to_ties (filter_mset real_entry (mset res0)) (filter_mset real_entry (mset res1))
          \<and> image_mset snd (filter_mset real_entry (mset res0)) \<subseteq># image_mset snd S
          \<and> image_mset snd (filter_mset real_entry (mset res1)) \<subseteq># image_mset snd S)
       \<or> (compute_dis_norank condition k (init_result m k) R0 = Inl OutOfBounds
          \<and> compute_dis_norank condition k (init_result m k) R1 = Inl OutOfBounds)"
proof -
  let ?P = "\<lambda>(dis, vid). vid \<noteq> - 1 \<and> range_test condition dis"
  define s0 where "s0 = filter ?P R0"
  define s1 where "s1 = filter ?P R1"
  have m0: "mset s0 = filter_mset ?P (mset R0)" and m1: "mset s1 = filter_mset ?P (mset R1)"
    by (simp_all add: s0_def s1_def)
  have l0: "\<forall>x \<in># mset R0. x = (neutral m, - 1) \<or> (cmp m (neutral m) (fst x) \<and> snd x \<noteq> - 1)"
    using heap_ok_members [OF ok0 st0] lab by blast
  have l1: "\<forall>x \<in># mset R1. x = (neutral m, - 1) \<or> (cmp m (neutral m) (fst x) \<and> snd x \<noteq> - 1)"
    using heap_ok_members [OF ok1 st1] lab by blast
  have t: "equal_up_to_ties (mset s0) (mset s1)"
    unfolding m0 m1
    by (rule equal_up_to_ties_filter_labelled [OF heap_ok_ties [OF ok0 ok1] l0 l1])
  have "size (mset s0) = size (mset s1)" using t by (rule equal_up_to_ties_size)
  then have len: "length s0 = length s1" by simp
  have sub: "image_mset snd (filter_mset ?P (mset R)) \<subseteq># image_mset snd S"
    if "heap_ok m rn S R" for R
  proof -
    have "filter_mset ?P (mset R) \<subseteq># filter_mset real_entry (mset R)"
      using filter_labelled_subset [of "\<lambda>d vid. range_test condition d" "mset R"] by simp
    also have "\<dots> \<subseteq># S" using that by (rule heap_ok_real_subset)
    finally show ?thesis by (rule image_mset_subseteq_mono)
  qed
  have real: "filter_mset real_entry (mset (s @ replicate n (neutral m, - 1))) = mset s"
    if "mset s = filter_mset ?P (mset R)" for s n R
  proof -
    have "filter_mset real_entry (mset s) = mset s"
      unfolding that
      using filter_real_labelled [of "\<lambda>d vid. range_test condition d" "mset R"] by simp
    then show ?thesis by (simp add: filter_real_replicate)
  qed
  show ?thesis
  proof (cases "length s0 \<le> k")
    case True
    have r0: "compute_dis_norank condition k (init_result m k) R0
              = Inr (s0 @ replicate (k - length s0) (neutral m, - 1))"
      using True by (simp add: compute_dis_norank_result s0_def Let_def)
    have r1: "compute_dis_norank condition k (init_result m k) R1
              = Inr (s1 @ replicate (k - length s1) (neutral m, - 1))"
      using True len by (simp add: compute_dis_norank_result s1_def Let_def)
    have "length (s0 @ replicate (k - length s0) (neutral m, - 1)) = k"
      "length (s1 @ replicate (k - length s1) (neutral m, - 1)) = k"
      using True len by simp_all
    moreover have "equal_up_to_ties
        (filter_mset real_entry (mset (s0 @ replicate (k - length s0) (neutral m, - 1))))
        (filter_mset real_entry (mset (s1 @ replicate (k - length s1) (neutral m, - 1))))"
      unfolding real [OF m0] real [OF m1] by (rule t)
    moreover have "image_mset snd
        (filter_mset real_entry (mset (s0 @ replicate (k - length s0) (neutral m, - 1))))
        \<subseteq># image_mset snd S"
      unfolding real [OF m0] m0 by (rule sub [OF ok0])
    moreover have "image_mset snd
        (filter_mset real_entry (mset (s1 @ replicate (k - length s1) (neutral m, - 1))))
        \<subseteq># image_mset snd S"
      unfolding real [OF m1] m1 by (rule sub [OF ok1])
    ultimately show ?thesis using r0 r1 by blast
  next
    case False
    then have "compute_dis_norank condition k (init_result m k) R0 = Inl OutOfBounds"
      "compute_dis_norank condition k (init_result m k) R1 = Inl OutOfBounds"
      using len by (simp_all add: compute_dis_norank_result s0_def s1_def Let_def)
    then show ?thesis by blast
  qed
qed

lemma image_snd_rank_cands:
  "image_mset snd (rank_cands condition dis_of R)
   = image_mset snd (filter_mset (\<lambda>(d, vid). vid \<noteq> - 1 \<and> range_test condition (dis_of vid)) R)"
  by (simp add: rank_cands_def image_mset.compositionality comp_def case_prod_unfold)

lemma rank_cands_labelled: "\<forall>x \<in># rank_cands condition dis_of R. snd x \<noteq> - 1"
  by (auto simp: rank_cands_def)

lemma compute_dis_rank_ties:
  assumes k: "0 < k"
    and ok0: "heap_ok m rn S R0"
    and R: "mset R0 = mset R1"
  shows "\<exists>res0 res1.
            compute_dis_rank condition m k dis_of (init_result m k) R0 = Inr res0
          \<and> compute_dis_rank condition m k dis_of (init_result m k) R1 = Inr res1
          \<and> length res0 = k \<and> length res1 = k
          \<and> equal_up_to_ties (filter_mset real_entry (mset res0)) (filter_mset real_entry (mset res1))
          \<and> image_mset snd (filter_mset real_entry (mset res0)) \<subseteq># image_mset snd S
          \<and> image_mset snd (filter_mset real_entry (mset res1)) \<subseteq># image_mset snd S"
proof -
  define X where "X = rank_cands condition dis_of (mset R0)"
  from rank_loop_Inr [OF k, of condition m dis_of R0 "init_result m k"]
  obtain F0 where f0: "rank_loop condition m k dis_of R0 (init_result m k) = Inr F0" by blast
  from rank_loop_Inr [OF k, of condition m dis_of R1 "init_result m k"]
  obtain F1 where f1: "rank_loop condition m k dis_of R1 (init_result m k) = Inr F1" by blast
  have o0: "heap_ok m k X F0" using rank_loop_ok [OF init_heap_ok f0] by (simp add: X_def)
  have o1: "heap_ok m k X F1" using rank_loop_ok [OF init_heap_ok f1] R by (simp add: X_def)
  have li: "length (init_result m k) = k" by (simp add: init_result_def)
  have s0: "length F0 = k" "heap_strict m F0"
    using rank_loop_strict [OF f0 li init_result_strict] by simp_all
  have s1: "length F1 = k" "heap_strict m F1"
    using rank_loop_strict [OF f1 li init_result_strict] by simp_all
  have l0: "\<forall>x \<in># mset F0. x = (neutral m, - 1) \<or> (cmp m (neutral m) (fst x) \<and> snd x \<noteq> - 1)"
    using heap_ok_members [OF o0 s0(2)] rank_cands_labelled [of condition dis_of "mset R0"]
    unfolding X_def by blast
  have l1: "\<forall>x \<in># mset F1. x = (neutral m, - 1) \<or> (cmp m (neutral m) (fst x) \<and> snd x \<noteq> - 1)"
    using heap_ok_members [OF o1 s1(2)] rank_cands_labelled [of condition dis_of "mset R0"]
    unfolding X_def by blast
  have re: "(\<lambda>(d :: real, vid :: int). vid \<noteq> - 1 \<and> True) = real_entry"
    by (auto simp: real_entry_def)
  have t: "equal_up_to_ties (filter_mset real_entry (mset F0)) (filter_mset real_entry (mset F1))"
    using equal_up_to_ties_filter_labelled [OF heap_ok_ties [OF o0 o1] l0 l1, of "\<lambda>d. True"]
    unfolding re .
  have "image_mset snd X \<subseteq># image_mset snd (filter_mset real_entry (mset R0))"
    unfolding X_def image_snd_rank_cands
    by (rule image_mset_subseteq_mono)
       (use filter_labelled_subset [of "\<lambda>d vid. range_test condition (dis_of vid)" "mset R0"] in simp)
  also have "\<dots> \<subseteq># image_mset snd S"
    by (rule image_mset_subseteq_mono) (rule heap_ok_real_subset [OF ok0])
  finally have xs: "image_mset snd X \<subseteq># image_mset snd S" .
  have sub: "image_mset snd (filter_mset real_entry (mset F)) \<subseteq># image_mset snd S"
    if "heap_ok m k X F" for F
  proof -
    have "image_mset snd (filter_mset real_entry (mset F)) \<subseteq># image_mset snd X"
      by (rule image_mset_subseteq_mono) (rule heap_ok_real_subset [OF that])
    then show ?thesis using xs by (rule subset_mset.order_trans)
  qed
  note fo0 = final_order_real [OF s0(1), of condition m]
  note fo1 = final_order_real [OF s1(1), of condition m]
  have c0: "compute_dis_rank condition m k dis_of (init_result m k) R0
            = Inr (final_order condition m k F0)"
    using f0 by (simp add: compute_dis_rank_def final_order_def)
  have c1: "compute_dis_rank condition m k dis_of (init_result m k) R1
            = Inr (final_order condition m k F1)"
    using f1 by (simp add: compute_dis_rank_def final_order_def)
  have "equal_up_to_ties (filter_mset real_entry (mset (final_order condition m k F0)))
          (filter_mset real_entry (mset (final_order condition m k F1)))"
    using t fo0 fo1 by simp
  moreover have "image_mset snd (filter_mset real_entry (mset (final_order condition m k F0)))
          \<subseteq># image_mset snd S"
    using sub [OF o0] fo0 by simp
  moreover have "image_mset snd (filter_mset real_entry (mset (final_order condition m k F1)))
          \<subseteq># image_mset snd S"
    using sub [OF o1] fo1 by simp
  ultimately show ?thesis using c0 c1 fo0 fo1 by blast
qed

subsection \<open>When the recall heaps and the result heaps hold the same entries\<close>


lemma recall_heaps_equal:
  assumes ok0: "heap_ok m rn S R0" and ok1: "heap_ok m rn S R1"
    and st0: "heap_strict m R0" and st1: "heap_strict m R1"
    and nb: "\<forall>x \<in> set R0. \<forall>y \<in># S - mset R0. fst x \<noteq> fst y"
  shows "mset R0 = mset R1"
proof -
  note t = heap_ok_ties [OF ok0 ok1]
  have e: "mset R0 - mset R1 = {#}"
  proof (rule ccontr)
    assume ne: "mset R0 - mset R1 \<noteq> {#}"
    then obtain x where x: "x \<in># mset R0 - mset R1" by (meson multiset_nonemptyE)
    from t ne have "mset R1 - mset R0 \<noteq> {#}" by (auto simp: equal_up_to_ties_def)
    then obtain y where y: "y \<in># mset R1 - mset R0" by (meson multiset_nonemptyE)
    have xs: "x \<in> set R0" using x by (metis in_diffD set_mset_mset)
    have "(neutral m, - 1) \<notin># mset R1 - mset R0"
      using equal_up_to_ties_no_neutral [OF equal_up_to_ties_sym [OF t], of m]
        heap_ok_members [OF ok0 st0] by blast
    with y have yn: "y \<noteq> (neutral m, - 1)" by auto
    have "count (mset R0) y < count (mset R1) y" using y by (simp add: in_diff_count)
    also have "\<dots> \<le> count (mset (init_result m rn) + S) y"
    proof (rule mset_subset_eq_count)
      show "mset R1 \<subseteq># mset (init_result m rn) + S"
        using ok1 by (simp add: heap_ok_def top_k_def)
    qed
    also have "\<dots> = count S y" using yn by (simp add: count_init_result)
    finally have "y \<in># S - mset R0" by (simp add: in_diff_count)
    with nb xs have "fst x \<noteq> fst y" by blast
    moreover from t x y have "fst x = fst y" by (simp add: equal_up_to_ties_def)
    ultimately show False by simp
  qed
  with t have e2: "mset R1 - mset R0 = {#}" by (simp add: equal_up_to_ties_def)
  from e have "mset R0 \<subseteq># mset R1" by (simp add: Diff_eq_empty_iff_mset)
  moreover from e2 have "mset R1 \<subseteq># mset R0" by (simp add: Diff_eq_empty_iff_mset)
  ultimately show ?thesis by (rule subset_mset.order_antisym)
qed

lemma sort_by_docid_pairs_unique:
  assumes "mset F0 = mset F1"
  shows "sort_by_docid_pairs F0 = sort_by_docid_pairs F1"
proof -
  let ?f = "\<lambda>(val :: real, ids :: int). (ids, val)"
  have "mset (map ?f F0) = mset (map ?f F1)" using assms by simp
  then have "mset (sort (map ?f F1)) = mset (map ?f F0)" by simp
  then have "sort (map ?f F0) = sort (map ?f F1)"
    by (rule properties_for_sort) simp
  then show ?thesis by (simp add: sort_by_docid_pairs_def)
qed

lemma compute_dis_rank_equal:
  assumes k: "0 < k"
    and R: "mset R0 = mset R1"
    and inj: "inj_on fst (set_mset (rank_cands condition dis_of (mset R0)))"
  shows "\<exists>res. compute_dis_rank condition m k dis_of (init_result m k) R0 = Inr res
             \<and> compute_dis_rank condition m k dis_of (init_result m k) R1 = Inr res"
proof -
  define X where "X = rank_cands condition dis_of (mset R0)"
  from rank_loop_Inr [OF k, of condition m dis_of R0 "init_result m k"]
  obtain F0 where f0: "rank_loop condition m k dis_of R0 (init_result m k) = Inr F0" by blast
  from rank_loop_Inr [OF k, of condition m dis_of R1 "init_result m k"]
  obtain F1 where f1: "rank_loop condition m k dis_of R1 (init_result m k) = Inr F1" by blast
  have o0: "heap_ok m k X F0" using rank_loop_ok [OF init_heap_ok f0] by (simp add: X_def)
  have o1: "heap_ok m k X F1" using rank_loop_ok [OF init_heap_ok f1] R by (simp add: X_def)
  have li: "length (init_result m k) = k" by (simp add: init_result_def)
  have s0: "length F0 = k" "heap_strict m F0"
    using rank_loop_strict [OF f0 li init_result_strict] by simp_all
  have s1: "length F1 = k" "heap_strict m F1"
    using rank_loop_strict [OF f1 li init_result_strict] by simp_all
  have ix: "inj_on fst (set_mset X)" using inj by (simp add: X_def)
  have F: "mset F0 = mset F1"
    by (rule equal_up_to_ties_inj [OF heap_ok_ties [OF o0 o1]
          heap_ok_members [OF o0 s0(2)] heap_ok_members [OF o1 s1(2)] ix])
  have h0: "is_heap m k F0" and h1: "is_heap m k F1" using o0 o1 by (simp_all add: heap_ok_def)
  have "set_mset (filter_mset real_entry (mset F0)) \<subseteq> set_mset X"
    using heap_ok_real_subset [OF o0] by (rule set_mset_mono)
  with ix have ir: "inj_on fst (set_mset (filter_mset real_entry (mset F0)))"
    by (rule inj_on_subset)
  have "final_order condition m k F0 = final_order condition m k F1"
  proof (cases "sort_by_docid condition")
    case True
    then show ?thesis using sort_by_docid_pairs_unique [OF F] by (simp add: final_order_def)
  next
    case False
    then show ?thesis
      using heap_reorder_unique [OF s0(1) s1(1) h0 h1 F ir] by (simp add: final_order_def)
  qed
  then show ?thesis using f0 f1 by (simp add: compute_dis_rank_def final_order_def)
qed

lemma equal_up_to_ties_refl: "equal_up_to_ties F F"
  by (simp add: equal_up_to_ties_def)

section \<open>The two parallel modes of \<open>Search\<close>\<close>

text \<open>
  Claim C3, as the code has it. One query of \<open>Search\<close> on the IVF-PQ path, with
  \<open>max_codes = 0\<close> and positive \<open>topn\<close> and \<open>recall_num\<close>. The candidates of the query are the
  entries of the probed lists that the filter lets through, each with its PQ distance;
  their labels are vids (none is \<open>-1\<close>). Suppose that

  \<^item> with \<open>has_rank\<close>, no candidate that the recall heap leaves out has the PQ distance of an
    entry that it keeps (the \<open>recall_num\<close> best candidates are determined without breaking a
    tie), and

  \<^item> no two candidates map to the same docid, or else \<open>has_rank\<close> is set and the recall
    entries that pass the range test have pairwise different exact distances.

  Then for every distribution of the probes over the threads, the \<open>topn\<close> slots
  \<open>(dist, docid)\<close> that \<open>Search\<close> returns with \<open>parallel_mode == 0\<close> and with
  \<open>parallel_mode == 1\<close> are equal as multisets up to tie-breaking among equal distances: the
  entries that one result holds and the other lacks are as many on both sides and are all
  at one distance. Ties are not excluded: without rank the candidates may share PQ
  distances, also at the boundary of the recall heap, and with rank and distinct docids
  they may share exact distances. Both modes return a result, except that without rank
  both alike write past the \<open>topn\<close> slots of the query when more than \<open>topn\<close> recall entries
  pass the range test.
\<close>

theorem Search_parallel_modes_agree:
  assumes "0 < topn condition" and "0 < recall_num condition"
    and "schedule_of schedule keys coarse_dis"
    and "\<forall>x \<in># probes_cands env (probes_of keys coarse_dis). snd x \<noteq> - 1"
    and "has_rank condition \<longrightarrow>
         (\<forall>x \<in> set (recall_mode0 env m (recall_num condition) keys coarse_dis).
          \<forall>y \<in># probes_cands env (probes_of keys coarse_dis)
                 - mset (recall_mode0 env m (recall_num condition) keys coarse_dis).
            fst x \<noteq> fst y)"
    and "(\<forall>c. count (image_mset (vid2docid \<circ> snd)
                 (probes_cands env (probes_of keys coarse_dis))) c \<le> 1)
       \<or> (has_rank condition
          \<and> inj_on fst (set_mset (rank_cands condition dis_of
                 (mset (recall_mode0 env m (recall_num condition) keys coarse_dis)))))"
  shows "(\<exists>out0 out1.
            Search_query_mode0 env condition m 0 dis_of vid2docid GetSource keys coarse_dis
              sources idx = Inr out0
          \<and> Search_query_mode1 env condition m dis_of vid2docid GetSource schedule
              sources idx = Inr out1
          \<and> equal_up_to_ties (mset (fst out0)) (mset (fst out1)))
       \<or> (has_rank condition = False
          \<and> Search_query_mode0 env condition m 0 dis_of vid2docid GetSource keys coarse_dis
              sources idx = Inl OutOfBounds
          \<and> Search_query_mode1 env condition m dis_of vid2docid GetSource schedule
              sources idx = Inl OutOfBounds)"
proof -
  define rn where "rn = recall_num condition"
  define k where "k = topn condition"
  define probes where "probes = probes_of keys coarse_dis"
  define S where "S = probes_cands env probes"
  have rn: "0 < rn" using assms(2) by (simp add: rn_def)
  have kp: "0 < k" using assms(1) by (simp add: k_def)
  from probe_loop_visited [OF rn, of probes env m 0 0 "init_result m rn" "[]"]
  obtain n0 R0 v0 where p0: "probe_loop env m rn 0 probes (0, init_result m rn, []) = Inr (n0, R0, v0)"
    by blast
  from merge_threads_visited [OF rn, of env m schedule "init_result m rn" "[]"]
  obtain R1 v1 where p1: "merge_threads env m rn schedule (init_result m rn, []) = Inr (R1, v1)"
    by blast
  have r0: "recall_mode0 env m (recall_num condition) keys coarse_dis = R0"
    using p0 by (simp add: recall_mode0_def rn_def probes_def)
  have sch: "mset (concat schedule) = mset probes"
    using assms(3) by (simp add: schedule_of_def probes_def)
  have ok0: "heap_ok m rn S R0"
    using probe_loop_ok [OF init_heap_ok p0] by (simp add: S_def)
  have ok1: "heap_ok m rn S R1"
    using merge_threads_ok [OF init_heap_ok p1] probes_cands_perm [OF sch, of env]
    by (simp add: S_def)
  have li: "length (init_result m rn) = rn" by (simp add: init_result_def)
  have st0: "heap_strict m R0" using probe_loop_strict [OF p0 li init_result_strict] by simp
  have st1: "heap_strict m R1" using merge_threads_strict [OF p1 li init_result_strict] by simp
  have lab: "\<forall>x \<in># S. snd x \<noteq> - 1" using assms(4) by (simp add: S_def probes_def)
  have m0: "Search_query_mode0 env condition m 0 dis_of vid2docid GetSource keys coarse_dis sources idx
            = (case compute_dis condition m k dis_of (init_result m k) R0 of
                 Inl err \<Rightarrow> Inl err
               | Inr res \<Rightarrow> Inr (remap_query vid2docid GetSource k (res, sources, idx)))"
    using p0
    by (simp add: Search_query_mode0_def search_query_mode0_def Let_def rn_def k_def probes_def
        split: sum.splits)
  have m1: "Search_query_mode1 env condition m dis_of vid2docid GetSource schedule sources idx
            = (case compute_dis condition m k dis_of (init_result m k) R1 of
                 Inl err \<Rightarrow> Inl err
               | Inr res \<Rightarrow> Inr (remap_query vid2docid GetSource k (res, sources, idx)))"
    using p1
    by (simp add: Search_query_mode1_def search_query_mode1_def Let_def rn_def k_def
        split: sum.splits)
  have fin: ?thesis
    if doc: "\<forall>c. count (image_mset (vid2docid \<circ> snd) S) c \<le> 1"
      and c0: "compute_dis condition m k dis_of (init_result m k) R0 = Inr res0"
      and c1: "compute_dis condition m k dis_of (init_result m k) R1 = Inr res1"
      and l: "length res0 = k" "length res1 = k"
      and t: "equal_up_to_ties (filter_mset real_entry (mset res0)) (filter_mset real_entry (mset res1))"
      and s: "image_mset snd (filter_mset real_entry (mset res0)) \<subseteq># image_mset snd S"
        "image_mset snd (filter_mset real_entry (mset res1)) \<subseteq># image_mset snd S"
    for res0 res1
  proof -
    have "equal_up_to_ties
           (mset (fst (remap_query vid2docid GetSource k (res0, sources, idx))))
           (mset (fst (remap_query vid2docid GetSource k (res1, sources, idx))))"
      by (rule remap_query_ties [OF l t s doc])
    then show ?thesis using c0 c1 by (simp add: m0 m1)
  qed
  show ?thesis
  proof (cases "has_rank condition")
    case True
    then have nb: "\<forall>x \<in> set R0. \<forall>y \<in># S - mset R0. fst x \<noteq> fst y"
      using assms(5) by (simp add: r0 S_def probes_def)
    have R: "mset R0 = mset R1" by (rule recall_heaps_equal [OF ok0 ok1 st0 st1 nb])
    from assms(6) consider
      (docs) "\<forall>c. count (image_mset (vid2docid \<circ> snd) S) c \<le> 1"
      | (dists) "inj_on fst (set_mset (rank_cands condition dis_of (mset R0)))"
      by (auto simp: r0 S_def probes_def)
    then show ?thesis
    proof cases
      case docs
      from compute_dis_rank_ties [OF kp ok0 R, of condition dis_of]
      obtain res0 res1 where
        "compute_dis_rank condition m k dis_of (init_result m k) R0 = Inr res0"
        "compute_dis_rank condition m k dis_of (init_result m k) R1 = Inr res1"
        "length res0 = k" "length res1 = k"
        "equal_up_to_ties (filter_mset real_entry (mset res0)) (filter_mset real_entry (mset res1))"
        "image_mset snd (filter_mset real_entry (mset res0)) \<subseteq># image_mset snd S"
        "image_mset snd (filter_mset real_entry (mset res1)) \<subseteq># image_mset snd S"
        by blast
      then show ?thesis using True docs by (intro fin [of res0 res1]) (simp_all add: compute_dis_def)
    next
      case dists
      from compute_dis_rank_equal [OF kp R dists, of m]
      obtain res where
        "compute_dis_rank condition m k dis_of (init_result m k) R0 = Inr res"
        "compute_dis_rank condition m k dis_of (init_result m k) R1 = Inr res"
        by blast
      then show ?thesis using True by (simp add: m0 m1 compute_dis_def equal_up_to_ties_refl)
    qed
  next
    case False
    then have doc: "\<forall>c. count (image_mset (vid2docid \<circ> snd) S) c \<le> 1"
      using assms(6) by (simp add: S_def probes_def)
    from compute_dis_norank_ties [OF ok0 ok1 st0 st1 lab, of condition k]
    consider res0 res1 where
      "compute_dis_norank condition k (init_result m k) R0 = Inr res0"
      "compute_dis_norank condition k (init_result m k) R1 = Inr res1"
      "length res0 = k" "length res1 = k"
      "equal_up_to_ties (filter_mset real_entry (mset res0)) (filter_mset real_entry (mset res1))"
      "image_mset snd (filter_mset real_entry (mset res0)) \<subseteq># image_mset snd S"
      "image_mset snd (filter_mset real_entry (mset res1)) \<subseteq># image_mset snd S"
      | "compute_dis_norank condition k (init_result m k) R0 = Inl OutOfBounds"
        "compute_dis_norank condition k (init_result m k) R1 = Inl OutOfBounds"
      by blast
    then show ?thesis
    proof cases
      case 1
      then show ?thesis using False doc by (intro fin [of res0 res1]) (simp_all add: compute_dis_def)
    next
      case 2
      then show ?thesis using False by (simp add: m0 m1 compute_dis_def)
    qed
  qed
qed

text \<open>
  With \<open>max_codes = 2\<close> the two modes differ on the same index, query and condition: the
  loop of \<open>parallel_mode == 0\<close> leaves after the first list (two codes scanned), the loop
  of \<open>parallel_mode == 1\<close> has no test on \<open>max_codes\<close> and scans the three lists. The docids
  and all the distances are pairwise different, so neither a tie nor the deduplication is
  involved: mode 0 returns the docids \<open>107\<close> and \<open>108\<close>, mode 1 the docids \<open>107\<close> and \<open>109\<close>.
\<close>

theorem parallel_modes_max_codes_counterexample:
  "schedule_of [[(1, 1, 0)], [(0, 0, 0), (2, 2, 0)]] [0, 1, 2] [0, 0, 0]
   \<and> Search_query_mode0 example_scan_env ranked_condition METRIC_L2 2 example_dis_of
        example_vid2docid (\<lambda>vid. None) [0, 1, 2] [0, 0, 0] [None, None] (- 1)
      = Inr ([(7 / 4, 107), (2, 108)], [None, None], 0)
   \<and> Search_query_mode1 example_scan_env ranked_condition METRIC_L2 example_dis_of
        example_vid2docid (\<lambda>vid. None) [[(1, 1, 0)], [(0, 0, 0), (2, 2, 0)]] [None, None] (- 1)
      = Inr ([(7 / 4, 107), (9 / 4, 109)], [None, None], 0)
   \<and> \<not> equal_up_to_ties (mset [(7 / 4, 107), (2, 108)]) (mset [(7 / 4, 107), (9 / 4, 109)])"
proof -
  have s: "schedule_of [[(1, 1, 0)], [(0, 0, 0), (2, 2, 0)]] [0, 1, 2] [0, 0, 0]"
    by (simp add: schedule_of_def probes_of_def upt_conv_Cons)
  have a: "Search_query_mode0 example_scan_env ranked_condition METRIC_L2 2 example_dis_of
        example_vid2docid (\<lambda>vid. None) [0, 1, 2] [0, 0, 0] [None, None] (- 1)
      = Inr ([(7 / 4, 107), (2, 108)], [None, None], 0)"
    by code_simp
  have b: "Search_query_mode1 example_scan_env ranked_condition METRIC_L2 example_dis_of
        example_vid2docid (\<lambda>vid. None) [[(1, 1, 0)], [(0, 0, 0), (2, 2, 0)]] [None, None] (- 1)
      = Inr ([(7 / 4, 107), (9 / 4, 109)], [None, None], 0)"
    by code_simp
  have c: "\<not> equal_up_to_ties (mset [(7 / 4, 107), (2, 108)]) (mset [(7 / 4, 107), (9 / 4, 109)])"
    by (simp add: equal_up_to_ties_def)
  show ?thesis using s a b c by blast
qed



text \<open>
  Two instances of the agreement. Without rank, with one recall slot and the vectors \<open>7\<close>
  and \<open>9\<close> at the same PQ distance: mode 0 returns the docid of \<open>7\<close>, mode 1 that of \<open>9\<close>, at
  the same distance. With rank, pairwise different distances and the vectors \<open>7\<close> and \<open>9\<close>
  in one document: both modes return the document once, at the distance of \<open>7\<close>.
\<close>

lemma tied_probes_cands:
  "probes_cands tied_scan_env (probes_of [0, 1, 2] [0, 0, 0]) = {#(1 / 2, 7), (1 / 2, 9), (3 / 2, 5)#}"
  by (simp add: probes_cands_def probes_of_def upt_conv_Cons list_cands_def entries_cands_def
      tied_scan_env_def)

lemma example_probes_cands:
  "probes_cands example_scan_env (probes_of [0, 1, 2] [0, 0, 0]) = {#(1 / 2, 7), (1, 8), (0, 9)#}"
  by (simp add: probes_cands_def probes_of_def upt_conv_Cons list_cands_def entries_cands_def
      example_scan_env_def)

lemma example_recall_mode0:
  "recall_mode0 example_scan_env METRIC_L2 2 [0, 1, 2] [0, 0, 0] = [(1 / 2, 7), (0, 9)]"
  by code_simp

lemma example_rank_cands:
  "rank_cands ranked_condition example_dis_of (mset [(1 / 2, 7), (0, 9)])
   = {#(7 / 4, 7), (9 / 4, 9)#}"
  by (simp add: rank_cands_def range_test_def ranked_condition_def example_condition_def
      example_dis_of_def)

theorem Search_parallel_modes_agree_witness:
  "0 < topn (example_condition\<lparr>recall_num := 1\<rparr>)
   \<and> 0 < recall_num (example_condition\<lparr>recall_num := 1\<rparr>)
   \<and> schedule_of [[(1, 1, 0)], [(0, 0, 0), (2, 2, 0)]] [0, 1, 2] [0, 0, 0]
   \<and> probes_cands tied_scan_env (probes_of [0, 1, 2] [0, 0, 0])
      = {#(1 / 2, 7), (1 / 2, 9), (3 / 2, 5)#}
   \<and> image_mset (example_vid2docid \<circ> snd) (probes_cands tied_scan_env (probes_of [0, 1, 2] [0, 0, 0]))
      = {#107, 109, 105#}
   \<and> has_rank (example_condition\<lparr>recall_num := 1\<rparr>) = False
   \<and> Search_query_mode0 tied_scan_env (example_condition\<lparr>recall_num := 1\<rparr>) METRIC_L2 0
        example_dis_of example_vid2docid (\<lambda>vid. None) [0, 1, 2] [0, 0, 0] [None] (- 1)
      = Inr ([(1 / 2, 107)], [None], 0)
   \<and> Search_query_mode1 tied_scan_env (example_condition\<lparr>recall_num := 1\<rparr>) METRIC_L2
        example_dis_of example_vid2docid (\<lambda>vid. None) [[(1, 1, 0)], [(0, 0, 0), (2, 2, 0)]]
        [None] (- 1)
      = Inr ([(1 / 2, 109)], [None], 0)
   \<and> equal_up_to_ties (mset [(1 / 2, 107)]) (mset [(1 / 2, 109)])
   \<and> 0 < topn ranked_condition \<and> 0 < recall_num ranked_condition
   \<and> has_rank ranked_condition
   \<and> probes_cands example_scan_env (probes_of [0, 1, 2] [0, 0, 0])
      = {#(1 / 2, 7), (1, 8), (0, 9)#}
   \<and> recall_mode0 example_scan_env METRIC_L2 (recall_num ranked_condition) [0, 1, 2] [0, 0, 0]
      = [(1 / 2, 7), (0, 9)]
   \<and> rank_cands ranked_condition example_dis_of (mset [(1 / 2, 7), (0, 9)])
      = {#(7 / 4, 7), (9 / 4, 9)#}
   \<and> Search_query_mode0 example_scan_env ranked_condition METRIC_L2 0 example_dis_of
        (\<lambda>vid. if vid = 8 then 2 else 1) (\<lambda>vid. None) [0, 1, 2] [0, 0, 0] [None, None] (- 1)
      = Inr ([(7 / 4, 1), (- 1, - 1)], [None, None], 0)
   \<and> Search_query_mode1 example_scan_env ranked_condition METRIC_L2 example_dis_of
        (\<lambda>vid. if vid = 8 then 2 else 1) (\<lambda>vid. None) [[(1, 1, 0)], [(0, 0, 0), (2, 2, 0)]]
        [None, None] (- 1)
      = Inr ([(7 / 4, 1), (- 1, - 1)], [None, None], 0)
   \<and> equal_up_to_ties (mset [(7 / 4, 1), (- 1, - 1)]) (mset [(7 / 4, 1), (- 1, - 1)])"
proof -
  let ?c = "example_condition\<lparr>recall_num := 1\<rparr>"
  let ?s = "[[(1, 1, 0)], [(0, 0, 0), (2, 2, 0)]] :: probe list list"
  let ?v = "\<lambda>vid :: int. if vid = 8 then 2 else 1 :: int"
  have k: "0 < topn ?c" "0 < recall_num ?c" and r: "has_rank ?c = False"
    by (simp_all add: example_condition_def)
  have k2: "0 < topn ranked_condition" "0 < recall_num ranked_condition"
    and r2: "has_rank ranked_condition" and n2: "recall_num ranked_condition = 2"
    by (simp_all add: ranked_condition_def example_condition_def)
  have s: "schedule_of ?s [0, 1, 2] [0, 0, 0]"
    by (simp add: schedule_of_def probes_of_def upt_conv_Cons)
  have d: "image_mset (example_vid2docid \<circ> snd) (probes_cands tied_scan_env (probes_of [0, 1, 2] [0, 0, 0]))
      = {#107, 109, 105#}"
    by (simp add: tied_probes_cands example_vid2docid_def)
  have lab: "\<forall>x \<in># probes_cands tied_scan_env (probes_of [0, 1, 2] [0, 0, 0]). snd x \<noteq> - 1"
    by (simp add: tied_probes_cands)
  have nb: "has_rank ?c \<longrightarrow>
         (\<forall>x \<in> set (recall_mode0 tied_scan_env METRIC_L2 (recall_num ?c) [0, 1, 2] [0, 0, 0]).
          \<forall>y \<in># probes_cands tied_scan_env (probes_of [0, 1, 2] [0, 0, 0])
                 - mset (recall_mode0 tied_scan_env METRIC_L2 (recall_num ?c) [0, 1, 2] [0, 0, 0]).
            fst x \<noteq> fst y)"
    using r by simp
  have doc: "(\<forall>c. count (image_mset (example_vid2docid \<circ> snd)
                (probes_cands tied_scan_env (probes_of [0, 1, 2] [0, 0, 0]))) c \<le> 1)
       \<or> (has_rank ?c
          \<and> inj_on fst (set_mset (rank_cands ?c example_dis_of
                 (mset (recall_mode0 tied_scan_env METRIC_L2 (recall_num ?c) [0, 1, 2] [0, 0, 0])))))"
    unfolding d by simp
  have a: "Search_query_mode0 tied_scan_env ?c METRIC_L2 0
        example_dis_of example_vid2docid (\<lambda>vid. None) [0, 1, 2] [0, 0, 0] [None] (- 1)
      = Inr ([(1 / 2, 107)], [None], 0)"
    by code_simp
  have b: "Search_query_mode1 tied_scan_env ?c METRIC_L2
        example_dis_of example_vid2docid (\<lambda>vid. None) ?s [None] (- 1)
      = Inr ([(1 / 2, 109)], [None], 0)"
    by code_simp
  have t: "equal_up_to_ties (mset [(1 / 2, 107)]) (mset [(1 / 2, 109)])"
    using Search_parallel_modes_agree [OF k s lab nb doc, of "\<lambda>vid. None" "[None]" "- 1"]
    unfolding a b by simp
  have rm: "recall_mode0 example_scan_env METRIC_L2 (recall_num ranked_condition) [0, 1, 2] [0, 0, 0]
      = [(1 / 2, 7), (0, 9)]"
    unfolding n2 by (rule example_recall_mode0)
  have lab2: "\<forall>x \<in># probes_cands example_scan_env (probes_of [0, 1, 2] [0, 0, 0]). snd x \<noteq> - 1"
    by (simp add: example_probes_cands)
  have nb2: "has_rank ranked_condition \<longrightarrow>
         (\<forall>x \<in> set (recall_mode0 example_scan_env METRIC_L2 (recall_num ranked_condition) [0, 1, 2] [0, 0, 0]).
          \<forall>y \<in># probes_cands example_scan_env (probes_of [0, 1, 2] [0, 0, 0])
                 - mset (recall_mode0 example_scan_env METRIC_L2 (recall_num ranked_condition) [0, 1, 2] [0, 0, 0]).
            fst x \<noteq> fst y)"
    unfolding rm example_probes_cands by simp
  have doc2: "(\<forall>c. count (image_mset (?v \<circ> snd)
                (probes_cands example_scan_env (probes_of [0, 1, 2] [0, 0, 0]))) c \<le> 1)
       \<or> (has_rank ranked_condition
          \<and> inj_on fst (set_mset (rank_cands ranked_condition example_dis_of
                 (mset (recall_mode0 example_scan_env METRIC_L2 (recall_num ranked_condition)
                    [0, 1, 2] [0, 0, 0])))))"
    unfolding rm example_rank_cands using r2 by simp
  have a2: "Search_query_mode0 example_scan_env ranked_condition METRIC_L2 0 example_dis_of
        ?v (\<lambda>vid. None) [0, 1, 2] [0, 0, 0] [None, None] (- 1)
      = Inr ([(7 / 4, 1), (- 1, - 1)], [None, None], 0)"
    by code_simp
  have b2: "Search_query_mode1 example_scan_env ranked_condition METRIC_L2 example_dis_of
        ?v (\<lambda>vid. None) ?s [None, None] (- 1)
      = Inr ([(7 / 4, 1), (- 1, - 1)], [None, None], 0)"
    by code_simp
  have t2: "equal_up_to_ties (mset [(7 / 4, 1), (- 1, - 1)]) (mset [(7 / 4, 1), (- 1, - 1)])"
    using Search_parallel_modes_agree [OF k2 s lab2 nb2 doc2, of "\<lambda>vid. None" "[None, None]" "- 1"]
    unfolding a2 b2 by simp
  show ?thesis
    using k r s tied_probes_cands d a b t k2 r2 example_probes_cands rm example_rank_cands a2 b2 t2
    by blast
qed

text \<open>
  The hypotheses on the candidates cannot be dropped, also with \<open>max_codes = 0\<close>. Without
  rank, when two candidates are vectors of one document (here the vids \<open>7\<close> and \<open>9\<close>), the
  loop at the end of \<open>Search\<close> keeps the first slot of the document, and the order of the
  slots is the order of the recall heap, which depends on the order of the scans: the two
  modes return the document at different distances. With rank, when two candidates are at
  the same PQ distance and one recall slot is left for them, the modes keep different
  vectors, whose exact distances differ. With rank again, when two recall entries have
  the same exact distance and one of them shares its document with a better entry, the
  modes keep different ones of the two, and only one of them survives the deduplication.
\<close>

lemma shared_docid_modes_differ:
  "Search_query_mode0 example_scan_env (example_condition\<lparr>topn := 3, recall_num := 3\<rparr>) METRIC_L2 0
        example_dis_of (\<lambda>vid. if vid = 8 then 2 else 1) (\<lambda>vid. None) [0, 1, 2] [0, 0, 0]
        [None, None, None] (- 1)
      = Inr ([(1, 2), (1 / 2, 1), (- 1, - 1)], [None, None, None], 0)
   \<and> Search_query_mode1 example_scan_env (example_condition\<lparr>topn := 3, recall_num := 3\<rparr>) METRIC_L2
        example_dis_of (\<lambda>vid. if vid = 8 then 2 else 1) (\<lambda>vid. None)
        [[(1, 1, 0)], [(0, 0, 0), (2, 2, 0)]] [None, None, None] (- 1)
      = Inr ([(1, 2), (0, 1), (- 1, - 1)], [None, None, None], 0)
   \<and> \<not> equal_up_to_ties (mset [(1, 2), (1 / 2, 1), (- 1, - 1)]) (mset [(1, 2), (0, 1), (- 1, - 1)])"
proof -
  have a: "Search_query_mode0 example_scan_env (example_condition\<lparr>topn := 3, recall_num := 3\<rparr>) METRIC_L2 0
        example_dis_of (\<lambda>vid. if vid = 8 then 2 else 1) (\<lambda>vid. None) [0, 1, 2] [0, 0, 0]
        [None, None, None] (- 1)
      = Inr ([(1, 2), (1 / 2, 1), (- 1, - 1)], [None, None, None], 0)"
    by code_simp
  have b: "Search_query_mode1 example_scan_env (example_condition\<lparr>topn := 3, recall_num := 3\<rparr>) METRIC_L2
        example_dis_of (\<lambda>vid. if vid = 8 then 2 else 1) (\<lambda>vid. None)
        [[(1, 1, 0)], [(0, 0, 0), (2, 2, 0)]] [None, None, None] (- 1)
      = Inr ([(1, 2), (0, 1), (- 1, - 1)], [None, None, None], 0)"
    by code_simp
  have c: "\<not> equal_up_to_ties (mset [(1, 2), (1 / 2, 1), (- 1, - 1)]) (mset [(1, 2), (0, 1), (- 1, - 1)])"
    by (simp add: equal_up_to_ties_def)
  show ?thesis using a b c by blast
qed

lemma pq_tie_ranked_modes_differ:
  "Search_query_mode0 tied_scan_env (example_condition\<lparr>recall_num := 1, has_rank := True\<rparr>) METRIC_L2 0
        example_dis_of example_vid2docid (\<lambda>vid. None) [0, 1, 2] [0, 0, 0] [None] (- 1)
      = Inr ([(7 / 4, 107)], [None], 0)
   \<and> Search_query_mode1 tied_scan_env (example_condition\<lparr>recall_num := 1, has_rank := True\<rparr>) METRIC_L2
        example_dis_of example_vid2docid (\<lambda>vid. None) [[(1, 1, 0)], [(0, 0, 0), (2, 2, 0)]]
        [None] (- 1)
      = Inr ([(9 / 4, 109)], [None], 0)
   \<and> \<not> equal_up_to_ties (mset [(7 / 4, 107)]) (mset [(9 / 4, 109)])"
proof -
  have a: "Search_query_mode0 tied_scan_env (example_condition\<lparr>recall_num := 1, has_rank := True\<rparr>) METRIC_L2 0
        example_dis_of example_vid2docid (\<lambda>vid. None) [0, 1, 2] [0, 0, 0] [None] (- 1)
      = Inr ([(7 / 4, 107)], [None], 0)"
    by code_simp
  have b: "Search_query_mode1 tied_scan_env (example_condition\<lparr>recall_num := 1, has_rank := True\<rparr>) METRIC_L2
        example_dis_of example_vid2docid (\<lambda>vid. None) [[(1, 1, 0)], [(0, 0, 0), (2, 2, 0)]]
        [None] (- 1)
      = Inr ([(9 / 4, 109)], [None], 0)"
    by code_simp
  have c: "\<not> equal_up_to_ties (mset [(7 / 4, 107)]) (mset [(9 / 4, 109)])"
    by (simp add: equal_up_to_ties_def)
  show ?thesis using a b c by blast
qed

lemma shared_docid_ranked_tie_modes_differ:
  "Search_query_mode0 example_scan_env (ranked_condition\<lparr>recall_num := 3\<rparr>) METRIC_L2 0
        (\<lambda>vid. if vid = 8 then 1 else 2) (\<lambda>vid. if vid = 9 then 2 else 1) (\<lambda>vid. None)
        [0, 1, 2] [0, 0, 0] [None, None] (- 1)
      = Inr ([(1, 1), (- 1, - 1)], [None, None], 0)
   \<and> Search_query_mode1 example_scan_env (ranked_condition\<lparr>recall_num := 3\<rparr>) METRIC_L2
        (\<lambda>vid. if vid = 8 then 1 else 2) (\<lambda>vid. if vid = 9 then 2 else 1) (\<lambda>vid. None)
        [[(1, 1, 0)], [(0, 0, 0), (2, 2, 0)]] [None, None] (- 1)
      = Inr ([(1, 1), (2, 2)], [None, None], 0)
   \<and> \<not> equal_up_to_ties (mset [(1, 1), (- 1, - 1)]) (mset [(1, 1), (2, 2)])"
proof -
  have a: "Search_query_mode0 example_scan_env (ranked_condition\<lparr>recall_num := 3\<rparr>) METRIC_L2 0
        (\<lambda>vid. if vid = 8 then 1 else 2) (\<lambda>vid. if vid = 9 then 2 else 1) (\<lambda>vid. None)
        [0, 1, 2] [0, 0, 0] [None, None] (- 1)
      = Inr ([(1, 1), (- 1, - 1)], [None, None], 0)"
    by code_simp
  have b: "Search_query_mode1 example_scan_env (ranked_condition\<lparr>recall_num := 3\<rparr>) METRIC_L2
        (\<lambda>vid. if vid = 8 then 1 else 2) (\<lambda>vid. if vid = 9 then 2 else 1) (\<lambda>vid. None)
        [[(1, 1, 0)], [(0, 0, 0), (2, 2, 0)]] [None, None] (- 1)
      = Inr ([(1, 1), (2, 2)], [None, None], 0)"
    by code_simp
  have c: "\<not> equal_up_to_ties (mset [(1, 1), (- 1, - 1)]) (mset [(1, 1), (2, 2)])"
    by (simp add: equal_up_to_ties_def)
  show ?thesis using a b c by blast
qed

end
